(* ===== verification/Prelude.thy ===== *)
theory Prelude
  imports Main "HOL-Library.Word" "HOL-Library.Signed_Division"
begin

unbundle bit_operations_syntax

text \<open>
  What every theory of the development shares: the C types (bytes, C strings, \<open>int64_t\<close>
  with its wrap-around, the \<open>EXIT_*\<close> codes), reads and writes of byte buffers, the
  big-endian integer fields of the AOF records and of the network frames
  (\<open>htons\<close>, \<open>htonl\<close>, \<open>htobe64\<close> followed by \<open>memcpy\<close>), and the
  generic lemmas about lists and words the component proofs rest on.

  A C string is the list of the bytes in front of its terminating NUL; reading one out of
  a buffer is \<open>cstr_of\<close>. A \<open>size_t\<close> that counts bytes or entries held in memory is a
  \<open>nat\<close>; an \<open>int64_t\<close> is an \<open>int\<close>, with \<open>wrap64\<close> written at
  the additions and multiplications that can leave its range.
\<close>

section \<open>C types\<close>

type_synonym byte = "8 word"
type_synonym cstr = "byte list"

abbreviation (input) EXIT_SUCCESS :: int where "EXIT_SUCCESS \<equiv> 0"
abbreviation (input) EXIT_FAILURE :: int where "EXIT_FAILURE \<equiv> 1"

text \<open>A string literal of the source as its bytes.\<close>

definition lit :: "string \<Rightarrow> byte list" where
  "lit s = map of_char s"

text \<open>The C string that starts at the head of a buffer: everything before the first NUL.\<close>

definition cstr_of :: "byte list \<Rightarrow> cstr" where
  "cstr_of buf = takeWhile (\<lambda>b. b \<noteq> 0) buf"

definition wf_cstr :: "cstr \<Rightarrow> bool" where
  "wf_cstr s \<longleftrightarrow> 0 \<notin> set s"

text \<open>The value an \<open>int64_t\<close> computation leaves behind (two's complement).\<close>

definition wrap64 :: "int \<Rightarrow> int" where
  "wrap64 x = signed_take_bit 63 x"

definition i64_range :: "int \<Rightarrow> bool" where
  "i64_range x \<longleftrightarrow> - (2 ^ 63) \<le> x \<and> x < 2 ^ 63"

section \<open>Buffers\<close>

text \<open>\<open>memcpy (buf + off) src\<close> on a buffer long enough to hold the bytes.\<close>

definition put :: "byte list \<Rightarrow> nat \<Rightarrow> byte list \<Rightarrow> byte list" where
  "put buf off src = take off buf @ src @ drop (off + length src) buf"

text \<open>The \<open>n\<close> bytes at offset \<open>off\<close>.\<close>

definition bytes_at :: "nat \<Rightarrow> nat \<Rightarrow> byte list \<Rightarrow> byte list" where
  "bytes_at off n buf = take n (drop off buf)"

section \<open>Big-endian fields\<close>

fun be_enc :: "nat \<Rightarrow> nat \<Rightarrow> byte list" where
  "be_enc 0 x = []"
| "be_enc (Suc n) x = of_nat (x div 256 ^ n) # be_enc n x"

definition be_dec :: "byte list \<Rightarrow> nat" where
  "be_dec bs = foldl (\<lambda>a b. a * 256 + unat b) 0 bs"

text \<open>\<open>htons\<close>, \<open>htonl\<close> and \<open>htobe64\<close> with the following \<open>memcpy\<close>, after the
  conversion of the argument to the field's width.\<close>

definition be16 :: "nat \<Rightarrow> byte list" where
  "be16 x = be_enc 2 (x mod 2 ^ 16)"

definition be32 :: "nat \<Rightarrow> byte list" where
  "be32 x = be_enc 4 (x mod 2 ^ 32)"

definition be64 :: "64 word \<Rightarrow> byte list" where
  "be64 w = be_enc 8 (unat w)"

definition de64 :: "byte list \<Rightarrow> 64 word" where
  "de64 bs = of_nat (be_dec bs)"

section \<open>Lemma collections\<close>

named_theorems buf_simps "reads and writes of byte buffers"
named_theorems be_simps "big-endian fields"

section \<open>Lists\<close>

lemma map_of_append_distinct:
  "k \<notin> fst ` set xs \<Longrightarrow> map_of (xs @ ys) k = map_of ys k"
  by (induction xs) auto

lemma map_of_filter_key:
  "map_of (filter (\<lambda>e. P (fst e)) es) k = (if P k then map_of es k else None)"
  by (induction es) auto

lemma map_of_concat_nth:
  assumes "i < length xss" and "\<And>j. j < length xss \<Longrightarrow> j \<noteq> i \<Longrightarrow> k \<notin> fst ` set (xss ! j)"
  shows "map_of (concat xss) k = map_of (xss ! i) k"
  using assms
proof (induction xss arbitrary: i)
  case Nil
  then show ?case by simp
next
  case (Cons xs xss)
  show ?case
  proof (cases i)
    case 0
    have "k \<notin> fst ` set ys" if "ys \<in> set xss" for ys
    proof -
      from that obtain j where "j < length xss" "ys = xss ! j" by (metis in_set_conv_nth)
      with Cons.prems(2)[of "Suc j"] 0 show ?thesis by simp
    qed
    then have "map_of (concat xss) k = None"
      by (auto simp: map_of_eq_None_iff)
    with 0 show ?thesis by (simp add: map_add_def split: option.split)
  next
    case (Suc m)
    have "map_of xs k = None"
      using Cons.prems(2)[of 0] Suc by (simp add: map_of_eq_None_iff)
    moreover have "map_of (concat xss) k = map_of (xss ! m) k"
    proof (rule Cons.IH)
      show "m < length xss" using Cons.prems(1) Suc by simp
      fix j assume "j < length xss" "j \<noteq> m"
      then show "k \<notin> fst ` set (xss ! j)" using Cons.prems(2)[of "Suc j"] Suc by simp
    qed
    ultimately show ?thesis using Suc by (simp add: map_add_def)
  qed
qed

lemma length_concat_update:
  "i < length xss \<Longrightarrow>
   length (concat (xss[i := ys])) + length (xss ! i) = length (concat xss) + length ys"
proof (induction xss arbitrary: i)
  case Nil
  then show ?case by simp
next
  case (Cons xs xss)
  then show ?case by (cases i) auto
qed

text \<open>The keys of a bucket array are distinct when each bucket's are and every key lies in the
  bucket its index function names.\<close>

lemma distinct_concat_indexed:
  assumes "\<And>i. i < length xss \<Longrightarrow>
             distinct (map fst (xss ! i)) \<and> (\<forall>e \<in> set (xss ! i). f (fst e) = i + (off :: nat))"
  shows "distinct (map fst (concat xss)) \<and> (\<forall>e \<in> set (concat xss). off \<le> f (fst e))"
  using assms
proof (induction xss arbitrary: off)
  case Nil
  then show ?case by simp
next
  case (Cons xs xss)
  have "distinct (map fst (concat xss)) \<and> (\<forall>e \<in> set (concat xss). Suc off \<le> f (fst e))"
  proof (rule Cons.IH)
    fix i assume "i < length xss"
    then show "distinct (map fst (xss ! i)) \<and> (\<forall>e \<in> set (xss ! i). f (fst e) = i + Suc off)"
      using Cons.prems[of "Suc i"] by simp
  qed
  moreover have "distinct (map fst xs)" "\<forall>e \<in> set xs. f (fst e) = off"
    using Cons.prems[of 0] by auto
  ultimately show ?case by fastforce
qed

lemma concat_nonempty_nth:
  "concat xss \<noteq> [] \<Longrightarrow> \<exists>i < length xss. xss ! i \<noteq> []"
  by (auto simp: in_set_conv_nth)

section \<open>C strings\<close>

lemma cstr_of_wf [simp]: "wf_cstr (cstr_of buf)"
  by (auto simp: wf_cstr_def cstr_of_def dest: set_takeWhileD)

lemma cstr_of_id [simp]: "wf_cstr s \<Longrightarrow> cstr_of s = s"
  by (auto simp: wf_cstr_def cstr_of_def takeWhile_eq_all_conv)

lemma cstr_of_append_nul [simp]: "wf_cstr s \<Longrightarrow> cstr_of (s @ 0 # junk) = s"
proof -
  assume "wf_cstr s"
  then have "takeWhile (\<lambda>b. b \<noteq> 0) (s @ 0 # junk) = s @ takeWhile (\<lambda>b. b \<noteq> 0) (0 # junk)"
    by (intro takeWhile_append2) (auto simp: wf_cstr_def)
  then show ?thesis by (simp add: cstr_of_def)
qed

lemma length_cstr_of: "length (cstr_of buf) \<le> length buf"
  by (simp add: cstr_of_def length_takeWhile_le)

section \<open>Machine integers\<close>

lemma wrap64_id [simp]: "i64_range x \<Longrightarrow> wrap64 x = x"
  by (simp add: wrap64_def i64_range_def signed_take_bit_int_eq_self_iff)

lemma wrap64_range [simp]: "i64_range (wrap64 x)"
  unfolding wrap64_def i64_range_def
  by (intro conjI signed_take_bit_int_greater_eq_minus_exp signed_take_bit_int_less_exp)

lemma sint_word_of_int_i64 [simp]: "i64_range x \<Longrightarrow> sint (word_of_int x :: 64 word) = x"
  by (simp add: i64_range_def sint_word_ariths signed_take_bit_int_eq_self_iff sint_sbintrunc')

lemma i64_range_sint [simp]: "i64_range (sint (w :: 64 word))"
  using sint_range_size[of w] by (simp add: i64_range_def word_size)

lemma bit_byte_less: "bit (b :: byte) n \<Longrightarrow> n < 8"
  using bit_imp_le_length[of b n] by simp

lemma bit_64_less: "bit (w :: 64 word) n \<Longrightarrow> n < 64"
  using bit_imp_le_length[of w n] by simp

lemma unat_byte_less: "unat (b :: byte) < 256"
proof -
  have "unat b < 2 ^ LENGTH(8)" by (rule unsigned_less)
  then show ?thesis by simp
qed

lemma unat_64_less: "unat (w :: 64 word) < 2 ^ 64"
proof -
  have "unat w < 2 ^ LENGTH(64)" by (rule unsigned_less)
  then show ?thesis by simp
qed

section \<open>Buffers and big-endian fields\<close>

lemma length_put [buf_simps]:
  "off + length src \<le> length buf \<Longrightarrow> length (put buf off src) = length buf"
  by (simp add: put_def)

lemma length_bytes_at [buf_simps]:
  "off + n \<le> length buf \<Longrightarrow> length (bytes_at off n buf) = n"
  by (simp add: bytes_at_def)

lemma bytes_at_append_left [buf_simps]:
  "off + n \<le> length xs \<Longrightarrow> bytes_at off n (xs @ ys) = bytes_at off n xs"
  by (simp add: bytes_at_def)

lemma bytes_at_append_right [buf_simps]:
  "length xs \<le> off \<Longrightarrow> bytes_at off n (xs @ ys) = bytes_at (off - length xs) n ys"
  by (simp add: bytes_at_def)

lemma bytes_at_all [buf_simps]: "length xs = n \<Longrightarrow> bytes_at 0 n xs = xs"
  by (simp add: bytes_at_def)

lemma bytes_at_put [buf_simps]:
  "off \<le> length buf \<Longrightarrow> n = length src \<Longrightarrow> bytes_at off n (put buf off src) = src"
  by (simp add: bytes_at_def put_def)

lemma put_skip [buf_simps]:
  "length h \<le> off \<Longrightarrow> put (h @ t) off src = h @ put t (off - length h) src"
  by (simp add: put_def)

lemma put_here [buf_simps]: "length x = length src \<Longrightarrow> put (x @ t) 0 src = src @ t"
  by (simp add: put_def)

lemma bytes_at_here [buf_simps]:
  "length x \<le> n \<Longrightarrow> bytes_at 0 n (x @ t) = x @ bytes_at 0 (n - length x) t"
  by (simp add: bytes_at_def)

lemma bytes_at_zero [buf_simps]: "bytes_at off 0 t = []"
  by (simp add: bytes_at_def)

lemma put_Cons [buf_simps]: "0 < off \<Longrightarrow> put (b # t) off src = b # put t (off - 1) src"
  by (cases off) (simp_all add: put_def)

lemma bytes_at_Cons [buf_simps]:
  "0 < n \<Longrightarrow> bytes_at 0 n (b # t) = b # bytes_at 0 (n - 1) t"
  by (cases n) (simp_all add: bytes_at_def)

text \<open>Cutting a buffer at a given length.\<close>

lemma cut_buffer:
  assumes "n \<le> length buf"
  obtains x t where "buf = x @ t" "length x = n" "length t = length buf - n"
proof
  show "buf = take n buf @ drop n buf" "length (take n buf) = n"
    "length (drop n buf) = length buf - n"
    using assms by simp_all
qed

lemma length_be_enc [simp]: "length (be_enc n x) = n"
  by (induction n) auto

lemma be_dec_snoc: "be_dec (bs @ [b]) = be_dec bs * 256 + unat b"
  by (simp add: be_dec_def)

lemma foldl_be_add:
  "foldl (\<lambda>a b. a * 256 + unat b) a (bs :: byte list)
   = a * 256 ^ length bs + be_dec bs"
proof (induction bs rule: rev_induct)
  case Nil
  then show ?case by (simp add: be_dec_def)
next
  case (snoc b bs)
  then show ?case by (simp add: be_dec_snoc algebra_simps)
qed

lemma be_dec_Cons: "be_dec (b # bs) = unat b * 256 ^ length bs + be_dec bs"
  using foldl_be_add[of "unat b" bs] by (simp add: be_dec_def)

lemma be_dec_enc: "be_dec (be_enc n x) = x mod 256 ^ n"
proof (induction n)
  case 0
  then show ?case by (simp add: be_dec_def)
next
  case (Suc n)
  have "be_dec (be_enc (Suc n) x) = (x div 256 ^ n) mod 256 * 256 ^ n + x mod 256 ^ n"
    using Suc by (simp add: be_dec_Cons unat_of_nat)
  also have "\<dots> = x mod (256 ^ n * 256)"
    by (subst mod_mult2_eq) (simp add: mult.commute)
  finally show ?case by (simp add: mult.commute)
qed

lemma be_dec_less: "be_dec bs < 256 ^ length bs"
proof (induction bs)
  case Nil
  then show ?case by (simp add: be_dec_def)
next
  case (Cons b bs)
  have "unat b \<le> 255" using unat_byte_less[of b] by simp
  then have "unat b * 256 ^ length bs \<le> 255 * 256 ^ length bs" by (rule mult_right_mono) simp
  with Cons have "unat b * 256 ^ length bs + be_dec bs < 256 * 256 ^ length bs" by linarith
  then show ?case by (simp add: be_dec_Cons)
qed

lemma length_be [be_simps]: "length (be16 x) = 2" "length (be32 x) = 4" "length (be64 w) = 8"
  by (simp_all add: be16_def be32_def be64_def)

lemma be_dec_be16 [be_simps]: "x < 2 ^ 16 \<Longrightarrow> be_dec (be16 x) = x"
  by (simp add: be16_def be_dec_enc)

lemma be_dec_be32 [be_simps]: "x < 2 ^ 32 \<Longrightarrow> be_dec (be32 x) = x"
  by (simp add: be32_def be_dec_enc)

lemma de64_be64 [be_simps]: "de64 (be64 w) = w"
  using unat_64_less[of w] by (simp add: de64_def be64_def be_dec_enc)

end
