(* ===== verification/Crc64.thy ===== *)
theory Crc64
  imports Prelude
begin

unbundle bit_operations_syntax

text \<open>
  The checksum of \<open>crc64.c\<close>: the table of 256 words and the byte-wise update loop. The
  reference is the bit-serial CRC of the same polynomial; the table-driven loop computes
  it, and it tells apart any two messages of one length that differ within eight
  consecutive bytes.
\<close>

section \<open>The table-driven checksum\<close>

definition crc64_tab :: "64 word list" where
  "crc64_tab = [
    0x0000000000000000, 0x7ad870c830358979, 0xf5b0e190606b12f2, 0x8f689158505e9b8b,
    0xc038e5739841b68f, 0xbae095bba8743ff6, 0x358804e3f82aa47d, 0x4f50742bc81f2d04,
    0xab28ecb46814fe75, 0xd1f09c7c5821770c, 0x5e980d24087fec87, 0x24407dec384a65fe,
    0x6b1009c7f05548fa, 0x11c8790fc060c183, 0x9ea0e857903e5a08, 0xe478989fa00bd371,
    0x7d08ff3b88be6f81, 0x07d08ff3b88be6f8, 0x88b81eabe8d57d73, 0xf2606e63d8e0f40a,
    0xbd301a4810ffd90e, 0xc7e86a8020ca5077, 0x4880fbd87094cbfc, 0x32588b1040a14285,
    0xd620138fe0aa91f4, 0xacf86347d09f188d, 0x2390f21f80c18306, 0x594882d7b0f40a7f,
    0x1618f6fc78eb277b, 0x6cc0863448deae02, 0xe3a8176c18803589, 0x997067a428b5bcf0,
    0xfa11fe77117cdf02, 0x80c98ebf2149567b, 0x0fa11fe77117cdf0, 0x75796f2f41224489,
    0x3a291b04893d698d, 0x40f16bccb908e0f4, 0xcf99fa94e9567b7f, 0xb5418a5cd963f206,
    0x513912c379682177, 0x2be1620b495da80e, 0xa489f35319033385, 0xde51839b2936bafc,
    0x9101f7b0e12997f8, 0xebd98778d11c1e81, 0x64b116208142850a, 0x1e6966e8b1770c73,
    0x8719014c99c2b083, 0xfdc17184a9f739fa, 0x72a9e0dcf9a9a271, 0x08719014c99c2b08,
    0x4721e43f0183060c, 0x3df994f731b68f75, 0xb29105af61e814fe, 0xc849756751dd9d87,
    0x2c31edf8f1d64ef6, 0x56e99d30c1e3c78f, 0xd9810c6891bd5c04, 0xa3597ca0a188d57d,
    0xec09088b6997f879, 0x96d1784359a27100, 0x19b9e91b09fcea8b, 0x636199d339c963f2,
    0xdf7adabd7a6e2d6f, 0xa5a2aa754a5ba416, 0x2aca3b2d1a053f9d, 0x50124be52a30b6e4,
    0x1f423fcee22f9be0, 0x659a4f06d21a1299, 0xeaf2de5e82448912, 0x902aae96b271006b,
    0x74523609127ad31a, 0x0e8a46c1224f5a63, 0x81e2d7997211c1e8, 0xfb3aa75142244891,
    0xb46ad37a8a3b6595, 0xceb2a3b2ba0eecec, 0x41da32eaea507767, 0x3b024222da65fe1e,
    0xa2722586f2d042ee, 0xd8aa554ec2e5cb97, 0x57c2c41692bb501c, 0x2d1ab4dea28ed965,
    0x624ac0f56a91f461, 0x1892b03d5aa47d18, 0x97fa21650afae693, 0xed2251ad3acf6fea,
    0x095ac9329ac4bc9b, 0x7382b9faaaf135e2, 0xfcea28a2faafae69, 0x8632586aca9a2710,
    0xc9622c4102850a14, 0xb3ba5c8932b0836d, 0x3cd2cdd162ee18e6, 0x460abd1952db919f,
    0x256b24ca6b12f26d, 0x5fb354025b277b14, 0xd0dbc55a0b79e09f, 0xaa03b5923b4c69e6,
    0xe553c1b9f35344e2, 0x9f8bb171c366cd9b, 0x10e3202993385610, 0x6a3b50e1a30ddf69,
    0x8e43c87e03060c18, 0xf49bb8b633338561, 0x7bf329ee636d1eea, 0x012b592653589793,
    0x4e7b2d0d9b47ba97, 0x34a35dc5ab7233ee, 0xbbcbcc9dfb2ca865, 0xc113bc55cb19211c,
    0x5863dbf1e3ac9dec, 0x22bbab39d3991495, 0xadd33a6183c78f1e, 0xd70b4aa9b3f20667,
    0x985b3e827bed2b63, 0xe2834e4a4bd8a21a, 0x6debdf121b863991, 0x1733afda2bb3b0e8,
    0xf34b37458bb86399, 0x8993478dbb8deae0, 0x06fbd6d5ebd3716b, 0x7c23a61ddbe6f812,
    0x3373d23613f9d516, 0x49aba2fe23cc5c6f, 0xc6c333a67392c7e4, 0xbc1b436e43a74e9d,
    0x95ac9329ac4bc9b5, 0xef74e3e19c7e40cc, 0x601c72b9cc20db47, 0x1ac40271fc15523e,
    0x5594765a340a7f3a, 0x2f4c0692043ff643, 0xa02497ca54616dc8, 0xdafce7026454e4b1,
    0x3e847f9dc45f37c0, 0x445c0f55f46abeb9, 0xcb349e0da4342532, 0xb1eceec59401ac4b,
    0xfebc9aee5c1e814f, 0x8464ea266c2b0836, 0x0b0c7b7e3c7593bd, 0x71d40bb60c401ac4,
    0xe8a46c1224f5a634, 0x927c1cda14c02f4d, 0x1d148d82449eb4c6, 0x67ccfd4a74ab3dbf,
    0x289c8961bcb410bb, 0x5244f9a98c8199c2, 0xdd2c68f1dcdf0249, 0xa7f41839ecea8b30,
    0x438c80a64ce15841, 0x3954f06e7cd4d138, 0xb63c61362c8a4ab3, 0xcce411fe1cbfc3ca,
    0x83b465d5d4a0eece, 0xf96c151de49567b7, 0x76048445b4cbfc3c, 0x0cdcf48d84fe7545,
    0x6fbd6d5ebd3716b7, 0x15651d968d029fce, 0x9a0d8ccedd5c0445, 0xe0d5fc06ed698d3c,
    0xaf85882d2576a038, 0xd55df8e515432941, 0x5a3569bd451db2ca, 0x20ed197575283bb3,
    0xc49581ead523e8c2, 0xbe4df122e51661bb, 0x3125607ab548fa30, 0x4bfd10b2857d7349,
    0x04ad64994d625e4d, 0x7e7514517d57d734, 0xf11d85092d094cbf, 0x8bc5f5c11d3cc5c6,
    0x12b5926535897936, 0x686de2ad05bcf04f, 0xe70573f555e26bc4, 0x9ddd033d65d7e2bd,
    0xd28d7716adc8cfb9, 0xa85507de9dfd46c0, 0x273d9686cda3dd4b, 0x5de5e64efd965432,
    0xb99d7ed15d9d8743, 0xc3450e196da80e3a, 0x4c2d9f413df695b1, 0x36f5ef890dc31cc8,
    0x79a59ba2c5dc31cc, 0x037deb6af5e9b8b5, 0x8c157a32a5b7233e, 0xf6cd0afa9582aa47,
    0x4ad64994d625e4da, 0x300e395ce6106da3, 0xbf66a804b64ef628, 0xc5bed8cc867b7f51,
    0x8aeeace74e645255, 0xf036dc2f7e51db2c, 0x7f5e4d772e0f40a7, 0x05863dbf1e3ac9de,
    0xe1fea520be311aaf, 0x9b26d5e88e0493d6, 0x144e44b0de5a085d, 0x6e963478ee6f8124,
    0x21c640532670ac20, 0x5b1e309b16452559, 0xd476a1c3461bbed2, 0xaeaed10b762e37ab,
    0x37deb6af5e9b8b5b, 0x4d06c6676eae0222, 0xc26e573f3ef099a9, 0xb8b627f70ec510d0,
    0xf7e653dcc6da3dd4, 0x8d3e2314f6efb4ad, 0x0256b24ca6b12f26, 0x788ec2849684a65f,
    0x9cf65a1b368f752e, 0xe62e2ad306bafc57, 0x6946bb8b56e467dc, 0x139ecb4366d1eea5,
    0x5ccebf68aecec3a1, 0x2616cfa09efb4ad8, 0xa97e5ef8cea5d153, 0xd3a62e30fe90582a,
    0xb0c7b7e3c7593bd8, 0xca1fc72bf76cb2a1, 0x45775673a732292a, 0x3faf26bb9707a053,
    0x70ff52905f188d57, 0x0a2722586f2d042e, 0x854fb3003f739fa5, 0xff97c3c80f4616dc,
    0x1bef5b57af4dc5ad, 0x61372b9f9f784cd4, 0xee5fbac7cf26d75f, 0x9487ca0fff135e26,
    0xdbd7be24370c7322, 0xa10fceec0739fa5b, 0x2e675fb4576761d0, 0x54bf2f7c6752e8a9,
    0xcdcf48d84fe75459, 0xb71738107fd2dd20, 0x387fa9482f8c46ab, 0x42a7d9801fb9cfd2,
    0x0df7adabd7a6e2d6, 0x772fdd63e7936baf, 0xf8474c3bb7cdf024, 0x829f3cf387f8795d,
    0x66e7a46c27f3aa2c, 0x1c3fd4a417c62355, 0x935745fc4798b8de, 0xe98f353477ad31a7,
    0xa6df411fbfb21ca3, 0xdc0731d78f8795da, 0x536fa08fdfd90e51, 0x29b7d047efec8728
  ]"

definition crc64_update :: "64 word \<Rightarrow> byte \<Rightarrow> 64 word" where
  "crc64_update crc b = crc64_tab ! unat (ucast crc XOR b) XOR drop_bit 8 crc"

definition crc64 :: "64 word \<Rightarrow> byte list \<Rightarrow> 64 word" where
  "crc64 crc s = foldl crc64_update crc s"

section \<open>The bit-serial reference\<close>

text \<open>The polynomial \<open>0xad93d23594c935a9\<close> with its bits reversed.\<close>

definition crc64_poly :: "64 word" where
  "crc64_poly = 0x95ac9329ac4bc9b5"

definition crc64_bit :: "64 word \<Rightarrow> 64 word" where
  "crc64_bit x = (if bit x 0 then drop_bit 1 x XOR crc64_poly else drop_bit 1 x)"

fun crc64_bits :: "nat \<Rightarrow> 64 word \<Rightarrow> 64 word" where
  "crc64_bits 0 x = x"
| "crc64_bits (Suc n) x = crc64_bits n (crc64_bit x)"

definition crc64_ref :: "64 word \<Rightarrow> byte list \<Rightarrow> 64 word" where
  "crc64_ref crc s = foldl (\<lambda>c b. crc64_bits 8 (c XOR ucast b)) crc s"

section \<open>The bit-serial step is linear and injective\<close>

lemma xor_zero_iff: "x XOR y = 0 \<longleftrightarrow> x = (y :: 64 word)"
proof
  assume "x XOR y = 0"
  then have "(x XOR y) XOR y = y" by simp
  then show "x = y" by (simp add: xor.assoc)
qed simp

lemma crc64_bit_xor: "crc64_bit (x XOR y) = crc64_bit x XOR crc64_bit y"
  by (auto simp: crc64_bit_def bit_xor_iff drop_bit_xor ac_simps)

lemma crc64_bits_xor: "crc64_bits n (x XOR y) = crc64_bits n x XOR crc64_bits n y"
  by (induction n arbitrary: x y) (simp_all add: crc64_bit_xor)

lemma crc64_poly_top: "bit crc64_poly 63"
  by (simp add: crc64_poly_def)

lemma crc64_bit_zero: "crc64_bit z = 0 \<longleftrightarrow> z = 0"
proof
  assume z: "crc64_bit z = 0"
  have low: "\<not> bit z 0"
  proof
    assume "bit z 0"
    with z have "bit (drop_bit 1 z) 63 = bit crc64_poly 63"
      by (auto simp: crc64_bit_def xor_zero_iff)
    then have "bit z 64" using crc64_poly_top by (simp add: bit_simps)
    then show False by (auto dest: bit_64_less)
  qed
  with z have "drop_bit 1 z = 0" by (simp add: crc64_bit_def)
  then have high: "\<not> bit z (Suc n)" for n
    using bit_drop_bit_eq[of 1 z] by (simp add: fun_eq_iff)
  show "z = 0"
  proof (rule bit_eqI)
    fix n
    show "bit z n = bit 0 n" using low high by (cases n) auto
  qed
qed (simp add: crc64_bit_def)

lemma crc64_bits_zero: "crc64_bits n z = 0 \<longleftrightarrow> z = 0"
  by (induction n arbitrary: z) (simp_all add: crc64_bit_zero)

lemma crc64_bit_inj: "crc64_bit x = crc64_bit y \<longleftrightarrow> x = y"
  using crc64_bit_zero[of "x XOR y"] by (simp add: crc64_bit_xor xor_zero_iff)

lemma crc64_bits_inj: "crc64_bits n x = crc64_bits n y \<longleftrightarrow> x = y"
  using crc64_bits_zero[of n "x XOR y"] by (simp add: crc64_bits_xor xor_zero_iff)

lemma crc64_bits_add: "crc64_bits (m + n) x = crc64_bits n (crc64_bits m x)"
  by (induction m arbitrary: x) simp_all

lemma crc64_bits_shift:
  "(\<And>i. i < n \<Longrightarrow> \<not> bit x i) \<Longrightarrow> crc64_bits n x = drop_bit n x"
proof (induction n arbitrary: x)
  case 0
  then show ?case by simp
next
  case (Suc n)
  have "crc64_bit x = drop_bit 1 x" using Suc.prems[of 0] by (simp add: crc64_bit_def)
  moreover have "crc64_bits n (drop_bit 1 x) = drop_bit n (drop_bit 1 x)"
    using Suc.prems by (intro Suc.IH) (simp add: bit_drop_bit_eq)
  ultimately show ?case by (simp add: drop_bit_drop_bit)
qed

section \<open>The table is the bit-serial step of each byte\<close>

fun evens :: "'a list \<Rightarrow> 'a list" where
  "evens (x # y # xs) = x # evens xs"
| "evens xs = []"

fun odds :: "'a list \<Rightarrow> 'a list" where
  "odds (x # y # xs) = y # odds xs"
| "odds xs = []"

lemma evens_odds_nth:
  "2 * j + 1 < length xs \<Longrightarrow> evens xs ! j = xs ! (2 * j) \<and> odds xs ! j = xs ! (2 * j + 1)"
proof (induction xs arbitrary: j rule: evens.induct)
  case (1 x y xs)
  then show ?case by (cases j) auto
qed auto

lemma length_evens_odds: "length (evens xs) = length xs div 2" "length (odds xs) = length xs div 2"
  by (induction xs rule: evens.induct) auto

lemma length_crc64_tab: "length crc64_tab = 256"
  by (simp add: crc64_tab_def)

lemma crc64_tab_evens: "map crc64_bit (evens crc64_tab) = take 128 crc64_tab"
  by (simp add: crc64_tab_def crc64_bit_def crc64_poly_def)

lemma crc64_tab_odds: "odds crc64_tab = map (\<lambda>x. x XOR 0x7ad870c830358979) (evens crc64_tab)"
  by (simp add: crc64_tab_def)

lemma crc64_bits_8:
  "crc64_bits 8 x = crc64_bit (crc64_bit (crc64_bit (crc64_bit
     (crc64_bit (crc64_bit (crc64_bit (crc64_bit x)))))))"
  by (simp add: numeral_eq_Suc)

lemma crc64_bits_8_one: "crc64_bits 8 1 = 0x7ad870c830358979"
  by (simp add: crc64_bits_8 crc64_bit_def crc64_poly_def)

lemma crc64_tab_even:
  assumes "j < 128"
  shows "crc64_bit (crc64_tab ! (2 * j)) = crc64_tab ! j"
proof -
  have "crc64_bit (evens crc64_tab ! j) = take 128 crc64_tab ! j"
    using assms by (simp flip: crc64_tab_evens add: length_evens_odds length_crc64_tab)
  then show ?thesis
    using assms evens_odds_nth[of j crc64_tab] by (simp add: length_crc64_tab)
qed

lemma crc64_tab_odd:
  assumes "j < 128"
  shows "crc64_tab ! (2 * j + 1) = crc64_tab ! (2 * j) XOR crc64_bits 8 1"
proof -
  have "odds crc64_tab ! j = evens crc64_tab ! j XOR crc64_bits 8 1"
    using assms by (simp add: crc64_tab_odds length_evens_odds length_crc64_tab crc64_bits_8_one)
  then show ?thesis
    using assms evens_odds_nth[of j crc64_tab] by (simp add: length_crc64_tab)
qed

lemma crc64_bits_8_double:
  assumes "j < 128"
  shows "crc64_bit (crc64_bits 8 (of_nat (2 * j))) = crc64_bits 8 (of_nat j)"
proof -
  have "crc64_bit (of_nat (2 * j)) = of_nat j"
  proof -
    have "\<not> bit (of_nat (2 * j) :: 64 word) 0" by (simp add: bit_of_nat_iff bit_0)
    moreover have "unat (drop_bit 1 (of_nat (2 * j) :: 64 word)) = unat (of_nat j :: 64 word)"
      using assms unfolding unat_drop_bit_eq unat_of_nat by (simp add: drop_bit_Suc)
    then have "drop_bit 1 (of_nat (2 * j) :: 64 word) = of_nat j"
      by (rule unsigned_word_eqI)
    ultimately show ?thesis by (simp add: crc64_bit_def)
  qed
  then show ?thesis
    using crc64_bits_add[of 8 1 "of_nat (2 * j)"] crc64_bits_add[of 1 8 "of_nat (2 * j)"] by simp
qed

lemma of_nat_odd_xor: "(of_nat (2 * j + 1) :: 64 word) = of_nat (2 * j) XOR 1"
  by (simp add: xor_one_eq)

lemma crc64_tab_nth: "i < 256 \<Longrightarrow> crc64_tab ! i = crc64_bits 8 (of_nat i)"
proof (induction i rule: less_induct)
  case (less i)
  have even_case: "crc64_tab ! (2 * j) = crc64_bits 8 (of_nat (2 * j))"
    if j: "j < 128" and ih: "j = 0 \<or> crc64_tab ! j = crc64_bits 8 (of_nat j)" for j
  proof (cases "j = 0")
    case True
    then show ?thesis by (simp add: crc64_tab_def crc64_bits_zero)
  next
    case False
    with ih have "crc64_tab ! j = crc64_bits 8 (of_nat j)" by blast
    with j have "crc64_bit (crc64_tab ! (2 * j)) = crc64_bit (crc64_bits 8 (of_nat (2 * j)))"
      by (simp only: crc64_tab_even crc64_bits_8_double)
    then show ?thesis by (simp only: crc64_bit_inj)
  qed
  show ?case
  proof (cases "even i")
    case True
    then obtain j where "i = 2 * j" by (elim evenE)
    with less even_case[of j] show ?thesis by (cases "j = 0") auto
  next
    case False
    then obtain j where i: "i = 2 * j + 1" by (elim oddE)
    with less.prems have j: "j < 128" by simp
    have "j = 0 \<or> crc64_tab ! j = crc64_bits 8 (of_nat j)" using less.IH[of j] i less.prems by auto
    then have "crc64_tab ! (2 * j) = crc64_bits 8 (of_nat (2 * j))" by (rule even_case[OF j])
    then show ?thesis
      unfolding i of_nat_odd_xor crc64_bits_xor using j by (simp only: crc64_tab_odd)
  qed
qed

text \<open>One byte of the loop is eight bit-serial steps of the state with the byte added in.\<close>

lemma crc64_update_bits: "crc64_update c b = crc64_bits 8 (c XOR ucast b)"
proof -
  let ?x = "c XOR ucast b"
  let ?hi = "?x XOR take_bit 8 ?x"
  have low: "take_bit 8 ?x = ucast (ucast c XOR b)"
    by (rule bit_eqI) (auto simp: bit_simps dest: bit_byte_less)
  have hi: "drop_bit 8 ?hi = drop_bit 8 c"
    by (rule bit_eqI) (auto simp: bit_simps dest: bit_byte_less)
  have "crc64_bits 8 ?hi = drop_bit 8 ?hi"
    by (rule crc64_bits_shift) (simp add: bit_simps)
  moreover have "crc64_tab ! unat (ucast c XOR b) = crc64_bits 8 (take_bit 8 ?x)"
    unfolding low using crc64_tab_nth[OF unat_byte_less, of "ucast c XOR b"] by simp
  moreover have "?x = take_bit 8 ?x XOR ?hi" by (simp add: xor.left_commute)
  then have "crc64_bits 8 ?x = crc64_bits 8 (take_bit 8 ?x) XOR crc64_bits 8 ?hi"
    by (metis crc64_bits_xor)
  ultimately show ?thesis by (simp only: crc64_update_def hi)
qed

section \<open>Bursts\<close>

lemma crc64_Nil [simp]: "crc64 c [] = c"
  and crc64_Cons: "crc64 c (b # s) = crc64 (crc64_update c b) s"
  and crc64_append: "crc64 c (s @ t) = crc64 (crc64 c s) t"
  by (simp_all add: crc64_def)

lemma crc64_update_inj: "crc64_update c b = crc64_update d b \<longleftrightarrow> c = d"
proof
  assume "crc64_update c b = crc64_update d b"
  then have "c XOR ucast b = d XOR ucast b" by (simp add: crc64_update_bits crc64_bits_inj)
  then have "(c XOR ucast b) XOR ucast b = (d XOR ucast b) XOR ucast b" by simp
  then show "c = d" by (simp add: xor.assoc)
qed simp

lemma crc64_state_inj: "crc64 c s = crc64 d s \<longleftrightarrow> c = d"
  by (induction s arbitrary: c d) (simp_all add: crc64_Cons crc64_update_inj)

text \<open>The word made of at most eight bytes, the first one lowest.\<close>

fun le_word :: "byte list \<Rightarrow> 64 word" where
  "le_word [] = 0"
| "le_word (b # bs) = ucast b XOR push_bit 8 (le_word bs)"

lemma bit_le_word: "bit (le_word bs) i \<Longrightarrow> i < 8 * length bs"
proof (induction bs arbitrary: i)
  case (Cons b bs)
  then have "bit (ucast b :: 64 word) i \<or> bit (push_bit 8 (le_word bs)) i"
    by (auto simp: bit_xor_iff)
  then show ?case
  proof
    assume "bit (ucast b :: 64 word) i"
    then have "bit b i" by (simp add: bit_simps)
    then have "i < 8" by (rule bit_byte_less)
    then show ?thesis by simp
  next
    assume "bit (push_bit 8 (le_word bs)) i"
    then have "8 \<le> i" "bit (le_word bs) (i - 8)" by (auto simp: bit_simps)
    with Cons.IH[of "i - 8"] show ?thesis by simp
  qed
qed simp

lemma drop_bit_le_word: "length bs < 8 \<Longrightarrow> drop_bit 8 (push_bit 8 (le_word bs)) = le_word bs"
  using bit_le_word[of bs] by (intro bit_eqI) (fastforce simp: bit_simps)

lemma crc64_le_word: "length s \<le> 8 \<Longrightarrow> crc64 c s = crc64_bits (8 * length s) (c XOR le_word s)"
proof (induction s arbitrary: c)
  case (Cons b s)
  have "crc64_bits 8 (push_bit 8 (le_word s)) = le_word s"
    using Cons.prems by (simp add: crc64_bits_shift drop_bit_le_word bit_simps)
  then have "crc64_bits 8 (c XOR le_word (b # s)) = crc64_update c b XOR le_word s"
    by (simp add: crc64_update_bits flip: crc64_bits_xor xor.assoc)
       (simp add: crc64_bits_xor)
  with Cons show ?case
    using crc64_bits_add[of 8 "8 * length s" "c XOR le_word (b # s)"] by (simp add: crc64_Cons)
qed simp

lemma le_word_inj: "length s = length t \<Longrightarrow> length s \<le> 8 \<Longrightarrow> le_word s = le_word t \<Longrightarrow> s = t"
proof (induction s t rule: list_induct2)
  case (Cons b s c t)
  have "ucast (le_word (b # s)) = b" "ucast (le_word (c # t)) = c"
    by (auto intro!: bit_eqI simp: bit_simps)
  moreover have "drop_bit 8 (le_word (b # s)) = le_word s" "drop_bit 8 (le_word (c # t)) = le_word t"
    using Cons.prems(1) Cons.hyps drop_bit_le_word[of s] drop_bit_le_word[of t]
    by (auto simp: drop_bit_xor bit_simps intro!: bit_eqI dest: bit_byte_less)
  ultimately have "b = c" "le_word s = le_word t" using Cons.prems(2) by metis+
  with Cons show ?case by simp
qed simp

lemma crc64_window_inj:
  "length s = length t \<Longrightarrow> length s \<le> 8 \<Longrightarrow> crc64 c s = crc64 c t \<longleftrightarrow> s = t"
proof
  assume len: "length s = length t" "length s \<le> 8" and eq: "crc64 c s = crc64 c t"
  then have "c XOR le_word s = c XOR le_word t" by (simp add: crc64_le_word crc64_bits_inj)
  then have "c XOR (c XOR le_word s) = c XOR (c XOR le_word t)" by simp
  then have "le_word s = le_word t" by (simp flip: xor.assoc)
  then show "s = t" using len le_word_inj by blast
qed simp

section \<open>Evaluating the checksum\<close>

lemma crc64_serial: "crc64 c s = crc64_ref c s"
  unfolding crc64_def crc64_ref_def by (simp add: crc64_update_bits fun_eq_iff cong: foldl_cong)

lemma crc64_ref_simps [simp]:
  "crc64_ref c [] = c" "crc64_ref c (b # s) = crc64_ref (crc64_bits 8 (c XOR ucast b)) s"
  by (simp_all add: crc64_ref_def)

lemmas crc64_eval = crc64_serial crc64_bits_8 crc64_bit_def crc64_poly_def

lemma crc64_burst_neq:
  assumes "length w = length w'" "length w \<le> 8" "w \<noteq> w'"
  shows "crc64 c (pre @ w @ post) \<noteq> crc64 c (pre @ w' @ post)"
  using crc64_window_inj[OF assms(1,2)] assms(3) by (simp add: crc64_append crc64_state_inj)

section \<open>Properties\<close>

text \<open>C24: the table-driven loop computes the bit-serial CRC of the polynomial
  \<open>0xad93d23594c935a9\<close> (reflected), for every message and every initial value, and it
  yields the check value the header of the source file gives for \<open>123456789\<close>.\<close>

theorem crc64_is_bit_serial:
  "crc64 c s = crc64_ref c s \<and> crc64 0 (lit ''123456789'') = 0xe9c6d914c4b8d9ca"
  by (rule conjI, rule crc64_serial) (simp add: lit_def crc64_eval)

text \<open>C25: two messages of one length that differ only inside a window of at most eight bytes
  have different checksums, so a corruption confined to such a window is always detected.\<close>

theorem crc64_detects_bursts:
  assumes "length w = length w'" "length w \<le> 8" "w \<noteq> w'"
  shows "crc64 c (pre @ w @ post) \<noteq> crc64 c (pre @ w' @ post)"
  using assms by (rule crc64_burst_neq)

theorem crc64_detects_bursts_witness:
  "crc64 0 ([1] @ [2, 3] @ [4]) \<noteq> crc64 0 ([1] @ [2, 7] @ [4])"
  by (rule crc64_detects_bursts) simp_all

end
