(* ===== verification/Util.thy ===== *)
theory Util
  imports Prelude
begin

text \<open>
  The helpers of \<open>util.c\<close>: the loops that hide short and interrupted transfers, the
  clock readings and the rate limiter of the periodic tasks.

  The outcomes of the system calls a loop makes are a list it consumes, one per call; a
  list that has ended stands for calls that transfer everything they are asked to. Every
  execution of the loop that ends is one such list.
\<close>

section \<open>Outcomes of system calls\<close>

text \<open>Interrupted (\<open>EINTR\<close>), failed with another error, or a transfer of so many bytes.\<close>

datatype sys = SysIntr | SysErr | SysN nat

section \<open>\<open>read_exact\<close> and \<open>write_all\<close>\<close>

text \<open>
  \<open>read_exact\<close> on a descriptor with \<open>data\<close> left to read: the bytes read so far are
  \<open>acc\<close>. A \<open>read\<close> delivers at least one byte unless the data is at its end. The result is
  \<open>None\<close> for \<open>-1\<close> and otherwise the bytes stored in the buffer, with the data and the
  outcomes that are left.
\<close>

fun read_exact_loop ::
    "sys list \<Rightarrow> byte list \<Rightarrow> nat \<Rightarrow> byte list \<Rightarrow> byte list option \<times> byte list \<times> sys list" where
  "read_exact_loop [] data len acc =
     (Some (acc @ take (len - length acc) data), drop (len - length acc) data, [])"
| "read_exact_loop (r # rs) data len acc =
     (if len \<le> length acc then (Some acc, data, r # rs)
      else case r of
        SysIntr \<Rightarrow> read_exact_loop rs data len acc
      | SysErr \<Rightarrow> (None, data, rs)
      | SysN k \<Rightarrow>
          if data = [] then (Some acc, data, rs)
          else
            (let n = min (max 1 k) (len - length acc) in
             read_exact_loop rs (drop n data) len (acc @ take n data)))"

definition read_exact ::
    "sys list \<Rightarrow> byte list \<Rightarrow> nat \<Rightarrow> byte list option \<times> byte list \<times> sys list" where
  "read_exact rs data len = read_exact_loop rs data len []"

text \<open>
  \<open>write_all\<close>: whether it succeeded, the bytes that reached the file and the outcomes
  that are left. A call that fails leaves the bytes written before it in the file.
\<close>

fun write_all_loop ::
    "sys list \<Rightarrow> byte list \<Rightarrow> byte list \<Rightarrow> bool \<times> byte list \<times> sys list" where
  "write_all_loop [] buf sent = (True, sent @ buf, [])"
| "write_all_loop (r # rs) buf sent =
     (if buf = [] then (True, sent, r # rs)
      else case r of
        SysIntr \<Rightarrow> write_all_loop rs buf sent
      | SysErr \<Rightarrow> (False, sent, rs)
      | SysN k \<Rightarrow> write_all_loop rs (drop k buf) (sent @ take k buf))"

definition write_all :: "sys list \<Rightarrow> byte list \<Rightarrow> bool \<times> byte list \<times> sys list" where
  "write_all rs buf = write_all_loop rs buf []"

section \<open>Clocks\<close>

text \<open>\<open>now_ms\<close> and \<open>realtime_ms\<close> of a \<open>timespec\<close> with \<open>tv_sec\<close> and \<open>tv_nsec\<close>.\<close>

definition now_ms :: "int \<Rightarrow> int \<Rightarrow> int" where
  "now_ms tv_sec tv_nsec = wrap64 (tv_sec * 1000 + tv_nsec sdiv 1000000)"

definition realtime_ms :: "int \<Rightarrow> int \<Rightarrow> int" where
  "realtime_ms tv_sec tv_nsec = wrap64 (tv_sec * 1000 + tv_nsec sdiv 1000000)"

text \<open>The new value of \<open>*last_ms\<close> and whether the task fires.\<close>

definition run_every_ms :: "int \<Rightarrow> int \<Rightarrow> int \<Rightarrow> int \<times> bool" where
  "run_every_ms last_ms now interval_ms =
     (if wrap64 (now - last_ms) < interval_ms then (last_ms, False) else (now, True))"

section \<open>Lemmas\<close>

lemma take_drop_split:
  assumes "n \<le> m"
  shows "take n xs @ take (m - length (take n xs)) (drop n xs) = take m xs"
    and "drop (m - length (take n xs)) (drop n xs) = drop m xs"
proof -
  show "take n xs @ take (m - length (take n xs)) (drop n xs) = take m xs"
  proof (cases "n \<le> length xs")
    case True
    then show ?thesis using take_add[of n "m - n" xs] assms by simp
  qed (use assms in simp)
  show "drop (m - length (take n xs)) (drop n xs) = drop m xs"
    using assms by (cases "n \<le> length xs") auto
qed

lemma read_exact_loop_ok:
  "SysErr \<notin> set rs \<Longrightarrow> length acc \<le> len \<Longrightarrow>
   \<exists>rs'. read_exact_loop rs data len acc =
     (Some (acc @ take (len - length acc) data), drop (len - length acc) data, rs') \<and>
     set rs' \<subseteq> set rs"
proof (induction rs data len acc rule: read_exact_loop.induct)
  case (1 data len acc)
  then show ?case by simp
next
  case (2 r rs data len acc)
  show ?case
  proof (cases "len \<le> length acc")
    case True
    then show ?thesis by simp
  next
    case more: False
    show ?thesis
    proof (cases r)
      case SysIntr
      then have step: "read_exact_loop (r # rs) data len acc = read_exact_loop rs data len acc"
        using more by simp
      obtain rs' where "read_exact_loop rs data len acc =
          (Some (acc @ take (len - length acc) data), drop (len - length acc) data, rs')"
        "set rs' \<subseteq> set rs"
        using "2.IH"(1)[OF more SysIntr] "2.prems" by (meson list.set_intros(2))
      with step show ?thesis by (intro exI[of _ rs']) auto
    next
      case SysErr
      with "2.prems" show ?thesis by simp
    next
      case (SysN k)
      show ?thesis
      proof (cases "data = []")
        case True
        with SysN more show ?thesis by auto
      next
        case False
        define n where "n = min (max 1 k) (len - length acc)"
        let ?acc = "acc @ take n data"
        have n: "n \<le> len - length acc" by (simp add: n_def)
        have step: "read_exact_loop (r # rs) data len acc = read_exact_loop rs (drop n data) len ?acc"
          using more False SysN by (simp add: Let_def n_def)
        have "length ?acc \<le> len" using more n by simp
        moreover have "SysErr \<notin> set rs" using "2.prems"(1) by simp
        ultimately obtain rs' where rs': "read_exact_loop rs (drop n data) len ?acc =
            (Some (?acc @ take (len - length ?acc) (drop n data)),
             drop (len - length ?acc) (drop n data), rs')" "set rs' \<subseteq> set rs"
          using "2.IH"(2)[OF more SysN False n_def] by blast
        have "len - length ?acc = len - length acc - length (take n data)"
          by (simp only: length_append diff_diff_left)
        then have "?acc @ take (len - length ?acc) (drop n data) = acc @ take (len - length acc) data"
          "drop (len - length ?acc) (drop n data) = drop (len - length acc) data"
          using take_drop_split[OF n, of data] by (simp_all only: append_assoc)
        with step rs' show ?thesis by (intro exI[of _ rs']) auto
      qed
    qed
  qed
qed

text \<open>Short and interrupted reads are not visible: without a failing call the loop stores the
  next \<open>len\<close> bytes, or all that is left.\<close>

lemma read_exact_ok:
  "SysErr \<notin> set rs \<Longrightarrow>
   \<exists>rs'. read_exact rs data len = (Some (take len data), drop len data, rs') \<and> SysErr \<notin> set rs'"
  using read_exact_loop_ok[of rs "[]" len data] by (auto simp: read_exact_def)

text \<open>Whatever the calls do, the bytes delivered are those the descriptor moved over.\<close>

lemma read_exact_loop_split:
  "read_exact_loop rs data len acc = (res, data', rs') \<Longrightarrow>
   \<exists>pre. data = pre @ data' \<and> (\<forall>bs. res = Some bs \<longrightarrow> bs = acc @ pre)"
proof (induction rs data len acc rule: read_exact_loop.induct)
  case (1 data len acc)
  then show ?case by (intro exI[of _ "take (len - length acc) data"]) auto
next
  case (2 r rs data len acc)
  show ?case
  proof (cases "len \<le> length acc \<or> data = [] \<and> (\<exists>k. r = SysN k) \<or> r = SysErr")
    case True
    with "2.prems" show ?thesis by (auto split: if_splits)
  next
    case more: False
    show ?thesis
    proof (cases r)
      case (SysN k)
      define n where "n = min (max 1 k) (len - length acc)"
      have "read_exact_loop rs (drop n data) len (acc @ take n data) = (res, data', rs')"
        using "2.prems" more SysN by (simp add: Let_def n_def)
      with "2.IH"(2)[OF _ SysN _ n_def] more SysN obtain pre
        where "drop n data = pre @ data'" "\<forall>bs. res = Some bs \<longrightarrow> bs = (acc @ take n data) @ pre"
        by auto
      then show ?thesis by (metis append_assoc append_take_drop_id)
    qed (use 2 more in auto)
  qed
qed

lemma read_exact_split:
  "read_exact rs data len = (r, data', rs') \<Longrightarrow>
   \<exists>pre. data = pre @ data' \<and> (\<forall>bs. r = Some bs \<longrightarrow> bs = pre)"
  using read_exact_loop_split[of rs data len "[]"] by (simp add: read_exact_def)

lemma write_all_loop_ok:
  "SysErr \<notin> set rs \<Longrightarrow>
   \<exists>rs'. write_all_loop rs buf d = (True, d @ buf, rs') \<and> set rs' \<subseteq> set rs"
proof (induction rs buf d rule: write_all_loop.induct)
  case (2 r rs buf d)
  show ?case
  proof (cases "buf = []")
    case True
    then show ?thesis by simp
  next
    case buf: False
    show ?thesis
    proof (cases r)
      case SysIntr
      with 2 buf show ?thesis by auto
    next
      case (SysN k)
      with "2.IH"(2)[OF buf SysN] "2.prems" buf show ?thesis by auto
    qed (use "2.prems" in simp)
  qed
qed simp

lemma write_all_ok:
  "SysErr \<notin> set rs \<Longrightarrow> \<exists>rs'. write_all rs buf = (True, buf, rs') \<and> SysErr \<notin> set rs'"
  using write_all_loop_ok[of rs buf "[]"] by (auto simp: write_all_def)

text \<open>A write that fails leaves a proper prefix of the buffer in the file.\<close>

lemma write_all_loop_prefix:
  "write_all_loop rs buf d = (ok, w, rs') \<Longrightarrow>
   \<exists>p q. w = d @ p \<and> buf = p @ q \<and> (ok \<longleftrightarrow> q = [])"
proof (induction rs buf d rule: write_all_loop.induct)
  case (2 r rs buf d)
  show ?case
  proof (cases "buf = []")
    case True
    with 2 show ?thesis by auto
  next
    case buf: False
    show ?thesis
    proof (cases r)
      case (SysN k)
      with 2 buf obtain p q where "w = (d @ take k buf) @ p" "drop k buf = p @ q" "ok \<longleftrightarrow> q = []"
        by auto
      then show ?thesis
        by (metis append_assoc append_take_drop_id)
    qed (use 2 buf in auto)
  qed
qed simp

lemma write_all_prefix:
  "write_all rs buf = (ok, w, rs') \<Longrightarrow> \<exists>q. buf = w @ q \<and> (ok \<longleftrightarrow> q = [])"
  using write_all_loop_prefix[of rs buf "[]" ok w rs'] by (auto simp: write_all_def)

end
