(* ===== verification/Framing.thy ===== *)
theory Framing
  imports Prelude "HOL-Library.Sublist"
begin

text \<open>
  Self-delimiting messages on a byte stream: the interface between a format (the records
  of the append-only file, the frames of the wire protocol) and the loop that takes
  messages off the front of what has arrived. A reader that sees a whole message gets it
  together with the bytes behind it; one that sees only a part of a message gets nothing.
\<close>

locale framing =
  fixes valid :: "'m \<Rightarrow> bool"
    and enc :: "'m \<Rightarrow> byte list"
    and take_msg :: "byte list \<Rightarrow> ('m \<times> byte list) option"
  assumes take_enc: "valid m \<Longrightarrow> take_msg (enc m @ rest) = Some (m, rest)"
    and take_torn: "valid m \<Longrightarrow> strict_prefix torn (enc m) \<Longrightarrow> take_msg torn = None"
begin

fun take_all :: "nat \<Rightarrow> byte list \<Rightarrow> 'm list \<times> byte list" where
  "take_all 0 bs = ([], bs)"
| "take_all (Suc n) bs =
     (case take_msg bs of
        None \<Rightarrow> ([], bs)
      | Some (m, rest) \<Rightarrow> (let (ms, left) = take_all n rest in (m # ms, left)))"

text \<open>A stream of whole messages with a torn one behind them is taken apart exactly there.\<close>

lemma take_all_stream:
  assumes "\<forall>m \<in> set ms. valid m" and "take_msg torn = None" and "length ms \<le> n"
  shows "take_all n (concat (map enc ms) @ torn) = (ms, torn)"
  using assms
proof (induction ms arbitrary: n)
  case Nil
  then show ?case by (cases n) simp_all
next
  case (Cons m ms)
  then obtain k where k: "n = Suc k" "length ms \<le> k" by (cases n) auto
  with Cons.prems Cons.IH[of k] show ?case by (simp add: take_enc)
qed

lemma enc_inj_stream:
  assumes "\<forall>m \<in> set ms. valid m" "\<forall>m \<in> set ms'. valid m" and nil: "take_msg [] = None"
    and "concat (map enc ms) = concat (map enc ms')"
  shows "ms = ms'"
proof -
  have "take_all (length ms + length ms') (concat (map enc ms) @ []) = (ms, [])"
    "take_all (length ms + length ms') (concat (map enc ms') @ []) = (ms', [])"
    using assms(1,2) nil by (intro take_all_stream; simp)+
  with assms(4) show ?thesis by simp
qed

end

end
