(* ===== verification/Store_Interfaces.thy ===== *)
theory Store_Interfaces
  imports Prelude
begin

text \<open>
  The interfaces between the storage components, as locales: what a client may rely on,
  with the lemmas that follow from those promises alone.
  \<open>key_table\<close> is what \<open>db.c\<close> relies on of \<open>ht.c\<close>; \<open>kv_store\<close>
  is what the command handlers and the replay of the append-only file rely on of \<open>db.c\<close>,
  stated against an abstract store, a map from keys to a value and an optional deadline.
\<close>

section \<open>Tables from keys to values\<close>

text \<open>
  Stores take the outcome of the allocation a new key needs and return the status the C
  function returns; a failed operation leaves the table as it was.
\<close>

locale key_table =
  fixes inv :: "'t \<Rightarrow> bool"
    and lookup :: "'t \<Rightarrow> cstr \<Rightarrow> 'v option"
    and store :: "bool \<Rightarrow> 't \<Rightarrow> cstr \<Rightarrow> 'v \<Rightarrow> 't \<times> int"
    and delete :: "'t \<Rightarrow> cstr \<Rightarrow> 't \<times> int"
    and entries :: "'t \<Rightarrow> nat"
  assumes finite_lookup: "inv t \<Longrightarrow> finite (dom (lookup t))"
    and entries_card: "inv t \<Longrightarrow> entries t = card (dom (lookup t))"
    and store_inv: "inv t \<Longrightarrow> ok \<or> lookup t k \<noteq> None \<Longrightarrow> inv (fst (store ok t k v))"
    and store_status: "inv t \<Longrightarrow> ok \<or> lookup t k \<noteq> None \<Longrightarrow> snd (store ok t k v) = EXIT_SUCCESS"
    and store_lookup: "inv t \<Longrightarrow> ok \<or> lookup t k \<noteq> None \<Longrightarrow>
           lookup (fst (store ok t k v)) = (lookup t)(k \<mapsto> v)"
    and store_fail: "inv t \<Longrightarrow> lookup t k = None \<Longrightarrow> store False t k v = (t, EXIT_FAILURE)"
    and delete_inv: "inv t \<Longrightarrow> lookup t k \<noteq> None \<Longrightarrow> inv (fst (delete t k))"
    and delete_status: "inv t \<Longrightarrow> lookup t k \<noteq> None \<Longrightarrow> snd (delete t k) = EXIT_SUCCESS"
    and delete_lookup: "inv t \<Longrightarrow> lookup t k \<noteq> None \<Longrightarrow>
           lookup (fst (delete t k)) = (lookup t)(k := None)"
    and delete_fail: "inv t \<Longrightarrow> lookup t k = None \<Longrightarrow> delete t k = (t, EXIT_FAILURE)"
begin

text \<open>The same laws without a case split on whether the operation succeeds.\<close>

lemma store_any_inv: "inv t \<Longrightarrow> inv (fst (store ok t k v))"
  by (cases ok; cases "lookup t k") (auto simp: store_fail store_inv)

lemma store_any_status:
  "inv t \<Longrightarrow> snd (store ok t k v) = (if ok \<or> lookup t k \<noteq> None then EXIT_SUCCESS else EXIT_FAILURE)"
  by (cases ok) (auto simp: store_fail store_status)

lemma store_any_lookup:
  "inv t \<Longrightarrow> lookup (fst (store ok t k v)) =
     (if ok \<or> lookup t k \<noteq> None then (lookup t)(k \<mapsto> v) else lookup t)"
  by (cases ok) (auto simp: store_fail store_lookup)

lemma delete_any_inv: "inv t \<Longrightarrow> inv (fst (delete t k))"
  by (cases "lookup t k") (auto simp: delete_fail delete_inv)

lemma delete_any_status:
  "inv t \<Longrightarrow> snd (delete t k) = (if lookup t k = None then EXIT_FAILURE else EXIT_SUCCESS)"
  by (auto simp: delete_fail delete_status)

lemma delete_any_lookup: "inv t \<Longrightarrow> lookup (fst (delete t k)) = (lookup t)(k := None)"
  by (cases "lookup t k") (auto simp: delete_fail delete_lookup fun_eq_iff)

lemma entries_store:
  assumes "inv t"
  shows "entries (fst (store True t k v)) = (if lookup t k = None then Suc (entries t) else entries t)"
  using assms finite_lookup[OF assms] store_inv[OF assms, of True k v]
  by (auto simp: entries_card store_lookup card_insert_if domIff insert_absorb)

lemma entries_delete:
  assumes "inv t"
  shows "entries (fst (delete t k)) = (if lookup t k = None then entries t else entries t - 1)"
  using assms finite_lookup[OF assms] delete_inv[OF assms, of k]
  by (auto simp: entries_card delete_lookup delete_fail domIff)

lemma delete_after_store:
  "inv t \<Longrightarrow> lookup t k = None \<Longrightarrow> lookup (fst (delete (fst (store True t k v)) k)) = lookup t"
  by (auto simp: delete_any_lookup store_any_inv store_any_lookup fun_eq_iff)

end

section \<open>The abstract store\<close>

type_synonym kv = "cstr \<Rightarrow> (cstr \<times> int option) option"

text \<open>The five mutations, one per opcode of the append-only file.\<close>

datatype kv_op =
    KSet cstr cstr
  | KDel cstr
  | KSetex cstr cstr int
  | KExpire cstr int
  | KPersist cstr

definition kv_deadline :: "kv \<Rightarrow> cstr \<Rightarrow> int option" where
  "kv_deadline m k = (case m k of None \<Rightarrow> None | Some (v, t) \<Rightarrow> t)"

text \<open>
  One mutation; \<open>None\<close> when it is refused. A plain set keeps the deadline the key has, and
  so does a set with a deadline that is not positive.
\<close>

fun kv_apply :: "kv_op \<Rightarrow> kv \<Rightarrow> kv option" where
  "kv_apply (KSet k v) m = Some (m(k \<mapsto> (v, kv_deadline m k)))"
| "kv_apply (KDel k) m = (if m k = None then None else Some (m(k := None)))"
| "kv_apply (KSetex k v t) m =
     Some (m(k \<mapsto> (v, if 0 < t then Some t else kv_deadline m k)))"
| "kv_apply (KExpire k t) m =
     (case m k of
        None \<Rightarrow> None
      | Some (v, _) \<Rightarrow> if t \<le> 0 then None else Some (m(k \<mapsto> (v, Some t))))"
| "kv_apply (KPersist k) m =
     (case m k of Some (v, Some _) \<Rightarrow> Some (m(k \<mapsto> (v, None))) | _ \<Rightarrow> None)"

fun kv_apply_all :: "kv_op list \<Rightarrow> kv \<Rightarrow> kv option" where
  "kv_apply_all [] m = Some m"
| "kv_apply_all (p # ps) m =
     (case kv_apply p m of None \<Rightarrow> None | Some m' \<Rightarrow> kv_apply_all ps m')"

text \<open>What a reader sees at time \<open>now\<close>: a key whose deadline has passed is not there.\<close>

definition kv_live :: "int \<Rightarrow> kv \<Rightarrow> kv" where
  "kv_live now m k =
     (case m k of
        Some (v, Some t) \<Rightarrow> if t < now then None else Some (v, Some t)
      | x \<Rightarrow> x)"

lemma kv_apply_all_append:
  "kv_apply_all (ps @ qs) m = Option.bind (kv_apply_all ps m) (kv_apply_all qs)"
  by (induction ps arbitrary: m) (auto split: option.split)

lemma kv_live_later:
  "now \<le> now' \<Longrightarrow> kv_live now' (kv_live now m) = kv_live now' m"
  by (auto simp: kv_live_def fun_eq_iff split: option.split prod.split)

text \<open>Removing a key that has expired is not visible then or later.\<close>

lemma kv_live_drop_expired:
  assumes "kv_deadline m k = Some t" "t < now" "now \<le> now'"
  shows "kv_live now' (m(k := None)) = kv_live now' m"
  using assms by (auto simp: kv_live_def kv_deadline_def fun_eq_iff split: option.splits prod.splits)

section \<open>Stores that implement it\<close>

locale kv_store =
  fixes inv :: "'s \<Rightarrow> bool"
    and abst :: "'s \<Rightarrow> kv"
    and run :: "kv_op \<Rightarrow> 's \<Rightarrow> 's \<times> int"
  assumes run_inv: "inv s \<Longrightarrow> inv (fst (run p s))"
    and run_ok: "inv s \<Longrightarrow> kv_apply p (abst s) = Some m \<Longrightarrow>
           abst (fst (run p s)) = m \<and> snd (run p s) = EXIT_SUCCESS"
    and run_refused: "inv s \<Longrightarrow> kv_apply p (abst s) = None \<Longrightarrow>
           abst (fst (run p s)) = abst s \<and> snd (run p s) = EXIT_FAILURE"
begin

text \<open>Running a list of mutations up to the first one that is refused.\<close>

fun run_all :: "kv_op list \<Rightarrow> 's \<Rightarrow> 's \<times> kv_op list" where
  "run_all [] s = (s, [])"
| "run_all (p # ps) s =
     (case run p s of (s', r) \<Rightarrow> if r = EXIT_FAILURE then (s', p # ps) else run_all ps s')"

lemma run_all_inv: "inv s \<Longrightarrow> inv (fst (run_all ps s))"
proof (induction ps arbitrary: s)
  case (Cons p ps)
  then show ?case using run_inv[of s p] by (auto split: prod.split)
qed simp

lemma run_all_ok:
  "inv s \<Longrightarrow> kv_apply_all ps (abst s) = Some m \<Longrightarrow> abst (fst (run_all ps s)) = m \<and> snd (run_all ps s) = []"
proof (induction ps arbitrary: s)
  case Nil
  then show ?case by simp
next
  case (Cons p ps)
  then obtain m' where m': "kv_apply p (abst s) = Some m'" "kv_apply_all ps m' = Some m"
    by (auto split: option.splits)
  obtain s' r where run: "run p s = (s', r)" by (cases "run p s")
  have "abst s' = m'" "r = EXIT_SUCCESS" "inv s'"
    using run_ok[OF Cons.prems(1) m'(1)] run_inv[OF Cons.prems(1), of p] run by auto
  with Cons.IH[of s'] m'(2) run show ?case by simp
qed

text \<open>The statuses say exactly whether the abstract store accepts the mutation.\<close>

lemma run_status: "inv s \<Longrightarrow> snd (run p s) = EXIT_SUCCESS \<longleftrightarrow> kv_apply p (abst s) \<noteq> None"
  using run_ok[of s p] run_refused[of s p] by (cases "kv_apply p (abst s)") auto

end

end
