(* ===== verification/Aof_Format.thy ===== *)
theory Aof_Format
  imports Crc64 Util Framing Store_Interfaces
begin

text \<open>
  The on-disk format of the append-only file (\<open>aof.h\<close>, and \<open>aof_serialize\<close>,
  \<open>aof_write_file_header\<close> and \<open>aof_read_file_header\<close> of \<open>aof.c\<close>): a file header of 32
  bytes and records of a 12-byte header and a body, every integer big-endian, with a
  CRC64 over each.
\<close>

section \<open>Constants\<close>

definition MSG_MAX :: nat where "MSG_MAX = 4096"
definition AOF_CRC_SIZE :: nat where "AOF_CRC_SIZE = 8"
definition AOF_BODYLEN_SIZE :: nat where "AOF_BODYLEN_SIZE = 4"
definition AOF_HEADER_SIZE :: nat where "AOF_HEADER_SIZE = AOF_CRC_SIZE + AOF_BODYLEN_SIZE"
definition AOF_BODY_FIXED :: nat where "AOF_BODY_FIXED = 15"
definition AOF_RECORD_MAX :: nat where "AOF_RECORD_MAX = MSG_MAX"
definition AOF_FILE_MAGIC :: "byte list" where "AOF_FILE_MAGIC = lit ''BYTEKVAF''"
definition AOF_FILE_MAGIC_LEN :: nat where "AOF_FILE_MAGIC_LEN = 8"
definition AOF_FILE_VERSION :: nat where "AOF_FILE_VERSION = 1"
definition AOF_FILE_HEADER_SIZE :: nat where "AOF_FILE_HEADER_SIZE = 32"

lemmas aof_sizes =
  MSG_MAX_def AOF_CRC_SIZE_def AOF_BODYLEN_SIZE_def AOF_HEADER_SIZE_def AOF_BODY_FIXED_def
  AOF_RECORD_MAX_def AOF_FILE_MAGIC_LEN_def AOF_FILE_VERSION_def AOF_FILE_HEADER_SIZE_def

datatype aof_opcode_t = AOF_OP_SET | AOF_OP_DEL | AOF_OP_SETEX | AOF_OP_EXPIRE | AOF_OP_PERSIST

fun opcode_val :: "aof_opcode_t \<Rightarrow> nat" where
  "opcode_val AOF_OP_SET = 1"
| "opcode_val AOF_OP_DEL = 2"
| "opcode_val AOF_OP_SETEX = 3"
| "opcode_val AOF_OP_EXPIRE = 4"
| "opcode_val AOF_OP_PERSIST = 5"

section \<open>Records\<close>

text \<open>
  \<open>aof_serialize\<close> into \<open>buf\<close>: \<open>None\<close> for \<open>-1\<close>, otherwise the buffer and the offset
  behind the record. The lengths are those of the two strings.
\<close>

definition aof_serialize ::
    "byte list \<Rightarrow> aof_opcode_t \<Rightarrow> cstr \<Rightarrow> cstr \<Rightarrow> int \<Rightarrow> (byte list \<times> nat) option" where
  "aof_serialize buf op key value expire_at =
     (let off = AOF_HEADER_SIZE;
          buf = put buf off [of_nat (opcode_val op)]; off = off + 1;
          buf = put buf off (be16 (length key)); off = off + 2;
          buf = put buf off (be32 (length value)); off = off + 4;
          buf = put buf off (be64 (word_of_int expire_at)); off = off + 8 in
      if length buf < off + length key + length value then None
      else
        (let buf = put buf off key; off = off + length key;
             buf = put buf off value; off = off + length value;
             body_len = off - AOF_HEADER_SIZE;
             buf = put buf AOF_CRC_SIZE (be32 body_len);
             checksum = be64 (crc64 0 (bytes_at AOF_CRC_SIZE (off - AOF_CRC_SIZE) buf));
             buf = put buf 0 checksum in
         Some (buf, off)))"

text \<open>The bytes of a record, as a function of its fields.\<close>

definition record_body :: "aof_opcode_t \<Rightarrow> cstr \<Rightarrow> cstr \<Rightarrow> int \<Rightarrow> byte list" where
  "record_body op key value expire_at =
     of_nat (opcode_val op) # be16 (length key) @ be32 (length value)
       @ be64 (word_of_int expire_at) @ key @ value"

definition sealed :: "byte list \<Rightarrow> byte list" where
  "sealed body = (let rest = be32 (length body) @ body in be64 (crc64 0 rest) @ rest)"

definition aof_record :: "aof_opcode_t \<Rightarrow> cstr \<Rightarrow> cstr \<Rightarrow> int \<Rightarrow> byte list" where
  "aof_record op key value expire_at = sealed (record_body op key value expire_at)"

section \<open>The file header\<close>

text \<open>The 32 bytes \<open>aof_write_file_header\<close> hands to \<open>write_all\<close> at time \<open>created\<close>.\<close>

definition aof_file_header :: "int \<Rightarrow> byte list" where
  "aof_file_header created =
     (let hdr = AOF_FILE_MAGIC @ be32 AOF_FILE_VERSION @ be32 0 @ be64 (word_of_int created) in
      hdr @ be64 (crc64 0 hdr))"

text \<open>\<open>aof_read_file_header\<close> at the start of \<open>data\<close>: whether it returns 0, with the data
  and the outcomes left for the record loop.\<close>

definition aof_read_file_header :: "sys list \<Rightarrow> byte list \<Rightarrow> bool \<times> byte list \<times> sys list" where
  "aof_read_file_header rs data =
     (case read_exact rs data AOF_FILE_HEADER_SIZE of
        (None, data', rs') \<Rightarrow> (False, data', rs')
      | (Some hdr, data', rs') \<Rightarrow>
          if length hdr \<noteq> AOF_FILE_HEADER_SIZE then (False, data', rs')
          else if bytes_at 0 AOF_FILE_MAGIC_LEN hdr \<noteq> AOF_FILE_MAGIC then (False, data', rs')
          else if be_dec (bytes_at 8 4 hdr) \<noteq> AOF_FILE_VERSION then (False, data', rs')
          else if de64 (bytes_at 24 8 hdr) \<noteq> crc64 0 (bytes_at 0 24 hdr) then (False, data', rs')
          else (True, data', rs'))"

section \<open>Serialisation yields the record\<close>

lemma length_record_body: "length (record_body op key value t) = 15 + length key + length value"
  by (simp add: record_body_def be_simps)

lemma length_sealed: "length (sealed body) = 12 + length body"
  by (simp add: sealed_def Let_def be_simps)

lemma length_aof_record: "length (aof_record op key value t) = 27 + length key + length value"
  by (simp add: aof_record_def length_sealed length_record_body)

lemma length_put_same: "off + length src \<le> length buf \<Longrightarrow> length (put buf off src) = length buf"
  by (rule length_put)

lemma aof_serialize_fits:
  assumes fits: "27 + length key + length value \<le> length buf"
  shows "\<exists>junk. aof_serialize buf op key value t =
           Some (aof_record op key value t @ junk, 27 + length key + length value) \<and>
           length (aof_record op key value t @ junk) = length buf"
proof -
  have "8 \<le> length buf" using fits by simp
  then obtain c t1 where 1: "buf = c @ t1" "length c = 8" "length t1 = length buf - 8"
    by (rule cut_buffer)
  have "4 \<le> length t1" using fits 1(3) by simp
  then obtain bl t2 where 2: "t1 = bl @ t2" "length bl = 4" "length t2 = length t1 - 4"
    by (rule cut_buffer)
  have "1 \<le> length t2" using fits 1(3) 2(3) by simp
  then obtain o1 t3 where 3: "t2 = o1 @ t3" "length o1 = 1" "length t3 = length t2 - 1"
    by (rule cut_buffer)
  have "2 \<le> length t3" using fits 1(3) 2(3) 3(3) by simp
  then obtain kl t4 where 4: "t3 = kl @ t4" "length kl = 2" "length t4 = length t3 - 2"
    by (rule cut_buffer)
  have "4 \<le> length t4" using fits 1(3) 2(3) 3(3) 4(3) by simp
  then obtain vl t5 where 5: "t4 = vl @ t5" "length vl = 4" "length t5 = length t4 - 4"
    by (rule cut_buffer)
  have "8 \<le> length t5" using fits 1(3) 2(3) 3(3) 4(3) 5(3) by simp
  then obtain ex t6 where 6: "t5 = ex @ t6" "length ex = 8" "length t6 = length t5 - 8"
    by (rule cut_buffer)
  have "length key \<le> length t6" using fits 1(3) 2(3) 3(3) 4(3) 5(3) 6(3) by simp
  then obtain k t7 where 7: "t6 = k @ t7" "length k = length key" "length t7 = length t6 - length key"
    by (rule cut_buffer)
  have "length value \<le> length t7" using fits 1(3) 2(3) 3(3) 4(3) 5(3) 6(3) 7(3) by simp
  then obtain v junk where 8: "t7 = v @ junk" "length v = length value" "length junk = length t7 - length value"
    by (rule cut_buffer)
  have buf: "buf = c @ bl @ o1 @ kl @ vl @ ex @ k @ v @ junk" by (simp only: 1(1) 2(1) 3(1) 4(1) 5(1) 6(1) 7(1) 8(1))
  have "aof_serialize buf op key value t =
      Some (aof_record op key value t @ junk, 27 + length key + length value)"
    unfolding buf aof_serialize_def Let_def
    by (simp add: aof_sizes buf_simps be_simps 1(2) 2(2) 3(2) 4(2) 5(2) 6(2) 7(2) 8(2) aof_record_def sealed_def record_body_def Let_def)
  moreover have "length (aof_record op key value t @ junk) = length buf"
    unfolding buf by (simp add: length_aof_record 1(2) 2(2) 3(2) 4(2) 5(2) 6(2) 7(2) 8(2))
  ultimately show ?thesis by blast
qed

lemma aof_serialize_too_big:
  assumes "27 \<le> length buf" "length buf < 27 + length key + length value"
  shows "aof_serialize buf op key value t = None"
  using assms by (simp add: aof_serialize_def Let_def aof_sizes length_put_same be_simps)

end
