(* ===== verification/Ht.thy ===== *)
theory Ht
  imports Store_Interfaces
begin

unbundle bit_operations_syntax

text \<open>
  The hash table of \<open>ht.c\<close> and \<open>ht.h\<close>: djb2 hashing, separate chaining, power-of-two
  sizes, growth at a load factor of 0.75, deletion and the iterator.

  A chain is the list of its entries in the order of the \<open>next\<close> pointers; an entry
  is the pair of its key and its value. The union \<open>ht_val_t\<close> is the type parameter
  \<open>'v\<close>: a table tagged \<open>HT_VAL_STR\<close> is a \<open>cstr ht\<close> and one tagged \<open>HT_VAL_I64\<close> an
  \<open>int ht\<close>, so the code's \<open>assert\<close> on the tag is the HOL type of the operation;
  the tag itself is kept as a field. The allocations whose result the code checks are a
  Boolean argument (\<open>ok\<close>: \<open>malloc\<close> returned a block). The results of \<open>strdup\<close> in
  \<open>ht_upsert\<close>, \<open>ht_set_str\<close> and of \<open>calloc\<close> in \<open>ht_resize\<close> it does not check: the
  program would go on with a null pointer. Here these calls are taken to succeed, so nothing
  below speaks of their failure. Releasing memory is not modelled.
  \<open>char\<close> is signed, as on the platforms the program targets.
\<close>

section \<open>Data\<close>

datatype ht_val_type_t = HT_VAL_STR | HT_VAL_I64

type_synonym 'v ht_entry = "cstr \<times> 'v"

record 'v ht =
  ht_table :: "'v ht_entry list list"
  ht_val_type :: ht_val_type_t
  ht_size :: nat
  ht_sizemask :: nat
  ht_used :: nat

definition HT_INITIAL_SIZE :: nat where
  "HT_INITIAL_SIZE = 4"

definition ht_create :: "ht_val_type_t \<Rightarrow> 'v ht" where
  "ht_create val_type =
     \<lparr>ht_table = replicate HT_INITIAL_SIZE [], ht_val_type = val_type,
      ht_size = HT_INITIAL_SIZE, ht_sizemask = HT_INITIAL_SIZE - 1, ht_used = 0\<rparr>"

section \<open>Hashing and the bucket index\<close>

fun ht_hash_loop :: "64 word \<Rightarrow> cstr \<Rightarrow> 64 word" where
  "ht_hash_loop h [] = h"
| "ht_hash_loop h (c # cs) = ht_hash_loop ((push_bit 5 h + h) + scast c) cs"

definition ht_hash :: "cstr \<Rightarrow> 64 word" where
  "ht_hash key = ht_hash_loop 5381 key"

text \<open>\<open>ht_hash(key) & sizemask\<close>.\<close>

definition ht_index :: "nat \<Rightarrow> cstr \<Rightarrow> nat" where
  "ht_index sizemask key = unat (ht_hash key AND of_nat sizemask)"

section \<open>Walking one chain\<close>

text \<open>The search loop of \<open>ht_find\<close>, \<open>ht_upsert\<close> and \<open>ht_del\<close>.\<close>

fun chain_find :: "'v ht_entry list \<Rightarrow> cstr \<Rightarrow> 'v option" where
  "chain_find [] key = None"
| "chain_find ((k, v) # es) key = (if k = key then Some v else chain_find es key)"

text \<open>Writing the value of the entry that was found.\<close>

fun chain_store :: "'v ht_entry list \<Rightarrow> cstr \<Rightarrow> 'v \<Rightarrow> 'v ht_entry list" where
  "chain_store [] key w = []"
| "chain_store ((k, v) # es) key w =
     (if k = key then (k, w) # es else (k, v) # chain_store es key w)"

text \<open>Unlinking the entry that was found.\<close>

fun chain_unlink :: "'v ht_entry list \<Rightarrow> cstr \<Rightarrow> 'v ht_entry list" where
  "chain_unlink [] key = []"
| "chain_unlink ((k, v) # es) key = (if k = key then es else (k, v) # chain_unlink es key)"

section \<open>Operations\<close>

text \<open>
  \<open>ht_upsert\<close> together with the store through the pointer it returns: \<open>None\<close> when the
  allocation failed, otherwise the table and whether the key was there.
\<close>

definition ht_upsert :: "bool \<Rightarrow> 'v ht \<Rightarrow> cstr \<Rightarrow> 'v \<Rightarrow> ('v ht \<times> bool) option" where
  "ht_upsert ok ht key value =
     (let index = ht_index (ht_sizemask ht) key; chain = ht_table ht ! index in
      if chain_find chain key \<noteq> None
      then Some (ht\<lparr>ht_table := (ht_table ht)[index := chain_store chain key value]\<rparr>, True)
      else if \<not> ok then None
      else Some (ht\<lparr>ht_table := (ht_table ht)[index := (key, value) # chain],
                    ht_used := ht_used ht + 1\<rparr>, False))"

text \<open>Moving one entry to the head of its chain in the new table.\<close>

definition rehash_entry :: "nat \<Rightarrow> 'v ht_entry list list \<Rightarrow> 'v ht_entry \<Rightarrow> 'v ht_entry list list" where
  "rehash_entry new_size new_table entry =
     (let new_idx = ht_index (new_size - 1) (fst entry) in
      new_table[new_idx := entry # new_table ! new_idx])"

fun rehash_chain :: "nat \<Rightarrow> 'v ht_entry list list \<Rightarrow> 'v ht_entry list \<Rightarrow> 'v ht_entry list list" where
  "rehash_chain new_size new_table [] = new_table"
| "rehash_chain new_size new_table (e # es) =
     rehash_chain new_size (rehash_entry new_size new_table e) es"

fun rehash_table ::
    "nat \<Rightarrow> 'v ht_entry list list \<Rightarrow> 'v ht_entry list list \<Rightarrow> 'v ht_entry list list" where
  "rehash_table new_size new_table [] = new_table"
| "rehash_table new_size new_table (chain # tab) =
     rehash_table new_size (rehash_chain new_size new_table chain) tab"

definition ht_resize :: "'v ht \<Rightarrow> nat \<Rightarrow> 'v ht" where
  "ht_resize ht new_size =
     ht\<lparr>ht_table := rehash_table new_size (replicate new_size []) (ht_table ht),
        ht_size := new_size, ht_sizemask := new_size - 1\<rparr>"

text \<open>\<open>(double)used / size > 0.75\<close>: exact on the counts below \<open>2 ^ 53\<close>.\<close>

definition over_load_factor :: "'v ht \<Rightarrow> bool" where
  "over_load_factor ht \<longleftrightarrow> 3 * ht_size ht < 4 * ht_used ht"

text \<open>The body \<open>ht_set_str\<close> and \<open>ht_set_i64\<close> have in common.\<close>

definition ht_set :: "bool \<Rightarrow> 'v ht \<Rightarrow> cstr \<Rightarrow> 'v \<Rightarrow> 'v ht \<times> int" where
  "ht_set ok ht key value =
     (case ht_upsert ok ht key value of
        None \<Rightarrow> (ht, EXIT_FAILURE)
      | Some (ht', found) \<Rightarrow>
          if \<not> found \<and> over_load_factor ht' then (ht_resize ht' (ht_size ht' * 2), EXIT_SUCCESS)
          else (ht', EXIT_SUCCESS))"

definition ht_set_str :: "bool \<Rightarrow> cstr ht \<Rightarrow> cstr \<Rightarrow> cstr \<Rightarrow> cstr ht \<times> int" where
  "ht_set_str ok ht key value = ht_set ok ht key value"

definition ht_set_i64 :: "bool \<Rightarrow> int ht \<Rightarrow> cstr \<Rightarrow> int \<Rightarrow> int ht \<times> int" where
  "ht_set_i64 ok ht key value = ht_set ok ht key value"

definition ht_get_bucket :: "'v ht \<Rightarrow> nat \<Rightarrow> 'v ht_entry list" where
  "ht_get_bucket ht idx = ht_table ht ! idx"

definition ht_find :: "'v ht \<Rightarrow> cstr \<Rightarrow> 'v option" where
  "ht_find ht key = chain_find (ht_table ht ! ht_index (ht_sizemask ht) key) key"

definition ht_exists :: "'v ht \<Rightarrow> cstr \<Rightarrow> bool" where
  "ht_exists ht key \<longleftrightarrow> ht_find ht key \<noteq> None"

definition ht_get_str :: "cstr ht \<Rightarrow> cstr \<Rightarrow> cstr option" where
  "ht_get_str ht key = ht_find ht key"

definition ht_get_i64 :: "int ht \<Rightarrow> cstr \<Rightarrow> int option" where
  "ht_get_i64 ht key = ht_find ht key"

definition ht_del :: "'v ht \<Rightarrow> cstr \<Rightarrow> 'v ht \<times> int" where
  "ht_del ht key =
     (let index = ht_index (ht_sizemask ht) key; chain = ht_table ht ! index in
      if chain_find chain key \<noteq> None
      then (ht\<lparr>ht_table := (ht_table ht)[index := chain_unlink chain key],
               ht_used := ht_used ht - 1\<rparr>, EXIT_SUCCESS)
      else (ht, EXIT_FAILURE))"

section \<open>The iterator\<close>

text \<open>A pointer to an entry is the chain from that entry on; \<open>NULL\<close> is the empty list.\<close>

record 'v ht_iter =
  it_ht :: "'v ht"
  it_index :: int
  it_entry :: "'v ht_entry list"
  it_next_entry :: "'v ht_entry list"

definition ht_iter_create :: "'v ht \<Rightarrow> 'v ht_iter" where
  "ht_iter_create ht = \<lparr>it_ht = ht, it_index = -1, it_entry = [], it_next_entry = []\<rparr>"

function ht_iter_next :: "'v ht_iter \<Rightarrow> 'v ht_iter \<times> 'v ht_entry option" where
  "ht_iter_next iter =
     (if it_entry iter = [] then
        (let iter' = iter\<lparr>it_index := it_index iter + 1\<rparr> in
         if int (ht_size (it_ht iter)) \<le> it_index iter' then (iter', None)
         else
           (let e = ht_table (it_ht iter) ! nat (it_index iter');
                iter'' = iter'\<lparr>it_entry := e\<rparr> in
            if e \<noteq> [] then (iter''\<lparr>it_next_entry := tl e\<rparr>, Some (hd e))
            else ht_iter_next iter''))
      else
        (let e = it_next_entry iter; iter' = iter\<lparr>it_entry := e\<rparr> in
         if e \<noteq> [] then (iter'\<lparr>it_next_entry := tl e\<rparr>, Some (hd e))
         else ht_iter_next iter'))"
  by pat_completeness auto
termination
  by (relation "measures [\<lambda>it. nat (int (ht_size (it_ht it)) - it_index it),
                          \<lambda>it. length (it_entry it)]") auto

declare ht_iter_next.simps [simp del]

text \<open>
  The loop \<open>while ((entry = ht_iter_next(iter)) != NULL) body\<close> of the iterator's clients,
  with the body as a state transformer; \<open>None\<close> would be a loop that does not end.
\<close>

partial_function (option) ht_iter_loop ::
    "('v ht_entry \<Rightarrow> 's \<Rightarrow> 's) \<Rightarrow> 'v ht_iter \<Rightarrow> 's \<Rightarrow> 's option" where
  "ht_iter_loop body iter s =
     (case ht_iter_next iter of
        (iter', None) \<Rightarrow> Some s
      | (iter', Some e) \<Rightarrow> ht_iter_loop body iter' (body e s))"

section \<open>Abstraction and invariant\<close>

text \<open>The finite map a table stands for.\<close>

definition ht_map :: "'v ht \<Rightarrow> cstr \<Rightarrow> 'v option" where
  "ht_map ht = map_of (concat (ht_table ht))"

definition buckets_ok :: "nat \<Rightarrow> 'v ht_entry list list \<Rightarrow> bool" where
  "buckets_ok n tab \<longleftrightarrow>
     length tab = n \<and>
     (\<forall>i < n. distinct (map fst (tab ! i)) \<and> (\<forall>e \<in> set (tab ! i). ht_index (n - 1) (fst e) = i))"

definition is_pow2 :: "nat \<Rightarrow> bool" where
  "is_pow2 n \<longleftrightarrow> (\<exists>k \<le> n. n = 2 ^ k)"

definition ht_inv :: "'v ht \<Rightarrow> bool" where
  "ht_inv ht \<longleftrightarrow>
     is_pow2 (ht_size ht) \<and> 4 \<le> ht_size ht \<and>
     ht_sizemask ht = ht_size ht - 1 \<and>
     buckets_ok (ht_size ht) (ht_table ht) \<and>
     ht_used ht = length (concat (ht_table ht)) \<and>
     \<not> over_load_factor ht"

text \<open>The entries an iterator has still to deliver.\<close>

definition it_remaining :: "'v ht_iter \<Rightarrow> 'v ht_entry list" where
  "it_remaining iter =
     (if it_entry iter = [] then [] else it_next_entry iter)
     @ concat (drop (nat (it_index iter + 1)) (ht_table (it_ht iter)))"

section \<open>One chain is an association list\<close>

lemma chain_find_map_of [simp]: "chain_find chain key = map_of chain key"
  by (induction chain) auto

lemma chain_store_keys [simp]: "map fst (chain_store chain key w) = map fst chain"
  by (induction chain) auto

lemma length_chain_store [simp]: "length (chain_store chain key w) = length chain"
  by (induction chain) auto

lemma map_of_chain_store:
  "map_of chain key \<noteq> None \<Longrightarrow> map_of (chain_store chain key w) = (map_of chain)(key \<mapsto> w)"
  by (induction chain) (auto simp: fun_eq_iff)

lemma map_of_chain_unlink:
  "distinct (map fst chain) \<Longrightarrow> map_of (chain_unlink chain key) = (map_of chain)(key := None)"
proof (induction chain)
  case (Cons e chain)
  obtain k v where e: "e = (k, v)" by (cases e)
  with Cons.prems have "map_of chain k = None" by (simp add: map_of_eq_None_iff)
  with Cons e show ?case by (auto simp: fun_eq_iff)
qed simp

lemma set_chain_unlink: "set (chain_unlink chain key) \<subseteq> set chain"
  by (induction chain) (auto split: if_splits)

lemma distinct_chain_unlink:
  "distinct (map fst chain) \<Longrightarrow> distinct (map fst (chain_unlink chain key))"
proof (induction chain)
  case (Cons e chain)
  then show ?case using set_chain_unlink[of chain key] by (cases e) (auto simp: image_iff)
qed simp

lemma length_chain_unlink:
  "map_of chain key \<noteq> None \<Longrightarrow> length chain = Suc (length (chain_unlink chain key))"
  by (induction chain) auto

section \<open>The bucket index\<close>

lemma is_pow2_iff: "is_pow2 n \<longleftrightarrow> (\<exists>k. n = 2 ^ k)"
  by (auto simp: is_pow2_def intro: less_imp_le less_exp)

lemma is_pow2_double: "is_pow2 n \<Longrightarrow> is_pow2 (n * 2)"
  unfolding is_pow2_iff by (metis power_Suc2)

lemma is_pow2_pos: "is_pow2 n \<Longrightarrow> 0 < n"
  by (auto simp: is_pow2_def)

text \<open>Masking with \<open>size - 1\<close> is the remainder by \<open>size\<close> when \<open>size\<close> is a power of two.\<close>

lemma ht_index_mod:
  assumes "is_pow2 n"
  shows "ht_index (n - Suc 0) key = unat (ht_hash key) mod n"
proof -
  obtain k where n: "n = 2 ^ k" using assms by (auto simp: is_pow2_iff)
  have "(of_nat (2 ^ k - 1) :: 64 word) = mask k"
    by (simp add: mask_eq_exp_minus_1 of_nat_diff)
  then have "ht_hash key AND of_nat (n - 1) = take_bit k (ht_hash key)"
    by (simp add: n take_bit_eq_mask)
  then have "ht_index (n - 1) key = take_bit k (unat (ht_hash key))"
    by (simp only: ht_index_def unsigned_take_bit_eq)
  then show ?thesis by (simp add: n take_bit_eq_mod)
qed

lemma ht_index_less: "is_pow2 n \<Longrightarrow> ht_index (n - Suc 0) key < n"
  by (simp add: ht_index_mod is_pow2_pos)

section \<open>Bucket arrays\<close>

lemma buckets_ok_nth:
  assumes "buckets_ok n tab" "i < n"
  shows "distinct (map fst (tab ! i))" "e \<in> set (tab ! i) \<Longrightarrow> ht_index (n - Suc 0) (fst e) = i"
  using assms by (auto simp: buckets_ok_def)

lemma buckets_ok_length: "buckets_ok n tab \<Longrightarrow> length tab = n"
  by (simp add: buckets_ok_def)

lemma buckets_ok_distinct: "buckets_ok n tab \<Longrightarrow> distinct (map fst (concat tab))"
  using distinct_concat_indexed[of tab "ht_index (n - Suc 0)" 0] by (simp add: buckets_ok_def)

text \<open>A key is looked up in its own bucket only.\<close>

lemma buckets_ok_lookup:
  assumes ok: "buckets_ok n tab" and p: "is_pow2 n"
  shows "map_of (concat tab) key = map_of (tab ! ht_index (n - Suc 0) key) key"
proof (rule map_of_concat_nth)
  show "ht_index (n - Suc 0) key < length tab"
    using ok p by (simp add: ht_index_less buckets_ok_length)
  fix j assume "j < length tab" "j \<noteq> ht_index (n - Suc 0) key"
  then show "key \<notin> fst ` set (tab ! j)"
    using ok buckets_ok_nth(2)[OF ok, of j] by (auto simp: buckets_ok_length)
qed

lemma buckets_ok_update:
  assumes ok: "buckets_ok n tab" and "i < n" and d: "distinct (map fst chain)"
    and i: "\<And>e. e \<in> set chain \<Longrightarrow> ht_index (n - Suc 0) (fst e) = i"
  shows "buckets_ok n (tab[i := chain])"
  using assms by (auto simp: buckets_ok_def nth_list_update)

text \<open>Replacing a bucket by one that differs at one of its own keys only updates the map there.\<close>

lemma map_of_bucket_update:
  assumes ok: "buckets_ok n tab" and p: "is_pow2 n" and i: "i = ht_index (n - Suc 0) key"
    and ok': "buckets_ok n (tab[i := chain])" and upd: "map_of chain = (map_of (tab ! i))(key := v)"
  shows "map_of (concat (tab[i := chain])) = (map_of (concat tab))(key := v)"
proof
  fix k
  have len: "length tab = n" "i < n" using ok p i by (simp_all add: buckets_ok_length ht_index_less)
  show "map_of (concat (tab[i := chain])) k = ((map_of (concat tab))(key := v)) k"
    unfolding buckets_ok_lookup[OF ok' p] fun_upd_apply buckets_ok_lookup[OF ok p]
    using len upd i by (cases "ht_index (n - Suc 0) k = i") auto
qed

lemma buckets_ok_push:
  assumes ok: "buckets_ok n tab" and p: "is_pow2 n" and i: "i = ht_index (n - Suc 0) key"
    and new: "map_of (tab ! i) key = None"
  shows "buckets_ok n (tab[i := (key, v) # tab ! i])"
proof (rule buckets_ok_update[OF ok])
  show "i < n" using p i by (simp add: ht_index_less)
  then show "distinct (map fst ((key, v) # tab ! i))"
    using buckets_ok_nth(1)[OF ok] new by (simp add: map_of_eq_None_iff)
  show "e \<in> set ((key, v) # tab ! i) \<Longrightarrow> ht_index (n - Suc 0) (fst e) = i" for e
    using buckets_ok_nth(2)[OF ok \<open>i < n\<close>, of e] i by auto
qed

section \<open>Rehashing\<close>

lemma rehash_chain_fold: "rehash_chain n tab es = foldl (rehash_entry n) tab es"
  by (induction es arbitrary: tab) auto

lemma rehash_table_fold: "rehash_table n tab xss = foldl (rehash_entry n) tab (concat xss)"
  by (induction xss arbitrary: tab) (auto simp: rehash_chain_fold)

lemma rehash_entries:
  assumes "is_pow2 n" "buckets_ok n tab" "distinct (map fst es)"
    and "fst ` set es \<inter> fst ` set (concat tab) = {}"
  shows "buckets_ok n (foldl (rehash_entry n) tab es) \<and>
         map_of (concat (foldl (rehash_entry n) tab es)) = map_of (concat tab) ++ map_of es \<and>
         length (concat (foldl (rehash_entry n) tab es)) = length (concat tab) + length es"
  using assms
proof (induction es arbitrary: tab)
  case Nil
  then show ?case by simp
next
  case (Cons e es)
  obtain key v where e: "e = (key, v)" by (cases e)
  let ?i = "ht_index (n - Suc 0) key"
  let ?tab = "tab[?i := e # tab ! ?i]"
  have new: "map_of (concat tab) key = None"
    using Cons.prems(4) by (auto simp: e map_of_eq_None_iff)
  have i: "?i < length tab" using Cons.prems by (simp add: ht_index_less buckets_ok_length)
  have new_i: "map_of (tab ! ?i) key = None"
    using new Cons.prems by (simp add: buckets_ok_lookup)
  have ok: "buckets_ok n ?tab"
    using buckets_ok_push[OF Cons.prems(2,1) refl new_i] by (simp add: e)
  have upd: "map_of (concat ?tab) = (map_of (concat tab))(key \<mapsto> v)"
    by (rule map_of_bucket_update[OF Cons.prems(2,1) refl ok]) (simp add: e)
  have len: "length (concat ?tab) = Suc (length (concat tab))"
    using length_concat_update[OF i, of "e # tab ! ?i"] by simp
  have dom: "fst ` set (concat ?tab) = insert key (fst ` set (concat tab))"
    using arg_cong[OF upd, of dom] by (simp add: dom_map_of_conv_image_fst)
  have disj: "fst ` set es \<inter> fst ` set (concat ?tab) = {}"
    unfolding dom using Cons.prems(3,4) by (auto simp: e)
  have d: "distinct (map fst es)" using Cons.prems(3) by simp
  have maps: "map_of (concat tab) ++ map_of (e # es) = (map_of (concat tab))(key \<mapsto> v) ++ map_of es"
    using Cons.prems(3) by (simp add: e map_add_upd_left dom_map_of_conv_image_fst)
  have step: "rehash_entry n tab e = ?tab" by (simp add: rehash_entry_def Let_def e)
  show ?case
    using Cons.IH[OF Cons.prems(1) ok d disj]
    by (simp only: foldl.simps step maps upd len list.size add_Suc add_Suc_right add_0_right)
qed

lemma buckets_ok_empty: "buckets_ok n (replicate n [])"
  by (simp add: buckets_ok_def)

lemma rehash_table_ok:
  assumes "is_pow2 n" "distinct (map fst (concat tab))"
  shows "buckets_ok n (rehash_table n (replicate n []) tab)"
    and "map_of (concat (rehash_table n (replicate n []) tab)) = map_of (concat tab)"
    and "length (concat (rehash_table n (replicate n []) tab)) = length (concat tab)"
proof -
  have "concat (replicate n []) = []" by simp
  then show "buckets_ok n (rehash_table n (replicate n []) tab)"
    "map_of (concat (rehash_table n (replicate n []) tab)) = map_of (concat tab)"
    "length (concat (rehash_table n (replicate n []) tab)) = length (concat tab)"
    using rehash_entries[OF assms(1) buckets_ok_empty assms(2)]
    by (simp_all add: rehash_table_fold)
qed

section \<open>Every operation, on the map it stands for\<close>

lemma ht_invD:
  assumes "ht_inv ht"
  shows "is_pow2 (ht_size ht)" "4 \<le> ht_size ht" "ht_sizemask ht = ht_size ht - Suc 0"
    "buckets_ok (ht_size ht) (ht_table ht)" "ht_used ht = length (concat (ht_table ht))"
    "4 * ht_used ht \<le> 3 * ht_size ht"
  using assms by (auto simp: ht_inv_def over_load_factor_def)

lemma ht_bucket_lookup:
  "ht_inv ht \<Longrightarrow> map_of (ht_table ht ! ht_index (ht_size ht - Suc 0) key) key = ht_map ht key"
  unfolding ht_map_def by (rule buckets_ok_lookup[symmetric]) (simp_all add: ht_invD)

lemma ht_find_map: "ht_inv ht \<Longrightarrow> ht_find ht = ht_map ht"
  by (simp add: fun_eq_iff ht_find_def ht_invD(3) ht_bucket_lookup)

lemma ht_used_card:
  assumes "ht_inv ht"
  shows "ht_used ht = card (dom (ht_map ht))"
proof -
  have "distinct (map fst (concat (ht_table ht)))"
    using assms by (auto dest: ht_invD buckets_ok_distinct)
  then have "card (fst ` set (concat (ht_table ht))) = length (concat (ht_table ht))"
    by (metis distinct_card length_map list.set_map)
  then show ?thesis
    using assms by (simp add: ht_invD(5) ht_map_def dom_map_of_conv_image_fst)
qed

lemma ht_create_inv: "ht_inv (ht_create vt)" and ht_create_map: "ht_map (ht_create vt) = Map.empty"
proof -
  have "is_pow2 4" unfolding is_pow2_iff by (rule exI[of _ 2]) simp
  then show "ht_inv (ht_create vt)"
    using buckets_ok_empty[of 4]
    by (simp add: ht_inv_def ht_create_def HT_INITIAL_SIZE_def over_load_factor_def)
  show "ht_map (ht_create vt) = Map.empty"
    by (simp add: ht_map_def ht_create_def)
qed

text \<open>Growing keeps the map, whatever the old table held.\<close>

lemma ht_resize_ok:
  assumes "is_pow2 n" "4 \<le> n" "distinct (map fst (concat (ht_table ht)))"
    and "ht_used ht = length (concat (ht_table ht))" "4 * ht_used ht \<le> 3 * n"
  shows "ht_inv (ht_resize ht n)" "ht_map (ht_resize ht n) = ht_map ht"
  using rehash_table_ok[OF assms(1,3)] assms
  by (auto simp: ht_inv_def ht_resize_def ht_map_def over_load_factor_def)

text \<open>
  A store: on success the map is updated at the key and the invariant holds again, a
  table whose load went over the limit having doubled; it fails only when the key is new
  and the allocation failed, and then nothing changed.
\<close>

lemma ht_upsert_found:
  assumes inv: "ht_inv ht" and found: "ht_map ht key \<noteq> None"
  shows "\<exists>ht'. ht_upsert ok ht key v = Some (ht', True) \<and> ht_inv ht' \<and>
           ht_map ht' = (ht_map ht)(key \<mapsto> v)"
proof -
  let ?i = "ht_index (ht_size ht - Suc 0) key"
  let ?chain = "ht_table ht ! ?i"
  note h = ht_invD[OF inv]
  have hit: "map_of ?chain key \<noteq> None"
    using found inv by (simp add: ht_bucket_lookup)
  have i: "?i < ht_size ht" using h(1) by (rule ht_index_less)
  let ?tab = "(ht_table ht)[?i := chain_store ?chain key v]"
  have ok: "buckets_ok (ht_size ht) ?tab"
  proof (rule buckets_ok_update[OF h(4) i])
    show "distinct (map fst (chain_store ?chain key v))" using buckets_ok_nth(1)[OF h(4) i] by simp
    fix e assume "e \<in> set (chain_store ?chain key v)"
    then have "fst e \<in> set (map fst ?chain)" by (metis chain_store_keys image_eqI list.set_map)
    then show "ht_index (ht_size ht - Suc 0) (fst e) = ?i"
      using buckets_ok_nth(2)[OF h(4) i] by auto
  qed
  have upd: "map_of (concat ?tab) = (map_of (concat (ht_table ht)))(key \<mapsto> v)"
    using hit by (intro map_of_bucket_update[OF h(4,1) refl ok] map_of_chain_store) simp
  have len: "length (concat ?tab) = length (concat (ht_table ht))"
    using length_concat_update[of ?i "ht_table ht" "chain_store ?chain key v"] i h(4)
    by (simp add: buckets_ok_length)
  show ?thesis
    using hit h ok upd len
    by (auto simp: ht_upsert_def Let_def ht_inv_def ht_map_def over_load_factor_def)
qed

lemma ht_upsert_new:
  assumes inv: "ht_inv ht" and new: "ht_map ht key = None"
  shows "\<exists>ht'. ht_upsert True ht key v = Some (ht', False) \<and>
           ht_map ht' = (ht_map ht)(key \<mapsto> v) \<and> ht_size ht' = ht_size ht \<and>
           ht_sizemask ht' = ht_sizemask ht \<and> buckets_ok (ht_size ht) (ht_table ht') \<and>
           ht_used ht' = Suc (ht_used ht) \<and> ht_used ht' = length (concat (ht_table ht'))"
proof -
  let ?i = "ht_index (ht_size ht - Suc 0) key"
  let ?chain = "ht_table ht ! ?i"
  let ?tab = "(ht_table ht)[?i := (key, v) # ?chain]"
  note h = ht_invD[OF inv]
  have miss: "map_of ?chain key = None"
    using new inv by (simp add: ht_bucket_lookup)
  have i: "?i < ht_size ht" using h(1) by (rule ht_index_less)
  have ok: "buckets_ok (ht_size ht) ?tab"
    by (rule buckets_ok_push[OF h(4,1) refl miss])
  have upd: "map_of (concat ?tab) = (map_of (concat (ht_table ht)))(key \<mapsto> v)"
    by (rule map_of_bucket_update[OF h(4,1) refl ok]) simp
  have len: "length (concat ?tab) = Suc (length (concat (ht_table ht)))"
    using length_concat_update[of ?i "ht_table ht" "(key, v) # ?chain"] i h(4)
    by (simp add: buckets_ok_length)
  show ?thesis
    using miss h ok upd len by (auto simp: ht_upsert_def Let_def ht_map_def)
qed

lemma ht_set_ok:
  assumes inv: "ht_inv ht" and ok: "ok \<or> ht_map ht key \<noteq> None"
  shows "ht_inv (fst (ht_set ok ht key v))"
    and "ht_map (fst (ht_set ok ht key v)) = (ht_map ht)(key \<mapsto> v)"
    and "snd (ht_set ok ht key v) = EXIT_SUCCESS"
proof -
  have "ht_inv (fst (ht_set ok ht key v)) \<and>
        ht_map (fst (ht_set ok ht key v)) = (ht_map ht)(key \<mapsto> v) \<and>
        snd (ht_set ok ht key v) = EXIT_SUCCESS"
  proof (cases "ht_map ht key")
    case (Some w)
    with ht_upsert_found[OF inv, of key ok v] show ?thesis by (auto simp: ht_set_def)
  next
    case None
    then obtain ht' where up: "ht_upsert True ht key v = Some (ht', False)"
      and ht': "ht_map ht' = (ht_map ht)(key \<mapsto> v)" "ht_size ht' = ht_size ht"
        "ht_sizemask ht' = ht_sizemask ht" "buckets_ok (ht_size ht) (ht_table ht')"
        "ht_used ht' = Suc (ht_used ht)" "ht_used ht' = length (concat (ht_table ht'))"
      using ht_upsert_new[OF inv] by blast
    note h = ht_invD[OF inv]
    show ?thesis
    proof (cases "over_load_factor ht'")
      case True
      have "ht_inv (ht_resize ht' (ht_size ht' * 2)) \<and>
            ht_map (ht_resize ht' (ht_size ht' * 2)) = ht_map ht'"
        using ht_resize_ok[of "ht_size ht' * 2" ht'] h ht' buckets_ok_distinct[OF ht'(4)]
        by (simp add: is_pow2_double)
      with True None ok up ht'(1) show ?thesis by (auto simp: ht_set_def)
    next
      case False
      have "ht_inv ht'" using False h ht' by (simp add: ht_inv_def)
      with False None ok up ht'(1) show ?thesis by (auto simp: ht_set_def)
    qed
  qed
  then show "ht_inv (fst (ht_set ok ht key v))"
    "ht_map (fst (ht_set ok ht key v)) = (ht_map ht)(key \<mapsto> v)"
    "snd (ht_set ok ht key v) = EXIT_SUCCESS" by blast+
qed

lemma ht_set_fail:
  "ht_inv ht \<Longrightarrow> ht_map ht key = None \<Longrightarrow> ht_set False ht key v = (ht, EXIT_FAILURE)"
  by (simp add: ht_set_def ht_upsert_def Let_def ht_invD(3) ht_bucket_lookup)

lemma ht_del_hit:
  assumes inv: "ht_inv ht" and found: "ht_map ht key \<noteq> None"
  shows "ht_inv (fst (ht_del ht key))" "ht_map (fst (ht_del ht key)) = (ht_map ht)(key := None)"
    "snd (ht_del ht key) = EXIT_SUCCESS"
proof -
  let ?i = "ht_index (ht_size ht - Suc 0) key"
  let ?chain = "ht_table ht ! ?i"
  let ?tab = "(ht_table ht)[?i := chain_unlink ?chain key]"
  note h = ht_invD[OF inv]
  have hit: "map_of ?chain key \<noteq> None"
    using found inv by (simp add: ht_bucket_lookup)
  have i: "?i < ht_size ht" using h(1) by (rule ht_index_less)
  note chain = buckets_ok_nth[OF h(4) i]
  have ok: "buckets_ok (ht_size ht) ?tab"
    using chain set_chain_unlink[of ?chain key]
    by (intro buckets_ok_update[OF h(4) i] distinct_chain_unlink) auto
  have upd: "map_of (concat ?tab) = (map_of (concat (ht_table ht)))(key := None)"
    by (intro map_of_bucket_update[OF h(4,1) refl ok] map_of_chain_unlink chain)
  have len: "Suc (length (concat ?tab)) = length (concat (ht_table ht))"
    using length_concat_update[of ?i "ht_table ht" "chain_unlink ?chain key"] i h(4)
      length_chain_unlink[OF hit] by (simp add: buckets_ok_length)
  show "ht_inv (fst (ht_del ht key))" "ht_map (fst (ht_del ht key)) = (ht_map ht)(key := None)"
    "snd (ht_del ht key) = EXIT_SUCCESS"
    using hit h ok upd len
    by (auto simp: ht_del_def Let_def ht_inv_def ht_map_def over_load_factor_def)
qed

lemma ht_del_miss:
  "ht_inv ht \<Longrightarrow> ht_map ht key = None \<Longrightarrow> ht_del ht key = (ht, EXIT_FAILURE)"
  by (simp add: ht_del_def Let_def ht_invD(3) ht_bucket_lookup)

text \<open>The table keeps the promises of the key-table interface.\<close>

interpretation htab: key_table ht_inv ht_find ht_set ht_del ht_used
proof unfold_locales
  fix t :: "'v ht" and k :: cstr and v :: 'v and ok :: bool
  assume inv: "ht_inv t"
  show "finite (dom (ht_find t))"
    using inv by (simp add: ht_find_map) (simp add: ht_map_def finite_dom_map_of)
  show "ht_used t = card (dom (ht_find t))"
    using inv by (simp add: ht_find_map ht_used_card)
  show "ht_find t k = None \<Longrightarrow> ht_set False t k v = (t, EXIT_FAILURE)"
    using inv by (simp add: ht_find_map ht_set_fail)
  show "ht_find t k = None \<Longrightarrow> ht_del t k = (t, EXIT_FAILURE)"
    using inv by (simp add: ht_find_map ht_del_miss)
  {
    assume "ok \<or> ht_find t k \<noteq> None"
    then have ok: "ok \<or> ht_map t k \<noteq> None" using inv by (simp add: ht_find_map)
    note set = ht_set_ok[OF inv ok, of v]
    show "ht_inv (fst (ht_set ok t k v))" "snd (ht_set ok t k v) = EXIT_SUCCESS"
      by (fact set)+
    show "ht_find (fst (ht_set ok t k v)) = (ht_find t)(k \<mapsto> v)"
      using inv set by (simp add: ht_find_map)
  next
    assume "ht_find t k \<noteq> None"
    then have hit: "ht_map t k \<noteq> None" using inv by (simp add: ht_find_map)
    note del = ht_del_hit[OF inv hit]
    show "ht_inv (fst (ht_del t k))" "snd (ht_del t k) = EXIT_SUCCESS" by (fact del)+
    show "ht_find (fst (ht_del t k)) = (ht_find t)(k := None)"
      using inv del by (simp add: ht_find_map)
  }
qed

section \<open>The iterator delivers every entry once\<close>

text \<open>An iterator over a table whose bucket array has the recorded size.\<close>

definition it_ok :: "'v ht_iter \<Rightarrow> bool" where
  "it_ok iter \<longleftrightarrow>
     length (ht_table (it_ht iter)) = ht_size (it_ht iter) \<and> -1 \<le> it_index iter"

lemma drop_next_bucket:
  assumes "-1 \<le> i" "i + 1 < int (length tab)"
  shows "concat (drop (nat (i + 1)) tab) = tab ! nat (i + 1) @ concat (drop (nat (i + 2)) tab)"
proof -
  have "drop (nat (i + 1)) tab = tab ! nat (i + 1) # drop (Suc (nat (i + 1))) tab"
    using assms by (intro Cons_nth_drop_Suc[symmetric]) linarith
  moreover have "Suc (nat (i + 1)) = nat (i + 2)" using assms by linarith
  ultimately show ?thesis by simp
qed

lemma ht_iter_next_spec:
  "it_ok iter \<Longrightarrow>
   (case it_remaining iter of
      [] \<Rightarrow> snd (ht_iter_next iter) = None
    | e # es \<Rightarrow> snd (ht_iter_next iter) = Some e \<and> it_ok (fst (ht_iter_next iter)) \<and>
                it_remaining (fst (ht_iter_next iter)) = es)"
proof (induction iter rule: ht_iter_next.induct)
  case (1 iter)
  let ?tab = "ht_table (it_ht iter)" and ?i = "it_index iter"
  have idx: "-1 \<le> ?i" "length ?tab = ht_size (it_ht iter)" using "1.prems" by (auto simp: it_ok_def)
  show ?case
  proof (cases "it_entry iter = []")
    case new: True
    show ?thesis
    proof (cases "int (ht_size (it_ht iter)) \<le> ?i + 1")
      case True
      then have "drop (nat (?i + 1)) ?tab = []" using idx by simp
      with new True show ?thesis by (simp add: it_remaining_def ht_iter_next.simps[of iter])
    next
      case False
      let ?b = "?tab ! nat (?i + 1)"
      let ?it = "iter\<lparr>it_index := ?i + 1, it_entry := ?b\<rparr>"
      have rem: "it_remaining iter = ?b @ concat (drop (nat (?i + 2)) ?tab)"
        using drop_next_bucket[of ?i ?tab] new False idx by (simp add: it_remaining_def)
      have ok: "it_ok ?it" using idx by (simp add: it_ok_def)
      show ?thesis
      proof (cases "?b = []")
        case True
        have same: "it_remaining iter = it_remaining ?it"
          using rem True by (simp add: it_remaining_def add.commute)
        have skip: "ht_iter_next iter = ht_iter_next ?it"
          using new False True by (simp add: ht_iter_next.simps[of iter] Let_def)
        show ?thesis unfolding skip same
          using "1.IH"(1)[OF new refl _ refl refl] False True ok by (simp split: list.splits)
      next
        case nonempty: False
        then have "ht_iter_next iter = (?it\<lparr>it_next_entry := tl ?b\<rparr>, Some (hd ?b))"
          using new False by (simp add: ht_iter_next.simps[of iter] Let_def)
        with nonempty rem idx show ?thesis
          by (cases ?b) (auto simp: it_remaining_def it_ok_def add.commute)
      qed
    qed
  next
    case inside: False
    let ?n = "it_next_entry iter"
    let ?it = "iter\<lparr>it_entry := ?n\<rparr>"
    have rem: "it_remaining iter = ?n @ concat (drop (nat (?i + 1)) ?tab)"
      using inside by (simp add: it_remaining_def)
    have ok: "it_ok ?it" using idx by (simp add: it_ok_def)
    show ?thesis
    proof (cases "?n = []")
      case True
      have same: "it_remaining iter = it_remaining ?it" using rem True by (simp add: it_remaining_def)
      have skip: "ht_iter_next iter = ht_iter_next ?it"
        using inside True by (simp add: ht_iter_next.simps[of iter] Let_def)
      show ?thesis unfolding skip same 
        using "1.IH"(2)[OF inside refl refl] True ok by (simp split: list.splits)
    next
      case False
      then have "ht_iter_next iter = (?it\<lparr>it_next_entry := tl ?n\<rparr>, Some (hd ?n))"
        using inside by (simp add: ht_iter_next.simps[of iter] Let_def)
      with False rem idx show ?thesis
        by (cases ?n) (auto simp: it_remaining_def it_ok_def)
    qed
  qed
qed

lemma ht_iter_loop_fold:
  "it_ok iter \<Longrightarrow> it_remaining iter = es \<Longrightarrow> ht_iter_loop body iter s = Some (fold body es s)"
proof (induction es arbitrary: iter s)
  case Nil
  then show ?case
    using ht_iter_next_spec[of iter]
    by (subst ht_iter_loop.simps) (auto split: prod.split option.split)
next
  case (Cons e es)
  then have "snd (ht_iter_next iter) = Some e" "it_ok (fst (ht_iter_next iter))"
    "it_remaining (fst (ht_iter_next iter)) = es"
    using ht_iter_next_spec[of iter] by auto
  with Cons.IH[of "fst (ht_iter_next iter)"] show ?case
    by (subst ht_iter_loop.simps) (auto split: prod.split option.split)
qed

lemma ht_iter_all:
  assumes "ht_inv ht"
  shows "ht_iter_loop body (ht_iter_create ht) s = Some (fold body (concat (ht_table ht)) s)"
proof (rule ht_iter_loop_fold)
  show "it_ok (ht_iter_create ht)"
    using ht_invD(4)[OF assms] by (simp add: it_ok_def ht_iter_create_def buckets_ok_length)
  show "it_remaining (ht_iter_create ht) = concat (ht_table ht)"
    by (simp add: it_remaining_def ht_iter_create_def)
qed

lemma ht_entries_distinct: "ht_inv ht \<Longrightarrow> distinct (map fst (concat (ht_table ht)))"
  by (rule buckets_ok_distinct) (rule ht_invD(4))

section \<open>The value tag\<close>

lemma ht_resize_val_type: "ht_val_type (ht_resize ht n) = ht_val_type ht"
  by (simp add: ht_resize_def)

lemma ht_upsert_val_type:
  "ht_upsert ok ht key v = Some (ht', found) \<Longrightarrow> ht_val_type ht' = ht_val_type ht"
  by (auto simp: ht_upsert_def Let_def split: if_splits)

lemma ht_set_val_type [simp]: "ht_val_type (fst (ht_set ok ht key v)) = ht_val_type ht"
  by (auto simp: ht_set_def ht_resize_val_type dest: ht_upsert_val_type split: option.split)

lemma ht_del_val_type [simp]: "ht_val_type (fst (ht_del ht key)) = ht_val_type ht"
  by (simp add: ht_del_def Let_def)

lemma ht_create_val_type [simp]: "ht_val_type (ht_create vt) = vt"
  by (simp add: ht_create_def)

section \<open>Any sequence of calls\<close>

text \<open>A call of a client, with the outcome of the allocation it may need.\<close>

datatype 'v ht_request = HtSet bool cstr 'v | HtDel cstr

fun ht_call :: "'v ht_request \<Rightarrow> 'v ht \<Rightarrow> 'v ht" where
  "ht_call (HtSet ok k v) ht = fst (ht_set ok ht k v)"
| "ht_call (HtDel k) ht = fst (ht_del ht k)"

text \<open>What it does to a map: a store with a failed allocation only changes a key that is there.\<close>

fun map_call :: "'v ht_request \<Rightarrow> (cstr \<Rightarrow> 'v option) \<Rightarrow> (cstr \<Rightarrow> 'v option)" where
  "map_call (HtSet ok k v) m = (if ok \<or> m k \<noteq> None then m(k \<mapsto> v) else m)"
| "map_call (HtDel k) m = m(k := None)"

lemma ht_call_step:
  "ht_inv ht \<Longrightarrow> ht_inv (ht_call c ht) \<and> ht_find (ht_call c ht) = map_call c (ht_find ht)"
  by (cases c) (simp_all add: htab.store_any_inv htab.store_any_lookup htab.delete_any_inv
      htab.delete_any_lookup)

lemma ht_calls_fold:
  "ht_inv ht \<Longrightarrow> ht_inv (fold ht_call cs ht) \<and> ht_find (fold ht_call cs ht) = fold map_call cs (ht_find ht)"
proof (induction cs arbitrary: ht)
  case (Cons c cs)
  with Cons.IH[of "ht_call c ht"] ht_call_step[of ht c] show ?case by simp
qed simp

section \<open>Properties\<close>

text \<open>C23: After any sequence of stores and deletions on a fresh table, with any allocation
  failing, \<open>ht_find\<close> answers as the finite map those calls build, \<open>used\<close> is the number
  of keys, every chain of the power-of-two sized array holds the keys of its index once, and
  the load factor is at most 0.75.\<close>

theorem ht_calls_refine_map:
  "let ht = fold ht_call cs (ht_create vt) in
   ht_find ht = fold map_call cs Map.empty \<and> ht_used ht = card (dom (fold map_call cs Map.empty))
   \<and> ht_inv ht \<and> 4 * ht_used ht \<le> 3 * ht_size ht"
proof -
  have "ht_inv (fold ht_call cs (ht_create vt))"
    "ht_find (fold ht_call cs (ht_create vt)) = fold map_call cs Map.empty"
    using ht_calls_fold[OF ht_create_inv, of cs vt]
    by (simp_all add: ht_find_map[OF ht_create_inv] ht_create_map)
  then show ?thesis using ht_invD(6) by (metis htab.entries_card)
qed

text \<open>On a well-formed table the functions return what their callers test: a store
  succeeds unless the key is new and the allocation failed, and then nothing changed; a
  deletion succeeds exactly when the key was there; both leave every other key alone.\<close>

lemma ht_set_del_contract:
  assumes "ht_inv ht"
  shows "snd (ht_set ok ht k v) = (if ok \<or> ht_exists ht k then EXIT_SUCCESS else EXIT_FAILURE)
       \<and> (snd (ht_set ok ht k v) = EXIT_FAILURE \<longrightarrow> fst (ht_set ok ht k v) = ht)
       \<and> (snd (ht_set ok ht k v) = EXIT_SUCCESS \<longrightarrow>
            ht_find (fst (ht_set ok ht k v)) = (ht_find ht)(k \<mapsto> v))
       \<and> snd (ht_del ht k) = (if ht_exists ht k then EXIT_SUCCESS else EXIT_FAILURE)
       \<and> ht_find (fst (ht_del ht k)) = (ht_find ht)(k := None)
       \<and> ht_used (fst (ht_del ht k)) = (if ht_exists ht k then ht_used ht - 1 else ht_used ht)"
  using assms htab.store_fail[of ht k v]
  by (auto simp: htab.store_any_status htab.store_any_lookup htab.delete_any_status
      htab.delete_any_lookup htab.entries_delete ht_exists_def)

lemma ht_ab_inv: "ht_inv (fst (ht_set True (ht_create HT_VAL_STR) (lit ''a'') (lit ''1'')))"
  by (rule htab.store_any_inv) (rule ht_create_inv)

text \<open>Masking the hash with \<open>sizemask\<close> is the remainder by the table's size, so every key
  has a bucket inside the array, before and after a resize.\<close>

lemma ht_index_in_table:
  assumes "ht_inv ht"
  shows "ht_index (ht_sizemask ht) key = unat (ht_hash key) mod ht_size ht
       \<and> ht_index (ht_sizemask ht) key < length (ht_table ht)"
  using ht_invD[OF assms] by (simp add: ht_index_mod ht_index_less buckets_ok_length)

text \<open>C28: The loop over the iterator ends and hands its body every entry of the table exactly
  once: the keys it saw are distinct, they are as many as \<open>used\<close>, and the pairs are those
  \<open>ht_find\<close> answers with.\<close>

theorem ht_iter_visits_each_entry_once:
  assumes "ht_inv ht"
  shows "\<exists>es. ht_iter_loop (\<lambda>e seen. seen @ [e]) (ht_iter_create ht) [] = Some es
           \<and> distinct (map fst es) \<and> length es = ht_used ht
           \<and> set es = {(k, v). ht_find ht k = Some v}"
proof -
  let ?es = "concat (ht_table ht)"
  have "fold (\<lambda>e seen. seen @ [e]) es acc = acc @ es" for es acc :: "'a ht_entry list"
    by (induction es arbitrary: acc) auto
  then have "ht_iter_loop (\<lambda>e seen. seen @ [e]) (ht_iter_create ht) [] = Some ?es"
    using ht_iter_all[OF assms, of "\<lambda>e seen. seen @ [e]" "[]"] by simp
  moreover have d: "distinct (map fst ?es)" by (rule ht_entries_distinct[OF assms])
  moreover have "set ?es = {(k, v). ht_find ht k = Some v}"
    using map_of_eq_Some_iff[OF d] assms by (auto simp: ht_find_map ht_map_def simp del: set_concat)
  ultimately show ?thesis using ht_invD(5)[OF assms] by auto
qed

theorem ht_iter_visits_each_entry_once_witness:
  "\<exists>es. ht_iter_loop (\<lambda>e seen. seen @ [e])
          (ht_iter_create (fst (ht_set True (ht_create HT_VAL_STR) (lit ''a'') (lit ''1'')))) [] = Some es
        \<and> set es = {(lit ''a'', lit ''1'')}"
  using ht_iter_visits_each_entry_once[OF ht_ab_inv]
    htab.store_lookup[OF ht_create_inv[of HT_VAL_STR], of True "lit ''a''" "lit ''1''"]
  by (auto simp: ht_find_map ht_create_inv ht_create_map split: if_splits)

end
