(* ===== verification/Db.thy ===== *)
theory Db
  imports Ht
begin

text \<open>
  The keyspace of \<open>db.c\<close>: two hash tables, one with the values and one with the
  deadlines, lazy expiry on reads and the active sweep.

  The outcomes of the allocations that can fail are Boolean arguments, in the order of
  the calls. The random bucket indices of the sweep (\<open>arc4random_uniform\<close>) are a list the
  sweep consumes; a list that ends before enough buckets were picked gives \<open>None\<close>.
  \<open>db_active_sweep\<close> passes \<open>e->key\<close> on to \<open>db_del\<close>, whose first \<open>ht_del\<close>
  frees that very string before the second one reads it: \<open>stale\<close> is what a freed key
  reads as, a parameter because the allocator decides it.
\<close>

section \<open>Data and operations\<close>

record db =
  db_keyspace :: "cstr ht"
  db_expires :: "int ht"
  db_start_ms :: int

definition db_create :: "int \<Rightarrow> db" where
  "db_create now_ms =
     \<lparr>db_keyspace = ht_create HT_VAL_STR, db_expires = ht_create HT_VAL_I64,
      db_start_ms = now_ms\<rparr>"

text \<open>The deletion, for a caller whose key string is the one the \<open>expires\<close> entry owns.\<close>

definition db_del_via :: "(cstr \<Rightarrow> cstr) \<Rightarrow> db \<Rightarrow> cstr \<Rightarrow> db \<times> int" where
  "db_del_via stale db key =
     (let (expires, r1) = ht_del (db_expires db) key;
          key' = (if r1 = EXIT_SUCCESS then stale key else key);
          (keyspace, r2) = ht_del (db_keyspace db) key' in
      (db\<lparr>db_expires := expires, db_keyspace := keyspace\<rparr>, r2))"

text \<open>The deletion, for a caller that owns its key string.\<close>

definition db_del :: "db \<Rightarrow> cstr \<Rightarrow> db \<times> int" where
  "db_del db key = db_del_via (\<lambda>k. k) db key"

definition db_expire_clean_via :: "(cstr \<Rightarrow> cstr) \<Rightarrow> db \<Rightarrow> cstr \<Rightarrow> int \<Rightarrow> db \<times> bool" where
  "db_expire_clean_via stale db key now_ms =
     (case ht_get_i64 (db_expires db) key of
        Some expire_at \<Rightarrow>
          if expire_at < now_ms then (fst (db_del_via stale db key), True) else (db, False)
      | None \<Rightarrow> (db, False))"

definition db_expire_clean :: "db \<Rightarrow> cstr \<Rightarrow> int \<Rightarrow> db \<times> bool" where
  "db_expire_clean db key now_ms = db_expire_clean_via (\<lambda>k. k) db key now_ms"

definition db_get :: "db \<Rightarrow> cstr \<Rightarrow> int \<Rightarrow> db \<times> cstr option" where
  "db_get db key now_ms =
     (let (db', cleaned) = db_expire_clean db key now_ms in
      if cleaned then (db', None) else (db', ht_get_str (db_keyspace db') key))"

definition db_set :: "bool \<Rightarrow> db \<Rightarrow> cstr \<Rightarrow> cstr \<Rightarrow> db \<times> int" where
  "db_set ok db key value =
     (let (keyspace, r) = ht_set_str ok (db_keyspace db) key value in
      (db\<lparr>db_keyspace := keyspace\<rparr>, r))"

definition db_setex :: "bool \<Rightarrow> bool \<Rightarrow> db \<Rightarrow> cstr \<Rightarrow> cstr \<Rightarrow> int \<Rightarrow> db \<times> int" where
  "db_setex ok1 ok2 db key value expire_at =
     (let (keyspace, r1) = ht_set_str ok1 (db_keyspace db) key value;
          db1 = db\<lparr>db_keyspace := keyspace\<rparr> in
      if r1 = EXIT_FAILURE then (db1, EXIT_FAILURE)
      else if 0 < expire_at then
        (let (expires, r2) = ht_set_i64 ok2 (db_expires db) key expire_at;
             db2 = db1\<lparr>db_expires := expires\<rparr> in
         if r2 = EXIT_FAILURE
         then (db2\<lparr>db_keyspace := fst (ht_del keyspace key)\<rparr>, EXIT_FAILURE)
         else (db2, EXIT_SUCCESS))
      else (db1, EXIT_SUCCESS))"

definition db_persist :: "db \<Rightarrow> cstr \<Rightarrow> db \<times> int" where
  "db_persist db key =
     (let (expires, r) = ht_del (db_expires db) key in (db\<lparr>db_expires := expires\<rparr>, r))"

definition db_key_expire :: "bool \<Rightarrow> db \<Rightarrow> cstr \<Rightarrow> int \<Rightarrow> db \<times> int" where
  "db_key_expire ok db key expire_at =
     (if expire_at \<le> 0 \<or> \<not> ht_exists (db_keyspace db) key then (db, EXIT_FAILURE)
      else
        (let (expires, r) = ht_set_i64 ok (db_expires db) key expire_at in
         (db\<lparr>db_expires := expires\<rparr>, r)))"

definition db_get_ttl :: "db \<Rightarrow> cstr \<Rightarrow> int \<Rightarrow> db \<times> int" where
  "db_get_ttl db key now_ms =
     (let (db', _) = db_expire_clean db key now_ms in
      if \<not> ht_exists (db_keyspace db') key then (db', -2)
      else
        (case ht_get_i64 (db_expires db') key of
           None \<Rightarrow> (db', -1)
         | Some expire_at \<Rightarrow> (db', wrap64 (expire_at - now_ms) sdiv 1000)))"

section \<open>The active sweep\<close>

text \<open>
  The rejection loop: draw indices until enough non-empty buckets were picked. The unused
  draws are returned with the picks.
\<close>

fun pick_buckets :: "'v ht_entry list list \<Rightarrow> nat list \<Rightarrow> nat \<Rightarrow> (nat list \<times> nat list) option" where
  "pick_buckets table draws 0 = Some ([], draws)"
| "pick_buckets table [] (Suc n) = None"
| "pick_buckets table (idx # draws) (Suc n) =
     (if table ! idx \<noteq> [] then
        map_option (\<lambda>(picks, rest). (idx # picks, rest)) (pick_buckets table draws n)
      else pick_buckets table draws (Suc n))"

text \<open>
  One chain. \<open>next\<close> is read before the entry is deleted and unlinking an entry leaves the
  \<open>next\<close> pointers behind it alone, so the walk visits the chain as it was at its start.
\<close>

fun sweep_chain :: "(cstr \<Rightarrow> cstr) \<Rightarrow> int \<Rightarrow> int ht_entry list \<Rightarrow> db \<times> nat \<Rightarrow> db \<times> nat" where
  "sweep_chain stale now_ms [] st = st"
| "sweep_chain stale now_ms ((key, t) # es) (db, cleaned) =
     (let (db', c) = db_expire_clean_via stale db key now_ms in
      sweep_chain stale now_ms es (db', cleaned + (if c then 1 else 0)))"

fun sweep_picks :: "(cstr \<Rightarrow> cstr) \<Rightarrow> int \<Rightarrow> nat list \<Rightarrow> db \<times> nat \<Rightarrow> db \<times> nat" where
  "sweep_picks stale now_ms [] st = st"
| "sweep_picks stale now_ms (p # ps) (db, cleaned) =
     sweep_picks stale now_ms ps
       (sweep_chain stale now_ms (ht_get_bucket (db_expires db) p) (db, cleaned))"

definition db_active_sweep ::
    "(cstr \<Rightarrow> cstr) \<Rightarrow> nat list \<Rightarrow> db \<Rightarrow> nat \<Rightarrow> int \<Rightarrow> ((db \<times> nat) \<times> nat list) option" where
  "db_active_sweep stale draws db sample_size now_ms =
     (if ht_used (db_expires db) = 0 then Some ((db, 0), draws)
      else
        (let n = (if ht_used (db_expires db) < sample_size then ht_used (db_expires db)
                  else sample_size) in
         case pick_buckets (ht_table (db_expires db)) draws n of
           None \<Rightarrow> None
         | Some (picks, rest) \<Rightarrow> Some (sweep_picks stale now_ms picks (db, 0), rest)))"

section \<open>Abstraction and invariant\<close>

definition db_abs :: "db \<Rightarrow> kv" where
  "db_abs db k =
     map_option (\<lambda>v. (v, ht_find (db_expires db) k)) (ht_find (db_keyspace db) k)"

text \<open>
  Both tables are well formed and carry the tag their \<open>assert\<close>s test, and every deadline
  belongs to a key that has a value.
\<close>

definition db_inv :: "db \<Rightarrow> bool" where
  "db_inv db \<longleftrightarrow>
     ht_inv (db_keyspace db) \<and> ht_inv (db_expires db) \<and>
     ht_val_type (db_keyspace db) = HT_VAL_STR \<and> ht_val_type (db_expires db) = HT_VAL_I64 \<and>
     dom (ht_find (db_expires db)) \<subseteq> dom (ht_find (db_keyspace db))"

text \<open>The part of it that does not relate the tables. The active sweep keeps no more than this: it
  uses a key after freeing it.\<close>

definition db_wf :: "db \<Rightarrow> bool" where
  "db_wf db \<longleftrightarrow>
     ht_inv (db_keyspace db) \<and> ht_inv (db_expires db) \<and>
     ht_val_type (db_keyspace db) = HT_VAL_STR \<and> ht_val_type (db_expires db) = HT_VAL_I64"

text \<open>The mutation behind each opcode, with every allocation succeeding.\<close>

fun db_run :: "kv_op \<Rightarrow> db \<Rightarrow> db \<times> int" where
  "db_run (KSet k v) db = db_set True db k v"
| "db_run (KDel k) db = db_del db k"
| "db_run (KSetex k v t) db = db_setex True True db k v t"
| "db_run (KExpire k t) db = db_key_expire True db k t"
| "db_run (KPersist k) db = db_persist db k"

section \<open>The operations on the two maps\<close>

lemmas ht_op_defs = ht_set_str_def ht_set_i64_def ht_get_str_def ht_get_i64_def ht_exists_def

lemmas table_laws =
  htab.store_any_inv htab.store_any_status htab.store_any_lookup
  htab.delete_any_inv htab.delete_any_status htab.delete_any_lookup

lemma db_invD:
  assumes "db_inv db"
  shows "ht_inv (db_keyspace db)" "ht_inv (db_expires db)"
    "ht_val_type (db_keyspace db) = HT_VAL_STR" "ht_val_type (db_expires db) = HT_VAL_I64"
    "ht_find (db_keyspace db) k = None \<Longrightarrow> ht_find (db_expires db) k = None"
    "ht_find (db_expires db) k = Some t \<Longrightarrow> \<exists>v. ht_find (db_keyspace db) k = Some v"
  using assms by (auto simp: db_inv_def)

lemma db_create_inv: "db_inv (db_create now)" and db_create_abs: "db_abs (db_create now) = Map.empty"
  by (auto simp: db_inv_def db_create_def ht_create_inv ht_find_map ht_create_map db_abs_def)

lemma db_inv_alt:
  "db_inv db \<longleftrightarrow>
     ht_inv (db_keyspace db) \<and> ht_inv (db_expires db) \<and>
     ht_val_type (db_keyspace db) = HT_VAL_STR \<and> ht_val_type (db_expires db) = HT_VAL_I64 \<and>
     (\<forall>k. ht_find (db_keyspace db) k = None \<longrightarrow> ht_find (db_expires db) k = None)"
  by (auto simp: db_inv_def dom_def)

lemmas db_op_defs =
  db_del_via_def db_del_def db_set_def db_setex_def db_persist_def db_key_expire_def
  ht_op_defs Let_def split_beta

lemma db_abs_None [simp]: "db_abs db k = None \<longleftrightarrow> ht_find (db_keyspace db) k = None"
  by (simp add: db_abs_def)

lemma db_abs_Some: "db_abs db k = Some (v, t) \<longleftrightarrow>
    ht_find (db_keyspace db) k = Some v \<and> ht_find (db_expires db) k = t"
  by (auto simp: db_abs_def)

lemma kv_deadline_db: "db_inv db \<Longrightarrow> kv_deadline (db_abs db) k = ht_find (db_expires db) k"
  using db_invD(5)[of db k] by (auto simp: kv_deadline_def db_abs_def split: option.splits)

lemma db_del_inv: "db_inv db \<Longrightarrow> db_inv (fst (db_del db key))"
  by (auto simp: db_inv_alt db_op_defs table_laws)

lemma db_del_abs: "db_inv db \<Longrightarrow> db_abs (fst (db_del db key)) = (db_abs db)(key := None)"
  by (auto simp: db_abs_def fun_eq_iff db_op_defs table_laws db_invD)

lemma db_del_status:
  "db_inv db \<Longrightarrow> snd (db_del db key) = (if db_abs db key = None then EXIT_FAILURE else EXIT_SUCCESS)"
  by (simp add: db_op_defs table_laws db_invD)

lemma db_set_inv: "db_inv db \<Longrightarrow> db_inv (fst (db_set ok db key v))"
  by (auto simp: db_inv_alt db_op_defs table_laws)

lemma db_set_abs:
  "db_inv db \<Longrightarrow> ok \<or> db_abs db key \<noteq> None \<Longrightarrow>
   db_abs (fst (db_set ok db key v)) = (db_abs db)(key \<mapsto> (v, kv_deadline (db_abs db) key)) \<and>
   snd (db_set ok db key v) = EXIT_SUCCESS"
  by (auto simp: fun_eq_iff kv_deadline_db) (auto simp: db_abs_def db_op_defs table_laws db_invD)

lemma db_setex_inv: "db_inv db \<Longrightarrow> db_inv (fst (db_setex ok1 ok2 db key v t))"
  by (auto simp: db_inv_alt db_op_defs table_laws)

lemma db_setex_abs:
  "db_inv db \<Longrightarrow>
   db_abs (fst (db_setex True True db key v t)) =
     (db_abs db)(key \<mapsto> (v, if 0 < t then Some t else kv_deadline (db_abs db) key)) \<and>
   snd (db_setex True True db key v t) = EXIT_SUCCESS"
  by (auto simp: fun_eq_iff kv_deadline_db) (auto simp: db_abs_def db_op_defs table_laws db_invD)

lemma db_key_expire_inv: "db_inv db \<Longrightarrow> db_inv (fst (db_key_expire ok db key t))"
  by (auto simp: db_inv_alt db_op_defs table_laws)

lemma db_key_expire_ok:
  "db_inv db \<Longrightarrow> kv_apply (KExpire key t) (db_abs db) = Some m \<Longrightarrow>
   db_abs (fst (db_key_expire True db key t)) = m \<and>
   snd (db_key_expire True db key t) = EXIT_SUCCESS"
  by (auto simp: db_op_defs table_laws db_invD db_abs_def split: option.splits if_splits intro!: ext)

lemma db_key_expire_refused:
  "db_inv db \<Longrightarrow> kv_apply (KExpire key t) (db_abs db) = None \<Longrightarrow>
   db_key_expire ok db key t = (db, EXIT_FAILURE)"
  by (auto simp: db_op_defs split: option.splits if_splits)

lemma db_persist_inv: "db_inv db \<Longrightarrow> db_inv (fst (db_persist db key))"
  by (auto simp: db_inv_alt db_op_defs table_laws)

lemma db_persist_ok:
  "db_inv db \<Longrightarrow> kv_apply (KPersist key) (db_abs db) = Some m \<Longrightarrow>
   db_abs (fst (db_persist db key)) = m \<and> snd (db_persist db key) = EXIT_SUCCESS"
  by (auto simp: db_op_defs table_laws db_invD db_abs_def split: option.splits intro!: ext)

lemma db_persist_refused:
  "db_inv db \<Longrightarrow> kv_apply (KPersist key) (db_abs db) = None \<Longrightarrow>
   db_abs (fst (db_persist db key)) = db_abs db \<and> snd (db_persist db key) = EXIT_FAILURE"
  using db_invD(5)[of db key]
  by (auto simp: db_op_defs table_laws db_invD(1-4) db_abs_def split: option.splits intro!: ext)

text \<open>The two tables together implement the abstract store.\<close>

interpretation kvdb: kv_store db_inv db_abs db_run
proof unfold_locales
  fix s :: db and p :: kv_op and m :: kv
  assume inv: "db_inv s"
  show "db_inv (fst (db_run p s))"
    using inv by (cases p) (simp_all add: db_set_inv db_del_inv db_setex_inv db_key_expire_inv
        db_persist_inv)
  show "db_abs (fst (db_run p s)) = m \<and> snd (db_run p s) = EXIT_SUCCESS"
    if ok: "kv_apply p (db_abs s) = Some m"
  proof (cases p)
    case (KExpire k t)
    with ok db_key_expire_ok[OF inv, of k t m] show ?thesis by simp
  next
    case (KPersist k)
    with ok db_persist_ok[OF inv, of k m] show ?thesis by simp
  qed (use ok inv in \<open>auto simp: db_set_abs db_setex_abs db_del_abs db_del_status split: if_splits\<close>)
  show "db_abs (fst (db_run p s)) = db_abs s \<and> snd (db_run p s) = EXIT_FAILURE"
    if refused: "kv_apply p (db_abs s) = None"
  proof (cases p)
    case (KExpire k t)
    with refused db_key_expire_refused[OF inv, of k t] show ?thesis by simp
  next
    case (KPersist k)
    with refused db_persist_refused[OF inv, of k] show ?thesis by simp
  qed (use refused inv in \<open>auto simp: db_del_abs db_del_status fun_upd_idem_iff split: if_splits\<close>)
qed

section \<open>Lazy expiry\<close>

definition db_expired :: "db \<Rightarrow> int \<Rightarrow> cstr \<Rightarrow> bool" where
  "db_expired db now_ms k \<longleftrightarrow> (case ht_find (db_expires db) k of None \<Rightarrow> False | Some t \<Rightarrow> t < now_ms)"

lemma db_expired_iff: "db_expired db now k \<longleftrightarrow> (\<exists>t. ht_find (db_expires db) k = Some t \<and> t < now)"
  by (auto simp: db_expired_def split: option.split)

lemma db_expire_clean_via_cases:
  "db_expire_clean_via stale db key now =
     (if db_expired db now key then (fst (db_del_via stale db key), True) else (db, False))"
  by (auto simp: db_expire_clean_via_def db_expired_def ht_op_defs split: option.split)

lemma db_expire_clean_cases:
  "db_expire_clean db key now =
     (if db_expired db now key then (fst (db_del db key), True) else (db, False))"
  by (simp add: db_expire_clean_def db_del_def db_expire_clean_via_cases)

lemma db_expire_clean_inv: "db_inv db \<Longrightarrow> db_inv (fst (db_expire_clean db key now))"
  by (simp add: db_expire_clean_cases db_del_inv)

lemma db_expired_deadline:
  "db_inv db \<Longrightarrow> db_expired db now k \<longleftrightarrow> (\<exists>t. kv_deadline (db_abs db) k = Some t \<and> t < now)"
  by (simp add: kv_deadline_db db_expired_iff)

lemma db_expire_clean_live:
  "db_inv db \<Longrightarrow> now \<le> now' \<Longrightarrow>
   kv_live now' (db_abs (fst (db_expire_clean db key now))) = kv_live now' (db_abs db)"
  by (auto simp: db_expire_clean_cases db_del_abs db_expired_deadline kv_live_drop_expired)

lemma kv_live_db:
  "db_inv db \<Longrightarrow> kv_live now (db_abs db) k = (if db_expired db now k then None else db_abs db k)"
  using db_invD(6)[of db k] by (auto simp: kv_live_def db_abs_def db_expired_def split: option.split)

lemma db_get_fst: "fst (db_get db key now) = fst (db_expire_clean db key now)"
  by (simp add: db_get_def split_beta)

lemma db_get_result:
  "db_inv db \<Longrightarrow> snd (db_get db key now) = map_option fst (kv_live now (db_abs db) key)"
  by (auto simp: db_get_def db_expire_clean_cases kv_live_db ht_op_defs db_abs_def option.map_comp o_def
      option.map_ident)

lemma db_get_ttl_fst: "fst (db_get_ttl db key now) = fst (db_expire_clean db key now)"
  by (auto simp: db_get_ttl_def split_beta split: option.split)

lemma db_get_ttl_result:
  assumes "db_inv db"
  shows "snd (db_get_ttl db key now) =
    (case kv_live now (db_abs db) key of
       None \<Rightarrow> -2
     | Some (v, None) \<Rightarrow> -1
     | Some (v, Some t) \<Rightarrow> wrap64 (t - now) sdiv 1000)"
proof (cases "db_expired db now key")
  case True
  have "ht_find (db_keyspace (fst (db_del db key))) key = None"
    using db_del_abs[OF assms, of key] by (metis db_abs_None fun_upd_same)
  with True show ?thesis
    using assms by (simp add: db_get_ttl_def db_expire_clean_cases kv_live_db ht_op_defs)
next
  case False
  then show ?thesis
    using assms
    by (auto simp: db_get_ttl_def db_expire_clean_cases kv_live_db ht_op_defs db_abs_def
        split: option.split)
qed

section \<open>What every operation keeps\<close>

lemma db_wfD:
  assumes "db_wf db"
  shows "ht_inv (db_keyspace db)" "ht_inv (db_expires db)"
    "ht_val_type (db_keyspace db) = HT_VAL_STR" "ht_val_type (db_expires db) = HT_VAL_I64"
  using assms by (simp_all add: db_wf_def)

lemma db_inv_wf: "db_inv db \<Longrightarrow> db_wf db"
  by (simp add: db_inv_def db_wf_def)

lemma db_del_via_wf: "db_wf db \<Longrightarrow> db_wf (fst (db_del_via stale db key))"
  by (simp add: db_wf_def db_op_defs table_laws)

lemma db_clean_via_wf: "db_wf db \<Longrightarrow> db_wf (fst (db_expire_clean_via stale db key now))"
  by (simp add: db_expire_clean_via_cases db_del_via_wf)

text \<open>The contract of the keyspace towards the commands: a property of it that implies well-formed
  tables and that every operation keeps, whatever the allocations do.\<close>

locale keyspace_kept =
  fixes P :: "db \<Rightarrow> bool"
  assumes kept_wf: "P db \<Longrightarrow> db_wf db"
    and kept_set: "P db \<Longrightarrow> P (fst (db_set ok db k v))"
    and kept_setex: "P db \<Longrightarrow> P (fst (db_setex ok ok' db k v t))"
    and kept_key_expire: "P db \<Longrightarrow> P (fst (db_key_expire ok db k t))"
    and kept_persist: "P db \<Longrightarrow> P (fst (db_persist db k))"
    and kept_del: "P db \<Longrightarrow> P (fst (db_del db k))"
begin

lemma kept_clean: "P db \<Longrightarrow> P (fst (db_expire_clean db k now))"
  by (simp add: db_expire_clean_cases kept_del)

lemma kept_get: "P db \<Longrightarrow> P (fst (db_get db k now))"
  and kept_get_ttl: "P db \<Longrightarrow> P (fst (db_get_ttl db k now))"
  by (simp_all add: db_get_fst db_get_ttl_fst kept_clean)

lemmas kept_ops = kept_set kept_setex kept_key_expire kept_persist kept_del kept_get kept_get_ttl

end

interpretation invk: keyspace_kept db_inv
  by unfold_locales (simp_all add: db_inv_wf db_set_inv db_setex_inv db_key_expire_inv db_persist_inv db_del_inv)

interpretation wfk: keyspace_kept db_wf
  by unfold_locales (auto simp: db_wf_def db_op_defs table_laws)

section \<open>The active sweep\<close>

lemma ht_del_geometry:
  "ht_size (fst (ht_del ht k)) = ht_size ht" "ht_sizemask (fst (ht_del ht k)) = ht_sizemask ht"
  by (simp_all add: ht_del_def Let_def)

text \<open>The bucket of a key in the \<open>expires\<close> table.\<close>

definition exp_bucket :: "db \<Rightarrow> cstr \<Rightarrow> nat" where
  "exp_bucket db k = ht_index (ht_sizemask (db_expires db)) k"

lemma exp_bucket_keys:
  assumes "ht_inv (db_expires db)" "p < ht_size (db_expires db)"
  shows "fst ` set (ht_get_bucket (db_expires db) p) =
           {k. ht_find (db_expires db) k \<noteq> None \<and> exp_bucket db k = p}"
proof -
  note h = ht_invD[OF assms(1)]
  show ?thesis
    using buckets_ok_nth(2)[OF h(4) assms(2)] h(3)
    by (auto simp: ht_get_bucket_def exp_bucket_def ht_find_def map_of_eq_None_iff
        dest!: map_of_SomeD intro: rev_image_eqI)
qed

text \<open>What cleaning one key does to the \<open>expires\<close> table, whatever the freed key reads as.\<close>

lemma clean_via_expires:
  assumes "ht_inv (db_expires db)" "ht_inv (db_keyspace db)"
  shows "ht_find (db_expires (fst (db_expire_clean_via stale db key now))) =
           (\<lambda>k. if k = key \<and> db_expired db now k then None else ht_find (db_expires db) k)"
    and "ht_inv (db_expires (fst (db_expire_clean_via stale db key now)))"
    and "ht_inv (db_keyspace (fst (db_expire_clean_via stale db key now)))"
    and "exp_bucket (fst (db_expire_clean_via stale db key now)) = exp_bucket db"
    and "ht_size (db_expires (fst (db_expire_clean_via stale db key now))) = ht_size (db_expires db)"
    and "ht_used (db_expires (fst (db_expire_clean_via stale db key now))) +
           (if snd (db_expire_clean_via stale db key now) then 1 else 0) = ht_used (db_expires db)"
proof -
  have pos: "ht_used (db_expires db) > 0" if "db_expired db now key"
  proof -
    have "dom (ht_find (db_expires db)) \<noteq> {}" using that by (auto simp: db_expired_iff)
    then show ?thesis
      using assms by (simp add: htab.entries_card card_gt_0_iff htab.finite_lookup)
  qed
  show "ht_find (db_expires (fst (db_expire_clean_via stale db key now))) =
           (\<lambda>k. if k = key \<and> db_expired db now k then None else ht_find (db_expires db) k)"
    "ht_inv (db_expires (fst (db_expire_clean_via stale db key now)))"
    "ht_inv (db_keyspace (fst (db_expire_clean_via stale db key now)))"
    "exp_bucket (fst (db_expire_clean_via stale db key now)) = exp_bucket db"
    "ht_size (db_expires (fst (db_expire_clean_via stale db key now))) = ht_size (db_expires db)"
    "ht_used (db_expires (fst (db_expire_clean_via stale db key now))) +
       (if snd (db_expire_clean_via stale db key now) then 1 else 0) = ht_used (db_expires db)"
    using assms pos
    by (auto simp: db_expire_clean_via_cases db_del_via_def Let_def split_beta table_laws
        exp_bucket_def[abs_def] ht_del_geometry htab.entries_delete db_expired_iff fun_eq_iff)
qed

lemma clean_via_expired:
  assumes "ht_inv (db_expires db)" "ht_inv (db_keyspace db)"
  shows "db_expired (fst (db_expire_clean_via stale db key now)) now k \<longleftrightarrow>
           k \<noteq> key \<and> db_expired db now k"
  using clean_via_expires(1)[OF assms, of stale key now] by (auto simp: db_expired_def)

lemma sweep_chain_expires:
  assumes "ht_inv (db_expires db)" "ht_inv (db_keyspace db)"
    and "sweep_chain stale now es (db, n) = (db', n')"
  shows "ht_inv (db_expires db') \<and> ht_inv (db_keyspace db') \<and>
         ht_find (db_expires db') =
           (\<lambda>k. if k \<in> fst ` set es \<and> db_expired db now k then None else ht_find (db_expires db) k) \<and>
         exp_bucket db' = exp_bucket db \<and> ht_size (db_expires db') = ht_size (db_expires db) \<and>
         ht_used (db_expires db') + n' = ht_used (db_expires db) + n"
  using assms
proof (induction es arbitrary: db n)
  case Nil
  then show ?case by simp
next
  case (Cons e es)
  obtain key t where e: "e = (key, t)" by (cases e)
  obtain db1 c where clean: "db_expire_clean_via stale db key now = (db1, c)" by force
  note one = clean_via_expires[OF Cons.prems(1,2), of stale key now, unfolded clean fst_conv snd_conv]
  have gone: "db_expired db1 now k \<longleftrightarrow> k \<noteq> key \<and> db_expired db now k" for k
    using clean_via_expired[OF Cons.prems(1,2), of stale key now k] clean by simp
  have "sweep_chain stale now es (db1, n + (if c then 1 else 0)) = (db', n')"
    using Cons.prems(3) clean by (simp add: e)
  from Cons.IH[OF one(2,3) this] one gone show ?case
    by (auto simp: e fun_eq_iff)
qed

lemma sweep_picks_expires:
  assumes "ht_inv (db_expires db)" "ht_inv (db_keyspace db)"
    and "\<forall>p \<in> set picks. p < ht_size (db_expires db)"
    and "sweep_picks stale now picks (db, n) = (db', n')"
  shows "ht_inv (db_expires db') \<and> ht_inv (db_keyspace db') \<and>
         ht_find (db_expires db') =
           (\<lambda>k. if exp_bucket db k \<in> set picks \<and> db_expired db now k then None
                else ht_find (db_expires db) k) \<and>
         ht_used (db_expires db') + n' = ht_used (db_expires db) + n"
  using assms
proof (induction picks arbitrary: db n)
  case Nil
  then show ?case by simp
next
  case (Cons p ps)
  let ?es = "ht_get_bucket (db_expires db) p"
  obtain db1 n1 where chain: "sweep_chain stale now ?es (db, n) = (db1, n1)" by force
  note one = sweep_chain_expires[OF Cons.prems(1,2) chain]
  have keys: "fst ` set ?es = {k. ht_find (db_expires db) k \<noteq> None \<and> exp_bucket db k = p}"
    using Cons.prems by (intro exp_bucket_keys) auto
  have find1: "ht_find (db_expires db1) =
      (\<lambda>k. if exp_bucket db k = p \<and> db_expired db now k then None else ht_find (db_expires db) k)"
    using one keys by (auto simp: fun_eq_iff db_expired_iff)
  have expired1: "db_expired db1 now k \<longleftrightarrow> exp_bucket db k \<noteq> p \<and> db_expired db now k" for k
    using find1 by (auto simp: db_expired_def)
  have "sweep_picks stale now ps (db1, n1) = (db', n')"
    using Cons.prems(4) chain by simp
  moreover have "\<forall>p \<in> set ps. p < ht_size (db_expires db1)" using Cons.prems(3) one by simp
  moreover have "ht_inv (db_expires db1)" "ht_inv (db_keyspace db1)"
    and geo: "exp_bucket db1 = exp_bucket db"
      "ht_used (db_expires db1) + n1 = ht_used (db_expires db) + n"
    using one by blast+
  ultimately have ih: "ht_inv (db_expires db') \<and> ht_inv (db_keyspace db') \<and>
      ht_find (db_expires db') =
        (\<lambda>k. if exp_bucket db k \<in> set ps \<and> db_expired db1 now k then None
             else ht_find (db_expires db1) k) \<and>
      ht_used (db_expires db') + n' = ht_used (db_expires db1) + n1"
    using Cons.IH[of db1 n1] by simp
  show ?case
    using ih geo(2) unfolding find1 expired1 by (auto simp: fun_eq_iff)
qed

text \<open>With a freed key that still reads as it did, the value goes together with the deadline.\<close>

lemma clean_id_abs:
  "db_inv db \<Longrightarrow>
   db_abs (fst (db_expire_clean_via (\<lambda>k. k) db key now)) =
     (\<lambda>k. if k = key \<and> db_expired db now k then None else db_abs db k)"
  by (auto simp: db_expire_clean_via_cases db_del_abs[unfolded db_del_def] fun_eq_iff)

lemma sweep_chain_abs:
  assumes "db_inv db" and "sweep_chain (\<lambda>k. k) now es (db, n) = (db', n')"
  shows "db_inv db' \<and>
         db_abs db' = (\<lambda>k. if k \<in> fst ` set es \<and> db_expired db now k then None else db_abs db k)"
  using assms
proof (induction es arbitrary: db n)
  case Nil
  then show ?case by simp
next
  case (Cons e es)
  obtain key t where e: "e = (key, t)" by (cases e)
  obtain db1 c where clean: "db_expire_clean_via (\<lambda>k. k) db key now = (db1, c)" by force
  have one: "db_abs db1 = (\<lambda>k. if k = key \<and> db_expired db now k then None else db_abs db k)"
    using clean_id_abs[OF Cons.prems(1), of key now] clean by simp
  have inv1: "db_inv db1"
    using db_expire_clean_inv[OF Cons.prems(1), of key now] clean by (simp add: db_expire_clean_def)
  have gone: "db_expired db1 now k \<longleftrightarrow> k \<noteq> key \<and> db_expired db now k" for k
    using clean_via_expired[of db "\<lambda>k. k" key now k] db_invD(1,2)[OF Cons.prems(1)] clean by simp
  have "sweep_chain (\<lambda>k. k) now es (db1, n + (if c then 1 else 0)) = (db', n')"
    using Cons.prems(2) clean by (simp add: e)
  from Cons.IH[OF inv1 this] one gone show ?case by (auto simp: e fun_eq_iff)
qed

lemma sweep_picks_abs:
  assumes "db_inv db" and "\<forall>p \<in> set picks. p < ht_size (db_expires db)"
    and "sweep_picks (\<lambda>k. k) now picks (db, n) = (db', n')"
  shows "db_inv db' \<and>
         db_abs db' =
           (\<lambda>k. if exp_bucket db k \<in> set picks \<and> db_expired db now k then None else db_abs db k)"
  using assms
proof (induction picks arbitrary: db n)
  case Nil
  then show ?case by simp
next
  case (Cons p ps)
  let ?es = "ht_get_bucket (db_expires db) p"
  obtain db1 n1 where chain: "sweep_chain (\<lambda>k. k) now ?es (db, n) = (db1, n1)" by force
  note one = sweep_chain_abs[OF Cons.prems(1) chain]
  note exps = sweep_chain_expires[OF db_invD(2,1)[OF Cons.prems(1)] chain]
  have keys: "fst ` set ?es = {k. ht_find (db_expires db) k \<noteq> None \<and> exp_bucket db k = p}"
    using Cons.prems(1,2) by (intro exp_bucket_keys) (auto simp: db_invD)
  have expired1: "db_expired db1 now k \<longleftrightarrow> exp_bucket db k \<noteq> p \<and> db_expired db now k" for k
    using exps keys by (auto simp: db_expired_iff)
  have "sweep_picks (\<lambda>k. k) now ps (db1, n1) = (db', n')" using Cons.prems(3) chain by simp
  moreover have "\<forall>p \<in> set ps. p < ht_size (db_expires db1)" using Cons.prems(2) exps by simp
  ultimately have "db_inv db' \<and> db_abs db' =
      (\<lambda>k. if exp_bucket db k \<in> set ps \<and> db_expired db1 now k then None else db_abs db1 k)"
    using Cons.IH[of db1 n1] one exps by simp
  then show ?case using one expired1 keys by (auto simp: fun_eq_iff db_expired_iff)
qed

text \<open>The draws that were picked are draws, they hit buckets in use and there are enough.\<close>

lemma pick_buckets_sound:
  "pick_buckets table draws n = Some (picks, rest) \<Longrightarrow>
   length picks = n \<and> set picks \<subseteq> set draws \<and> (\<forall>p \<in> set picks. table ! p \<noteq> [])"
proof (induction table draws n arbitrary: picks rule: pick_buckets.induct)
  case (3 table idx draws n)
  show ?case
  proof (cases "table ! idx = []")
    case True
    with 3 show ?thesis by auto
  next
    case False
    with "3.prems" obtain ps where "pick_buckets table draws n = Some (ps, rest)" "picks = idx # ps"
      by auto
    with "3.IH"(1)[OF False, of ps] False show ?thesis by auto
  qed
qed auto

lemma pick_buckets_complete:
  "n \<le> length (filter (\<lambda>d. table ! d \<noteq> []) draws) \<Longrightarrow> \<exists>picks rest. pick_buckets table draws n = Some (picks, rest)"
proof (induction table draws n rule: pick_buckets.induct)
  case (3 table idx draws n)
  then show ?case by (cases "table ! idx = []") auto
qed auto

text \<open>A table in use has a bucket the sampling loop can pick.\<close>

lemma used_has_bucket:
  assumes "ht_inv ht" "0 < ht_used ht"
  shows "\<exists>i < ht_size ht. ht_table ht ! i \<noteq> []"
  using concat_nonempty_nth[of "ht_table ht"] ht_invD(4,5)[OF assms(1)] assms(2)
  by (auto simp: buckets_ok_length)

text \<open>
  The sweep when a freed key reads as something that is not a key: the values stay and only
  the deadlines go.
\<close>

lemma clean_via_stale_keyspace:
  assumes "ht_inv (db_keyspace db)" "\<forall>k. ht_find (db_keyspace db) (stale k) = None"
  shows "db_keyspace (fst (db_expire_clean_via stale db key now)) = db_keyspace db"
proof (cases "db_expired db now key")
  case True
  then have "snd (ht_del (db_expires db) key) = EXIT_SUCCESS"
    by (auto simp: db_expired_iff ht_del_def ht_find_def Let_def)
  with assms True show ?thesis
    by (simp add: db_expire_clean_via_cases db_del_via_def Let_def split_beta htab.delete_fail)
qed (simp add: db_expire_clean_via_cases)

lemma sweep_chain_stale_keyspace:
  assumes "ht_inv (db_keyspace db)" "\<forall>k. ht_find (db_keyspace db) (stale k) = None"
  shows "db_keyspace (fst (sweep_chain stale now es (db, n))) = db_keyspace db"
  using assms
proof (induction es arbitrary: db n)
  case (Cons e es)
  obtain key t where e: "e = (key, t)" by (cases e)
  obtain db1 c where clean: "db_expire_clean_via stale db key now = (db1, c)" by force
  have "db_keyspace db1 = db_keyspace db"
    using clean_via_stale_keyspace[OF Cons.prems, of key now] clean by simp
  with Cons.IH[of db1 "n + (if c then 1 else 0)"] Cons.prems clean show ?case by (simp add: e)
qed simp

lemma sweep_picks_stale_keyspace:
  assumes "ht_inv (db_keyspace db)" "\<forall>k. ht_find (db_keyspace db) (stale k) = None"
  shows "db_keyspace (fst (sweep_picks stale now ps (db, n))) = db_keyspace db"
  using assms
proof (induction ps arbitrary: db n)
  case (Cons p ps)
  obtain db1 n1 where chain: "sweep_chain stale now (ht_get_bucket (db_expires db) p) (db, n) = (db1, n1)"
    by force
  have "db_keyspace db1 = db_keyspace db"
    using sweep_chain_stale_keyspace[OF Cons.prems] chain by (metis fst_conv)
  with Cons.IH[of db1 n1] Cons.prems chain show ?case by simp
qed simp

text \<open>A sweep that returns, whatever the freed keys read as, and when they read as they did.\<close>

lemma sweep_picked:
  assumes "db_active_sweep stale draws db sample now = Some ((db', cleaned), rest)"
  shows "\<exists>picks. set picks \<subseteq> set draws \<and> length picks = min sample (ht_used (db_expires db)) \<and>
    (\<forall>p \<in> set picks. ht_table (db_expires db) ! p \<noteq> []) \<and> sweep_picks stale now picks (db, 0) = (db', cleaned)"
proof (cases "ht_used (db_expires db) = 0")
  case True
  with assms show ?thesis by (intro exI[of _ "[]"]) (simp add: db_active_sweep_def)
next
  case False
  then obtain picks where "pick_buckets (ht_table (db_expires db)) draws (min sample (ht_used (db_expires db))) = Some (picks, rest)"
      "sweep_picks stale now picks (db, 0) = (db', cleaned)"
    using assms by (auto simp: db_active_sweep_def Let_def min_def split: option.splits if_splits)
  with pick_buckets_sound[OF this(1)] show ?thesis by blast
qed

lemma sweep_chain_wf: "db_wf (fst st) \<Longrightarrow> db_wf (fst (sweep_chain stale now es st))"
proof (induction es arbitrary: st)
  case (Cons e es)
  then show ?case using db_clean_via_wf[of "fst st"] by (cases st, cases e) (simp add: split_beta Let_def)
qed simp

lemma sweep_picks_wf: "db_wf (fst st) \<Longrightarrow> db_wf (fst (sweep_picks stale now ps st))"
proof (induction ps arbitrary: st)
  case (Cons p ps)
  then show ?case using sweep_chain_wf[of st] by (cases st) simp
qed simp

lemma sweep_tables:
  assumes "db_wf db" "\<forall>d \<in> set draws. d < ht_size (db_expires db)"
    and "db_active_sweep stale draws db sample now = Some ((db', cleaned), rest)"
  shows "db_wf db'" "ht_used (db_expires db') + cleaned = ht_used (db_expires db)"
proof -
  obtain picks where p: "set picks \<subseteq> set draws" "sweep_picks stale now picks (db, 0) = (db', cleaned)"
    using sweep_picked[OF assms(3)] by blast
  then have "\<forall>p \<in> set picks. p < ht_size (db_expires db)" using assms(2) by blast
  from sweep_picks_expires[OF db_wfD(2,1)[OF assms(1)] this p(2)]
  show "ht_used (db_expires db') + cleaned = ht_used (db_expires db)" by simp
  show "db_wf db'" using sweep_picks_wf[of "(db, 0)" stale now picks] assms(1) p(2) by simp
qed

lemma sweep_values:
  assumes "db_inv db" "\<forall>d \<in> set draws. d < ht_size (db_expires db)"
    and "db_active_sweep (\<lambda>k. k) draws db sample now = Some ((db', cleaned), rest)"
  shows "db_inv db'" "\<forall>now' \<ge> now. kv_live now' (db_abs db') = kv_live now' (db_abs db)"
proof -
  obtain picks where p: "set picks \<subseteq> set draws" "sweep_picks (\<lambda>k. k) now picks (db, 0) = (db', cleaned)"
    using sweep_picked[OF assms(3)] by blast
  then have "\<forall>p \<in> set picks. p < ht_size (db_expires db)" using assms(2) by blast
  note abs = sweep_picks_abs[OF assms(1) this p(2)]
  then show "db_inv db'" by simp
  show "\<forall>now' \<ge> now. kv_live now' (db_abs db') = kv_live now' (db_abs db)"
    using abs db_invD(6)[OF assms(1)]
    by (auto simp: kv_live_def fun_eq_iff db_expired_iff db_abs_Some split: option.splits)
qed

text \<open>Before the first deadline a sweep does nothing.\<close>

lemma sweep_idle:
  assumes idle: "\<forall>k. \<not> db_expired db now k"
    and "db_active_sweep stale draws db sample now = Some ((db', cleaned), rest)"
  shows "db' = db"
proof -
  have clean: "db_expire_clean_via stale db k now = (db, False)" for k
    using idle by (simp add: db_expire_clean_via_cases)
  have chain: "sweep_chain stale now es (db, n) = (db, n)" for es n
    by (induction es) (auto simp: clean)
  have "sweep_picks stale now ps (db, n) = (db, n)" for ps n
    by (induction ps) (simp_all add: chain)
  with sweep_picked[OF assms(2)] show ?thesis by auto
qed

section \<open>Properties\<close>

text \<open>C22: When its allocations succeed, each mutation of the keyspace implements the abstract store:
  when the abstract store accepts it, the function returns \<open>EXIT_SUCCESS\<close> and both tables together stand for
  the abstract result; when it is refused, the function returns \<open>EXIT_FAILURE\<close> and no key
  changed. The invariant, with every deadline owned by a key that exists, is kept.\<close>

theorem db_refines_store:
  assumes "db_inv db"
  shows "db_inv (fst (db_run p db)) \<and>
         (case kv_apply p (db_abs db) of
            Some m \<Rightarrow> db_abs (fst (db_run p db)) = m \<and> snd (db_run p db) = EXIT_SUCCESS
          | None \<Rightarrow> db_abs (fst (db_run p db)) = db_abs db \<and> snd (db_run p db) = EXIT_FAILURE)"
  using kvdb.run_inv[OF assms] kvdb.run_ok[OF assms] kvdb.run_refused[OF assms]
  by (simp split: option.split)

theorem db_refines_store_witness:
  "snd (db_run (KPersist (lit ''k'')) (db_create 0)) = 1 \<and>
   db_abs (fst (db_run (KSetex (lit ''k'') (lit ''v'') 7) (db_create 0)))
     = [lit ''k'' \<mapsto> (lit ''v'', Some 7)]"
  using db_refines_store[OF db_create_inv[of 0], of "KPersist (lit ''k'')"]
    db_refines_store[OF db_create_inv[of 0], of "KSetex (lit ''k'') (lit ''v'') 7"]
  by (simp add: db_create_abs)

text \<open>C29: The invariant survives every operation that a command performs, reads and lazy expiry included,
  whether the allocation of a new entry succeeds or fails (the only one the code tests; copying
  a string and growing the table are taken to succeed). The active sweep, which uses keys after
  freeing them, keeps both tables well formed whatever the freed keys read as, and the whole
  invariant when they still read as they did.\<close>

theorem db_inv_any_allocation:
  assumes "db_inv db"
  shows "db_inv (fst (db_set ok db k v)) \<and> db_inv (fst (db_setex ok ok' db k v t))
       \<and> db_inv (fst (db_key_expire ok db k t)) \<and> db_inv (fst (db_persist db k))
       \<and> db_inv (fst (db_del db k)) \<and> db_inv (fst (db_get db k now))
       \<and> db_inv (fst (db_get_ttl db k now))
       \<and> (\<forall>stale draws n db' c rest. (\<forall>d \<in> set draws. d < ht_size (db_expires db)) \<and>
            db_active_sweep stale draws db n now = Some ((db', c), rest) \<longrightarrow>
            db_wf db' \<and> (stale = (\<lambda>k. k) \<longrightarrow> db_inv db'))"
proof (intro conjI allI impI)
  fix stale draws n db' c rest
  assume r: "(\<forall>d \<in> set draws. d < ht_size (db_expires db)) \<and>
    db_active_sweep stale draws db n now = Some ((db', c), rest)"
  show "db_wf db'" using sweep_tables(1)[OF db_inv_wf[OF assms]] r by blast
  show "db_inv db'" if "stale = (\<lambda>k. k)" using sweep_values(1)[OF assms] r that by blast
qed (simp_all add: invk.kept_ops[OF assms])

theorem db_inv_any_allocation_witness:
  "db_inv (fst (db_setex True False (db_create 0) (lit ''k'') (lit ''v'') 7))"
  using db_inv_any_allocation[OF db_create_inv, where ok = True and k = "lit ''k''" and ok' = False]
  by blast

lemma db_k7_inv: "db_inv (fst (db_run (KSetex (lit ''k'') (lit ''v'') 7) (db_create 0)))"
  by (rule kvdb.run_inv) (rule db_create_inv)

lemma db_k7_abs: "db_abs (fst (db_run (KSetex (lit ''k'') (lit ''v'') 7) (db_create 0)))
    = [lit ''k'' \<mapsto> (lit ''v'', Some 7)]"
  using kvdb.run_ok[OF db_create_inv, of "KSetex (lit ''k'') (lit ''v'') 7" 0] by (simp add: db_create_abs)

text \<open>C27: \<open>db_get_ttl\<close> returns -2 for a key that is not live, -1 for one without a deadline
  and otherwise the whole seconds left, and its lazy deletion is invisible.\<close>

theorem db_get_ttl_cases:
  assumes "db_inv db"
  shows "snd (db_get_ttl db k now) =
           (case kv_live now (db_abs db) k of
              None \<Rightarrow> -2 | Some (v, None) \<Rightarrow> -1 | Some (v, Some t) \<Rightarrow> wrap64 (t - now) sdiv 1000)
       \<and> (\<forall>now' \<ge> now. kv_live now' (db_abs (fst (db_get_ttl db k now))) = kv_live now' (db_abs db))"
  using assms by (simp add: db_get_ttl_result db_get_ttl_fst db_expire_clean_live)

theorem db_get_ttl_cases_witness:
  "let db = fst (db_run (KSetex (lit ''k'') (lit ''v'') 7) (db_create 0)) in
   snd (db_get_ttl db (lit ''k'') (-2000)) = 2 \<and> snd (db_get_ttl db (lit ''k'') 8) = -2"
  using db_get_ttl_cases[OF db_k7_inv, of "lit ''k''" "-2000"]
    db_get_ttl_cases[OF db_k7_inv, of "lit ''k''" 8]
  by (simp add: Let_def db_k7_abs kv_live_def i64_range_def del: db_run.simps)

text \<open>C26: The active sweep, whatever a freed key reads as: it removes exactly the expired deadlines of the
  buckets it sampled, returns how many went and keeps both tables well formed. As long as a
  freed key still reads as it did, the values go with the deadlines, the invariant is kept and
  no reader at that time or later sees a difference; when freed keys read as no key at all, no
  value is deleted and the keys it visited never expire.\<close>

theorem db_active_sweep_deletes_expired:
  assumes "db_inv db" "\<forall>d \<in> set draws. d < ht_size (db_expires db)"
    and "db_active_sweep stale draws db sample_size now = Some ((db', cleaned), rest)"
  shows "\<exists>picks. set picks \<subseteq> set draws \<and> length picks = min sample_size (ht_used (db_expires db)) \<and>
      (\<forall>p \<in> set picks. ht_table (db_expires db) ! p \<noteq> []) \<and>
      db_wf db' \<and> ht_used (db_expires db') + cleaned = ht_used (db_expires db) \<and>
      ht_find (db_expires db') =
        (\<lambda>k. if exp_bucket db k \<in> set picks \<and> db_expired db now k then None else ht_find (db_expires db) k) \<and>
      (stale = (\<lambda>k. k) \<longrightarrow>
         db_inv db' \<and> (\<forall>now' \<ge> now. kv_live now' (db_abs db') = kv_live now' (db_abs db)) \<and>
         db_abs db' = (\<lambda>k. if exp_bucket db k \<in> set picks \<and> db_expired db now k then None else db_abs db k)) \<and>
      ((\<forall>k. ht_find (db_keyspace db) (stale k) = None) \<longrightarrow>
         db_abs db' = (\<lambda>k. map_option (\<lambda>(v, t). (v, if exp_bucket db k \<in> set picks \<and> db_expired db now k then None else t))
                             (db_abs db k)))"
proof -
  note wf = db_inv_wf[OF assms(1)]
  obtain picks where p: "set picks \<subseteq> set draws" "length picks = min sample_size (ht_used (db_expires db))"
      "\<forall>p \<in> set picks. ht_table (db_expires db) ! p \<noteq> []" "sweep_picks stale now picks (db, 0) = (db', cleaned)"
    using sweep_picked[OF assms(3)] by blast
  have bounds: "\<forall>p \<in> set picks. p < ht_size (db_expires db)" using p(1) assms(2) by blast
  note exps = sweep_picks_expires[OF db_wfD(2,1)[OF wf] bounds p(4)]
  have gone: "db_abs db' = (\<lambda>k. map_option (\<lambda>(v, t). (v, if exp_bucket db k \<in> set picks \<and> db_expired db now k then None else t))
                             (db_abs db k))" if "\<forall>k. ht_find (db_keyspace db) (stale k) = None"
  proof -
    have "db_keyspace db' = db_keyspace db"
      using sweep_picks_stale_keyspace[OF db_wfD(1)[OF wf] that, of now picks 0] p(4) by simp
    then show ?thesis using exps by (auto simp: db_abs_def option.map_comp o_def)
  qed
  have "db_inv db' \<and> (\<forall>now' \<ge> now. kv_live now' (db_abs db') = kv_live now' (db_abs db)) \<and>
      db_abs db' = (\<lambda>k. if exp_bucket db k \<in> set picks \<and> db_expired db now k then None else db_abs db k)"
    if "stale = (\<lambda>k. k)"
    using sweep_picks_abs[OF assms(1) bounds] p(4) sweep_values[OF assms(1,2)] assms(3) that by blast
  then show ?thesis
    using p(1-3) exps gone sweep_tables[OF wf assms(2,3)] by (intro exI[of _ picks] conjI impI) blast+
qed

theorem db_active_sweep_deletes_expired_witness:
  "\<exists>db' rest. db_active_sweep (\<lambda>k. k) [0, 1, 2, 3]
       (fst (db_run (KSetex (lit ''k'') (lit ''v'') 7) (db_create 0))) 20 8 = Some ((db', 1), rest)
     \<and> ht_used (db_expires db') = 0 \<and> kv_live 8 (db_abs db') = Map.empty"
proof -
  let ?db = "fst (db_run (KSetex (lit ''k'') (lit ''v'') 7) (db_create 0))"
  have size: "ht_size (db_expires ?db) = 4"
    by (simp add: db_setex_def db_create_def ht_op_defs ht_set_def ht_upsert_def ht_create_def
        HT_INITIAL_SIZE_def lit_def ht_index_def ht_hash_def Let_def over_load_factor_def)
  have ran: "\<exists>db' rest. db_active_sweep (\<lambda>k. k) [0, 1, 2, 3] ?db 20 8 = Some ((db', 1), rest)"
    by (simp add: db_setex_def db_create_def ht_op_defs ht_set_def ht_upsert_def ht_create_def
        HT_INITIAL_SIZE_def lit_def ht_index_def ht_hash_def Let_def over_load_factor_def
        db_active_sweep_def numeral_nat ht_get_bucket_def db_expire_clean_via_def db_del_via_def
        ht_del_def ht_find_def)
  have used: "ht_used (db_expires ?db) = 1"
    by (simp add: db_setex_def db_create_def ht_op_defs ht_set_def ht_upsert_def ht_create_def
        HT_INITIAL_SIZE_def lit_def ht_index_def ht_hash_def Let_def over_load_factor_def)
  have live: "kv_live 8 (db_abs ?db) = Map.empty"
    unfolding db_k7_abs by (auto simp: kv_live_def fun_eq_iff)
  have draws: "\<forall>d \<in> set [0, 1, 2, 3]. d < ht_size (db_expires ?db)" using size by simp
  from ran obtain db' rest
    where r: "db_active_sweep (\<lambda>k. k) [0, 1, 2, 3] ?db 20 8 = Some ((db', 1), rest)" by blast
  have "ht_used (db_expires db') + 1 = ht_used (db_expires ?db)" "kv_live 8 (db_abs db') = kv_live 8 (db_abs ?db)"
    using db_active_sweep_deletes_expired[OF db_k7_inv draws r] by blast+
  with r used live show ?thesis by auto
qed

text \<open>The rejection loop of the sweep can end: whenever the \<open>expires\<close> table is in use
  some index of the array hits a bucket, and draws with enough hits make the sweep return.\<close>

lemma db_active_sweep_returns:
  assumes "db_inv db" "0 < ht_used (db_expires db)"
  shows "(\<exists>i < ht_size (db_expires db). ht_table (db_expires db) ! i \<noteq> []) \<and>
         (min sample_size (ht_used (db_expires db))
            \<le> length (filter (\<lambda>d. ht_table (db_expires db) ! d \<noteq> []) draws)
          \<longrightarrow> (\<exists>r. db_active_sweep stale draws db sample_size now = Some r))"
  using used_has_bucket[OF db_invD(2)[OF assms(1)] assms(2)]
    pick_buckets_complete[of "min sample_size (ht_used (db_expires db))" "ht_table (db_expires db)" draws]
  by (auto simp: db_active_sweep_def Let_def min_def split: if_splits)

text \<open>A plain set leaves the deadline of the key in place, so a set on a key that has
  expired and was not cleaned yet reports success and is gone at the next read.\<close>

lemma db_set_keeps_deadline:
  assumes "db_inv db" "ok \<or> db_abs db k \<noteq> None"
  shows "snd (db_set ok db k v) = EXIT_SUCCESS \<and>
         snd (db_get (fst (db_set ok db k v)) k now) =
           (if db_expired db now k then None else Some v)"
proof -
  have "ht_find (db_expires (fst (db_set ok db k v))) = ht_find (db_expires db)"
    by (simp add: db_set_def split_beta)
  then have "db_expired (fst (db_set ok db k v)) now k = db_expired db now k"
    by (simp add: db_expired_def)
  moreover have "db_abs (fst (db_set ok db k v)) k = Some (v, kv_deadline (db_abs db) k)"
    "snd (db_set ok db k v) = EXIT_SUCCESS"
    using db_set_abs[OF assms, of v] by simp_all
  ultimately show ?thesis
    by (simp add: db_get_result db_set_inv assms(1) kv_live_db[OF db_set_inv])
qed

end
