(* ===== verification/Aof_Load.thy ===== *)
theory Aof_Load
  imports Aof_Format Db
begin

text \<open>
  Recovery (\<open>aof.c\<close>: \<open>aof_replay_record\<close>, \<open>aof_quarantine_tail\<close>, \<open>aof_load\<close>): the
  log is read record by record and replayed into the keyspace up to the first record
  that is torn, fails its checksum or is refused; what follows is copied to a quarantine
  file and cut off.

  The stack buffer \<open>record\<close> is modelled with its 4096 bytes, because its contents survive
  from one record to the next and because nothing bounds \<open>body_len\<close> by its size: an
  execution that writes or reads outside one of the arrays is the value \<open>Overrun\<close> of a
  read, or \<open>None\<close>. The clock is read once per record, so the times are a function of the
  record's number; so are the outcomes of the allocations a replayed mutation makes.
\<close>

section \<open>Reading one record\<close>

text \<open>Why the loop stops in front of the end of the file.\<close>

datatype load_break =
    HeaderReadError
  | TruncatedHeader
  | TruncatedBody
  | CrcMismatch
  | ReplayFailed

datatype record_read =
    CleanEof
  | Stop load_break
  | Overrun
  | Record "byte list" nat

text \<open>
  One pass of the loop up to the checksum test: the header into the buffer, the body
  behind it. The buffer is overrun when more bytes arrive than it has room for.
\<close>

definition aof_read_record ::
    "sys list \<Rightarrow> byte list \<Rightarrow> byte list \<Rightarrow> record_read \<times> byte list \<times> sys list" where
  "aof_read_record rs data rec =
     (case read_exact rs data AOF_HEADER_SIZE of
        (None, data1, rs1) \<Rightarrow> (Stop HeaderReadError, data1, rs1)
      | (Some hdr, data1, rs1) \<Rightarrow>
          if hdr = [] then (CleanEof, data1, rs1)
          else if length hdr < AOF_HEADER_SIZE then (Stop TruncatedHeader, data1, rs1)
          else
            (let rec1 = put rec 0 hdr;
                 body_len = be_dec (bytes_at AOF_CRC_SIZE AOF_BODYLEN_SIZE rec1) in
             case read_exact rs1 data1 body_len of
               (body, data2, rs2) \<Rightarrow>
                 if AOF_RECORD_MAX < AOF_HEADER_SIZE + (length data1 - length data2)
                 then (Overrun, data2, rs2)
                 else
                   (case body of
                      None \<Rightarrow> (Stop TruncatedBody, data2, rs2)
                    | Some bs \<Rightarrow>
                        if length bs < body_len then (Stop TruncatedBody, data2, rs2)
                        else
                          (let rec2 = put rec1 AOF_HEADER_SIZE bs;
                               crc_stored = de64 (bytes_at 0 AOF_CRC_SIZE rec2);
                               crc_computed =
                                 crc64 0 (bytes_at AOF_CRC_SIZE (body_len + AOF_BODYLEN_SIZE) rec2) in
                           if crc_stored \<noteq> crc_computed then (Stop CrcMismatch, data2, rs2)
                           else (Record rec2 body_len, data2, rs2)))))"

section \<open>Replaying one record\<close>

text \<open>
  \<open>aof_replay_record\<close> on the part of the buffer behind the record header. The sums of the
  two lengths are computed in 32 bits. \<open>None\<close> when a copy would leave an array.
\<close>

definition aof_replay_record ::
    "int \<Rightarrow> bool \<times> bool \<Rightarrow> byte list \<Rightarrow> nat \<Rightarrow> db \<Rightarrow> (db \<times> int) option" where
  "aof_replay_record now mem buf body_len db =
     (let opcode = unat (buf ! 0);
          key_len = be_dec (bytes_at 1 2 buf);
          val_len = be_dec (bytes_at 3 4 buf);
          expire_at = sint (de64 (bytes_at 7 8 buf));
          off = 15 in
      if 0 < expire_at \<and> expire_at < now then Some (db, EXIT_SUCCESS)
      else if MSG_MAX < (key_len + val_len) mod 2 ^ 32
              \<or> (AOF_BODY_FIXED + key_len + val_len) mod 2 ^ 32 \<noteq> body_len
      then Some (db, EXIT_FAILURE)
      else if MSG_MAX < key_len \<or> MSG_MAX < val_len \<or> length buf < off + key_len + val_len
      then None
      else
        (let key = cstr_of (bytes_at off key_len buf);
             val = cstr_of (bytes_at (off + key_len) val_len buf) in
         Some
           (if opcode = opcode_val AOF_OP_SET then db_set (fst mem) db key val
            else if opcode = opcode_val AOF_OP_DEL then db_del db key
            else if opcode = opcode_val AOF_OP_SETEX
              then db_setex (fst mem) (snd mem) db key val expire_at
            else if opcode = opcode_val AOF_OP_EXPIRE then db_key_expire (fst mem) db key expire_at
            else if opcode = opcode_val AOF_OP_PERSIST then db_persist db key
            else (db, EXIT_FAILURE))))"

section \<open>The loop\<close>

lemma aof_read_record_shrinks:
  assumes "aof_read_record rs data rec = (Record buf n, data', rs')"
  shows "length data' < length data"
proof -
  obtain r data1 rs1 where h: "read_exact rs data AOF_HEADER_SIZE = (r, data1, rs1)"
    by (metis prod_cases3)
  with assms obtain hdr where r: "r = Some hdr" "hdr \<noteq> []"
    by (cases r) (auto simp: aof_read_record_def split: if_splits)
  obtain body data2 rs2
    where b: "read_exact rs1 data1 (be_dec (bytes_at AOF_CRC_SIZE AOF_BODYLEN_SIZE (put rec 0 hdr)))
                = (body, data2, rs2)" by (metis prod_cases3)
  have "data' = data2"
    using assms h r b by (auto simp: aof_read_record_def Let_def split: if_splits option.splits)
  moreover have "length data1 < length data" using read_exact_split[OF h] r by auto
  moreover have "length data2 \<le> length data1" using read_exact_split[OF b] by auto
  ultimately show ?thesis by simp
qed

record load_state =
  ls_db :: db
  ls_records :: nat
  ls_valid_end :: nat

text \<open>The \<open>while (true)\<close> loop: the state it leaves and the reason of the break, if any.\<close>

function aof_load_loop ::
    "(nat \<Rightarrow> int) \<Rightarrow> (nat \<Rightarrow> bool \<times> bool) \<Rightarrow> sys list \<Rightarrow> byte list \<Rightarrow> byte list \<Rightarrow> load_state
     \<Rightarrow> (load_state \<times> load_break option) option" where
  "aof_load_loop clk mem rs data rec st =
     (case aof_read_record rs data rec of
        (CleanEof, data', rs') \<Rightarrow> Some (st, None)
      | (Stop reason, data', rs') \<Rightarrow> Some (st, Some reason)
      | (Overrun, data', rs') \<Rightarrow> None
      | (Record rec' body_len, data', rs') \<Rightarrow>
          (case aof_replay_record (clk (ls_records st)) (mem (ls_records st))
                  (drop AOF_HEADER_SIZE rec') body_len (ls_db st) of
             None \<Rightarrow> None
           | Some (db', replay_status) \<Rightarrow>
               if replay_status = EXIT_FAILURE then Some (st\<lparr>ls_db := db'\<rparr>, Some ReplayFailed)
               else
                 aof_load_loop clk mem rs' data' rec'
                   (st\<lparr>ls_db := db', ls_records := ls_records st + 1,
                       ls_valid_end := ls_valid_end st + AOF_HEADER_SIZE + body_len\<rparr>)))"
  by pat_completeness auto
termination
  by (relation "measure (\<lambda>(clk, mem, rs, data, rec, st). length data)")
    (auto dest: aof_read_record_shrinks[OF sym])

declare aof_load_loop.simps [simp del]

section \<open>Quarantine\<close>

text \<open>The copy loop: each pass one \<open>read\<close> of at most 8192 bytes, not retried, and a \<open>write_all\<close>.\<close>

function quarantine_loop :: "sys list \<Rightarrow> sys list \<Rightarrow> byte list \<Rightarrow> nat \<Rightarrow> byte list \<Rightarrow> byte list" where
  "quarantine_loop rs ws data remaining out =
     (if remaining = 0 then out
      else
        (let chunk = min remaining 8192;
             n = (case rs of SysN k # _ \<Rightarrow> min (max 1 k) chunk | [] \<Rightarrow> chunk | _ \<Rightarrow> 0);
             bs = take n data in
         if bs = [] then out
         else
           (case write_all ws bs of
              (ok, written, ws') \<Rightarrow>
                if \<not> ok then out @ written
                else quarantine_loop (tl rs) ws' (drop n data) (remaining - length bs) (out @ written))))"
  by pat_completeness auto
termination
  by (relation "measure (\<lambda>(rs, ws, data, remaining, out). remaining)")
    auto

declare quarantine_loop.simps [simp del]

text \<open>
  \<open>aof_quarantine_tail\<close> of a file with contents \<open>file\<close>: the contents of the file it
  creates, if it can open one.
\<close>

record quarantine_env =
  q_open :: bool
  q_lseek :: bool
  q_reads :: "sys list"
  q_writes :: "sys list"

definition aof_quarantine_tail :: "quarantine_env \<Rightarrow> byte list \<Rightarrow> nat \<Rightarrow> nat \<Rightarrow> byte list option" where
  "aof_quarantine_tail q file from len =
     (if \<not> q_open q then None
      else if \<not> q_lseek q then Some []
      else Some (quarantine_loop (q_reads q) (q_writes q) (drop from file) len []))"

section \<open>\<open>aof_load\<close>\<close>

text \<open>What the system decides during one load.\<close>

record load_env =
  le_open :: bool
  le_reads :: "sys list"
  le_clk :: "nat \<Rightarrow> int"
  le_mem :: "nat \<Rightarrow> bool \<times> bool"
  le_stack :: "byte list"
  le_quarantine :: quarantine_env
  le_ftruncate :: bool

record load_result =
  lr_rc :: int
  lr_db :: db
  lr_file :: "byte list option"
  lr_quarantine :: "byte list option"
  lr_records :: nat

text \<open>
  \<open>file\<close> is what \<open>stat\<close> finds under the path, \<open>None\<close> when there is nothing. The value
  \<open>None\<close> is an execution that left one of its arrays.
\<close>

definition aof_load :: "load_env \<Rightarrow> byte list option \<Rightarrow> db \<Rightarrow> load_result option" where
  "aof_load le file db =
     (case file of
        None \<Rightarrow> Some \<lparr>lr_rc = 0, lr_db = db, lr_file = None, lr_quarantine = None, lr_records = 0\<rparr>
      | Some data \<Rightarrow>
          (let unchanged = (\<lambda>rc. Some \<lparr>lr_rc = rc, lr_db = db, lr_file = file,
                                       lr_quarantine = None, lr_records = 0\<rparr>) in
           if data = [] then unchanged 0
           else if length data < AOF_FILE_HEADER_SIZE then unchanged (-1)
           else if \<not> le_open le then unchanged (-1)
           else
             (case aof_read_file_header (le_reads le) data of
                (False, _, _) \<Rightarrow> unchanged (-1)
              | (True, data', rs') \<Rightarrow>
                  (case aof_load_loop (le_clk le) (le_mem le) rs' data' (le_stack le)
                          \<lparr>ls_db = db, ls_records = 0, ls_valid_end = AOF_FILE_HEADER_SIZE\<rparr> of
                     None \<Rightarrow> None
                   | Some (st, break_reason) \<Rightarrow>
                       (let valid_end = ls_valid_end st;
                            bytes_lost = int (length data) - int valid_end in
                        Some
                          \<lparr>lr_rc = 0, lr_db = ls_db st,
                           lr_file = Some (if le_ftruncate le then take valid_end data else data),
                           lr_quarantine =
                             (if 0 < bytes_lost
                              then aof_quarantine_tail (le_quarantine le) data valid_end (nat bytes_lost)
                              else None),
                           lr_records = ls_records st\<rparr>)))))"

section \<open>Mutations as records\<close>

text \<open>The record a mutation is logged as, field by field.\<close>

fun op_code :: "kv_op \<Rightarrow> aof_opcode_t" where
  "op_code (KSet k v) = AOF_OP_SET"
| "op_code (KDel k) = AOF_OP_DEL"
| "op_code (KSetex k v t) = AOF_OP_SETEX"
| "op_code (KExpire k t) = AOF_OP_EXPIRE"
| "op_code (KPersist k) = AOF_OP_PERSIST"

fun op_key :: "kv_op \<Rightarrow> cstr" where
  "op_key (KSet k v) = k" | "op_key (KDel k) = k" | "op_key (KSetex k v t) = k"
| "op_key (KExpire k t) = k" | "op_key (KPersist k) = k"

fun op_value :: "kv_op \<Rightarrow> cstr" where
  "op_value (KSet k v) = v" | "op_value (KSetex k v t) = v" | "op_value p = []"

fun op_expire :: "kv_op \<Rightarrow> int" where
  "op_expire (KSetex k v t) = t" | "op_expire (KExpire k t) = t" | "op_expire p = 0"

definition op_body :: "kv_op \<Rightarrow> byte list" where
  "op_body p = record_body (op_code p) (op_key p) (op_value p) (op_expire p)"

definition op_record :: "kv_op \<Rightarrow> byte list" where
  "op_record p = aof_record (op_code p) (op_key p) (op_value p) (op_expire p)"

text \<open>The mutations whose record fits the buffer of \<open>aof_append\<close>.\<close>

definition op_fits :: "kv_op \<Rightarrow> bool" where
  "op_fits p \<longleftrightarrow> wf_cstr (op_key p) \<and> wf_cstr (op_value p) \<and> i64_range (op_expire p) \<and>
     AOF_HEADER_SIZE + AOF_BODY_FIXED + length (op_key p) + length (op_value p) \<le> AOF_RECORD_MAX"

text \<open>A record whose deadline has passed is skipped.\<close>

definition op_skipped :: "int \<Rightarrow> kv_op \<Rightarrow> bool" where
  "op_skipped now p \<longleftrightarrow> 0 < op_expire p \<and> op_expire p < now"

text \<open>The mutations of a log that a replay does not skip, the first record having number \<open>n\<close>.\<close>

fun kept :: "(nat \<Rightarrow> int) \<Rightarrow> nat \<Rightarrow> kv_op list \<Rightarrow> kv_op list" where
  "kept clk n [] = []"
| "kept clk n (p # ps) =
     (if op_skipped (clk n) p then kept clk (Suc n) ps else p # kept clk (Suc n) ps)"

text \<open>Every log has a point up to which its mutations apply: its end, or the first mutation
  that is neither skipped nor accepted.\<close>

lemma replay_point:
  "\<exists>k m. k \<le> length ops \<and> kv_apply_all (kept clk n (take k ops)) m0 = Some m \<and>
     (k = length ops \<or> \<not> op_skipped (clk (n + k)) (ops ! k) \<and> kv_apply (ops ! k) m = None)"
proof (induction ops arbitrary: n m0)
  case (Cons p ops)
  show ?case
  proof (cases "\<not> op_skipped (clk n) p \<and> kv_apply p m0 = None")
    case True
    then show ?thesis by (intro exI[of _ 0] exI[of _ m0]) simp
  next
    case False
    define m1 where "m1 = (if op_skipped (clk n) p then m0 else the (kv_apply p m0))"
    obtain k m where k: "k \<le> length ops" "kv_apply_all (kept clk (Suc n) (take k ops)) m1 = Some m"
      "k = length ops \<or> \<not> op_skipped (clk (Suc n + k)) (ops ! k) \<and> kv_apply (ops ! k) m = None"
      using Cons.IH by blast
    then show ?thesis
      using False by (intro exI[of _ "Suc k"] exI[of _ m]) (auto simp: m1_def)
  qed
qed simp

lemma op_record_sealed: "op_record p = sealed (op_body p)"
  by (simp add: op_record_def op_body_def aof_record_def)

lemma length_op_body: "length (op_body p) = 15 + length (op_key p) + length (op_value p)"
  by (simp add: op_body_def length_record_body)

lemma op_record_nonempty: "op_record p \<noteq> []"
  by (metis length_aof_record list.size(3) op_record_def zero_eq_add_iff_both_eq_0 zero_neq_numeral)

lemma op_fits_length: "op_fits p \<Longrightarrow> length (op_key p) + length (op_value p) \<le> 4069"
  by (simp add: op_fits_def aof_sizes)

section \<open>Reading a whole record\<close>

lemma sealed_split: "sealed body = be64 (crc64 0 (be32 (length body) @ body)) @ be32 (length body) @ body"
  by (simp add: sealed_def Let_def)

text \<open>A whole record is taken exactly when its stored checksum is that of its contents.\<close>

lemma aof_read_record_whole:
  assumes rs: "SysErr \<notin> set rs" and rec: "length rec = AOF_RECORD_MAX"
    and len: "AOF_HEADER_SIZE + length body \<le> AOF_RECORD_MAX"
  shows "\<exists>rs' junk. aof_read_record rs (be64 c @ be32 (length body) @ body @ rest) rec =
             (if c = crc64 0 (be32 (length body) @ body)
              then Record (be64 c @ be32 (length body) @ body @ junk) (length body)
              else Stop CrcMismatch, rest, rs') \<and> SysErr \<notin> set rs' \<and>
           length (be64 c @ be32 (length body) @ body @ junk) = AOF_RECORD_MAX"
proof -
  let ?crc = "be64 c" and ?n = "be32 (length body)"
  let ?whole = "\<lambda>junk. ?crc @ ?n @ body @ junk"
  have lens: "length ?crc = 8" "length ?n = 4" by (simp_all add: be_simps)
  have small: "length body < 2 ^ 32" using len by (simp add: aof_sizes)
  obtain rs1 where r1: "read_exact rs (?whole rest) 12 = (Some (?crc @ ?n), body @ rest, rs1)"
    "SysErr \<notin> set rs1"
    using read_exact_ok[OF rs, of "?whole rest" 12] by (auto simp: lens)
  obtain rs2 where r2: "read_exact rs1 (body @ rest) (length body) = (Some body, rest, rs2)"
    "SysErr \<notin> set rs2"
    using read_exact_ok[OF r1(2), of "body @ rest" "length body"] by auto
  let ?rec1 = "?crc @ ?n @ drop 12 rec" and ?junk = "drop (12 + length body) rec"
  have p1: "put rec 0 (?crc @ ?n) = ?rec1" by (simp add: put_def lens)
  have bl: "be_dec (bytes_at 8 4 (be64 d @ ?n @ drop 12 rec)) = length body" for d
    using small by (simp add: buf_simps be_simps)
  have p2: "put ?rec1 12 body = ?whole ?junk"
    by (simp add: put_def lens add.commute)
  have c1: "bytes_at 0 8 (?whole junk) = ?crc" for junk
    by (simp add: buf_simps be_simps)
  have c2: "bytes_at 8 (length body + 4) (?whole junk) = ?n @ body" for junk
    by (simp add: buf_simps be_simps)
  have ne: "?n \<noteq> []" using lens by force
  have "aof_read_record rs (?whole rest) rec =
      (if c = crc64 0 (?n @ body) then Record (?whole ?junk) (length body) else Stop CrcMismatch, rest, rs2)"
    using len r1(1) r2(1)
    by (simp add: aof_read_record_def aof_sizes p1 bl p2 c1 c2 lens be_simps Let_def ne)
  moreover have "length (?whole ?junk) = AOF_RECORD_MAX"
    using rec len by (simp add: lens aof_sizes)
  ultimately show ?thesis using r2(2) by blast
qed

lemma aof_read_record_ok:
  assumes "SysErr \<notin> set rs" "length rec = AOF_RECORD_MAX"
    and "AOF_HEADER_SIZE + length body \<le> AOF_RECORD_MAX"
  shows "\<exists>rs' junk. aof_read_record rs (sealed body @ rest) rec
             = (Record (sealed body @ junk) (length body), rest, rs') \<and> SysErr \<notin> set rs' \<and>
           length (sealed body @ junk) = AOF_RECORD_MAX"
  using aof_read_record_whole[OF assms, of "crc64 0 (be32 (length body) @ body)" rest]
  by (simp add: sealed_split)

text \<open>A record of which only a part is there.\<close>

lemma aof_read_record_torn:
  assumes rs: "SysErr \<notin> set rs" and rec: "length rec = AOF_RECORD_MAX"
    and len: "AOF_HEADER_SIZE + length body \<le> AOF_RECORD_MAX"
    and torn: "strict_prefix torn (sealed body)"
  shows "fst (aof_read_record rs torn rec) =
           (if torn = [] then CleanEof
            else if length torn < AOF_HEADER_SIZE then Stop TruncatedHeader else Stop TruncatedBody)"
proof (cases "length torn < 12")
  case True
  obtain rs1 where "read_exact rs torn 12 = (Some torn, [], rs1)"
    using read_exact_ok[OF rs, of torn 12] True by auto
  with True show ?thesis by (simp add: aof_read_record_def aof_sizes)
next
  case False
  let ?crc = "be64 (crc64 0 (be32 (length body) @ body))" and ?n = "be32 (length body)"
  have lens: "length ?crc = 8" "length ?n = 4" by (simp_all add: be_simps)
  have small: "length body < 2 ^ 32" using len by (simp add: aof_sizes)
  obtain more where more: "sealed body = torn @ more" "more \<noteq> []"
    using torn by (auto simp: strict_prefix_def prefix_def)
  define part where "part = drop 12 torn"
  have "take 12 torn = take 12 (sealed body)" using more(1) False by simp
  then have hd: "take 12 torn = ?crc @ ?n" by (simp add: sealed_split lens)
  have "drop 12 (sealed body) = part @ more" using more(1) False by (simp add: part_def)
  then have body: "body = part @ more" by (simp add: sealed_split lens)
  obtain rs1 where r1: "read_exact rs torn 12 = (Some (?crc @ ?n), part, rs1)" "SysErr \<notin> set rs1"
    using read_exact_ok[OF rs, of torn 12] by (auto simp: hd part_def)
  obtain rs2 where r2: "read_exact rs1 part (length body) = (Some part, [], rs2)"
    using read_exact_ok[OF r1(2), of part "length body"] body by auto
  have bl: "be_dec (bytes_at 8 4 (put rec 0 (?crc @ ?n))) = length body"
    using small by (simp add: put_def lens buf_simps be_simps)
  have short: "length part < length body" "12 + length part \<le> 4096"
    using body more(2) len by (auto simp: aof_sizes)
  have "?crc @ ?n \<noteq> []" using lens by force
  with False r1(1) r2 short show ?thesis
    by (auto simp: aof_read_record_def aof_sizes bl lens be_simps Let_def)
qed

section \<open>Replaying a whole record\<close>

lemma opcode_byte: "unat (of_nat (opcode_val op) :: byte) = opcode_val op"
  by (cases op) simp_all

text \<open>The fields of a record body at the offsets the code reads them from.\<close>

lemma record_body_fields:
  fixes op and key val junk :: "byte list" and t :: int
  defines "buf \<equiv> record_body op key val t @ junk"
  assumes "length key < 2 ^ 16" "length val < 2 ^ 32"
  shows "unat (buf ! 0) = opcode_val op"
    and "be_dec (bytes_at (Suc 0) 2 buf) = length key"
    and "be_dec (bytes_at 3 4 buf) = length val"
    and "de64 (bytes_at 7 8 buf) = word_of_int t"
    and "bytes_at 15 (length key) buf = key"
    and "bytes_at (15 + length key) (length val) buf = val"
proof -
  have b: "buf = [of_nat (opcode_val op)] @ be16 (length key) @ be32 (length val)
      @ be64 (word_of_int t) @ key @ val @ junk"
    by (simp add: buf_def record_body_def)
  have whole: "bytes_at 0 (length x) (x @ y) = x" for x y :: "byte list"
    by (simp add: bytes_at_def)
  note skip = bytes_at_append_right length_be
  show "unat (buf ! 0) = opcode_val op" by (simp add: b opcode_byte)
  show "be_dec (bytes_at (Suc 0) 2 buf) = length key"
    using assms(2) whole[of "be16 (length key)"] unfolding b by (simp add: skip be_simps del: append.simps)
  show "be_dec (bytes_at 3 4 buf) = length val"
    using assms(3) whole[of "be32 (length val)"] unfolding b by (simp add: skip be_simps del: append.simps)
  show "de64 (bytes_at 7 8 buf) = word_of_int t"
    using whole[of "be64 (word_of_int t)"] unfolding b by (simp add: skip be_simps del: append.simps)
  show "bytes_at 15 (length key) buf = key"
    using whole[of key] unfolding b by (simp add: skip del: append.simps)
  show "bytes_at (15 + length key) (length val) buf = val"
    using whole[of val] unfolding b by (simp add: skip del: append.simps)
qed

text \<open>The dispatch on the opcode, as the mutation itself.\<close>

lemma opcode_dispatch:
  fixes p db
  defines "c \<equiv> opcode_val (op_code p)" and "k \<equiv> op_key p" and "v \<equiv> op_value p" and "t \<equiv> op_expire p"
  shows "(if c = opcode_val AOF_OP_SET then db_set True db k v
          else if c = opcode_val AOF_OP_DEL then db_del db k
          else if c = opcode_val AOF_OP_SETEX then db_setex True True db k v t
          else if c = opcode_val AOF_OP_EXPIRE then db_key_expire True db k t
          else if c = opcode_val AOF_OP_PERSIST then db_persist db k
          else (db, EXIT_FAILURE)) = db_run p db"
  unfolding c_def k_def v_def t_def by (cases p) simp_all

lemma aof_replay_record_ok:
  assumes fits: "op_fits p"
  shows "aof_replay_record now (True, True) (op_body p @ junk) (length (op_body p)) db =
           Some (if op_skipped now p then (db, EXIT_SUCCESS) else db_run p db)"
proof -
  have len: "length (op_key p) + length (op_value p) \<le> 4069" using fits by (rule op_fits_length)
  then have small: "length (op_key p) < 2 ^ 16" "length (op_value p) < 2 ^ 32" by simp_all
  note fields = record_body_fields[OF small, of "op_code p" "op_expire p" junk, folded op_body_def]
  have wf: "cstr_of (op_key p) = op_key p" "cstr_of (op_value p) = op_value p"
    "sint (word_of_int (op_expire p) :: 64 word) = op_expire p"
    using fits by (simp_all add: op_fits_def)
  have sums: "(length (op_key p) + length (op_value p)) mod 2 ^ 32 = length (op_key p) + length (op_value p)"
    "(15 + length (op_key p) + length (op_value p)) mod 2 ^ 32 = 15 + length (op_key p) + length (op_value p)"
    using len by simp_all
  have ok: "\<not> 4096 < length (op_key p) + length (op_value p)"
    "\<not> 4096 < length (op_key p)" "\<not> 4096 < length (op_value p)"
    "\<not> length (op_body p @ junk) < 15 + length (op_key p) + length (op_value p)"
    using len by (simp_all add: length_op_body)
  show ?thesis
    unfolding aof_replay_record_def Let_def One_nat_def fields aof_sizes wf sums length_op_body[of p]
      fst_conv snd_conv opcode_dispatch op_skipped_def
    using ok by simp
qed

section \<open>The log as a stream of messages\<close>

text \<open>The mutation a record body carries.\<close>

definition body_op :: "byte list \<Rightarrow> nat \<Rightarrow> kv_op option" where
  "body_op buf n =
     (let c = unat (buf ! 0); klen = be_dec (bytes_at 1 2 buf); vlen = be_dec (bytes_at 3 4 buf);
          t = sint (de64 (bytes_at 7 8 buf)); k = cstr_of (bytes_at 15 klen buf);
          v = cstr_of (bytes_at (15 + klen) vlen buf) in
      if n \<noteq> 15 + klen + vlen then None
      else if c = opcode_val AOF_OP_SET then Some (KSet k v)
      else if c = opcode_val AOF_OP_DEL then Some (KDel k)
      else if c = opcode_val AOF_OP_SETEX then Some (KSetex k v t)
      else if c = opcode_val AOF_OP_EXPIRE then Some (KExpire k t)
      else if c = opcode_val AOF_OP_PERSIST then Some (KPersist k)
      else None)"

definition take_op :: "byte list \<Rightarrow> (kv_op \<times> byte list) option" where
  "take_op data =
     (case aof_read_record [] data (replicate AOF_RECORD_MAX 0) of
        (Record buf n, rest, _) \<Rightarrow>
          map_option (\<lambda>p. (p, rest)) (body_op (drop AOF_HEADER_SIZE buf) n)
      | _ \<Rightarrow> None)"

lemma body_op_ok:
  assumes fits: "op_fits p"
  shows "body_op (op_body p @ junk) (length (op_body p)) = Some p"
proof -
  have len: "length (op_key p) + length (op_value p) \<le> 4069" using fits by (rule op_fits_length)
  then have small: "length (op_key p) < 2 ^ 16" "length (op_value p) < 2 ^ 32" by simp_all
  note fields = record_body_fields[OF small, of "op_code p" "op_expire p" junk, folded op_body_def]
  have wf: "cstr_of (op_key p) = op_key p" "cstr_of (op_value p) = op_value p"
    "sint (word_of_int (op_expire p) :: 64 word) = op_expire p"
    using fits by (simp_all add: op_fits_def)
  show ?thesis
    unfolding body_op_def Let_def One_nat_def fields wf length_op_body by (cases p) simp_all
qed

lemma drop_sealed: "drop 12 (sealed body @ junk) = body @ junk"
  by (simp add: sealed_split be_simps)

lemma op_fits_room: "op_fits p \<Longrightarrow> AOF_HEADER_SIZE + length (op_body p) \<le> AOF_RECORD_MAX"
  by (simp add: op_fits_def length_op_body aof_sizes)

interpretation aoflog: framing op_fits op_record take_op
proof unfold_locales
  fix p :: kv_op and rest torn :: "byte list"
  assume fits: "op_fits p"
  obtain rs' junk where r: "aof_read_record [] (sealed (op_body p) @ rest) (replicate AOF_RECORD_MAX 0) =
      (Record (sealed (op_body p) @ junk) (length (op_body p)), rest, rs')"
    using aof_read_record_ok[of "[]" "replicate AOF_RECORD_MAX 0" "op_body p" rest] op_fits_room[OF fits] by auto
  have "drop AOF_HEADER_SIZE (sealed (op_body p) @ junk) = op_body p @ junk"
    unfolding aof_sizes using drop_sealed by simp
  with r body_op_ok[OF fits, of junk] show "take_op (op_record p @ rest) = Some (p, rest)"
    by (simp add: take_op_def op_record_sealed)
  assume "strict_prefix torn (op_record p)"
  then have "fst (aof_read_record [] torn (replicate AOF_RECORD_MAX 0)) \<in> {CleanEof, Stop TruncatedHeader, Stop TruncatedBody}"
    using aof_read_record_torn[of "[]" "replicate AOF_RECORD_MAX 0" "op_body p" torn] op_fits_room[OF fits]
    by (simp add: op_record_sealed)
  then show "take_op torn = None"
    by (auto simp: take_op_def split: prod.split record_read.split)
qed

section \<open>Loading a log\<close>

lemma aof_load_loop_peel:
  assumes "\<forall>p \<in> set ops. op_fits p" "SysErr \<notin> set rs" "length rec = AOF_RECORD_MAX"
    and "db_inv (ls_db st)" "mem = (\<lambda>_. (True, True))"
    and "kv_apply_all (kept clk (ls_records st) ops) (db_abs (ls_db st)) = Some m"
  shows "\<exists>rs' rec' st'.
           aof_load_loop clk mem rs (concat (map op_record ops) @ tail) rec st =
             aof_load_loop clk mem rs' tail rec' st' \<and>
           SysErr \<notin> set rs' \<and> length rec' = AOF_RECORD_MAX \<and> db_inv (ls_db st') \<and>
           db_abs (ls_db st') = m \<and> ls_records st' = ls_records st + length ops \<and>
           ls_valid_end st' = ls_valid_end st + length (concat (map op_record ops))"
  using assms
proof (induction ops arbitrary: rs rec st)
  case Nil
  then show ?case by auto
next
  case (Cons p ops)
  let ?n = "ls_records st" and ?data = "concat (map op_record ops) @ tail"
  have fits: "op_fits p" using Cons.prems(1) by simp
  obtain rs1 junk where r: "aof_read_record rs (sealed (op_body p) @ ?data) rec =
      (Record (sealed (op_body p) @ junk) (length (op_body p)), ?data, rs1)"
    "SysErr \<notin> set rs1" "length (sealed (op_body p) @ junk) = AOF_RECORD_MAX"
    using aof_read_record_ok[OF Cons.prems(2,3) op_fits_room[OF fits], of ?data] by blast
  define db1 where "db1 = (if op_skipped (clk ?n) p then ls_db st else fst (db_run p (ls_db st)))"
  have inv1: "db_inv db1" using Cons.prems(4) by (auto simp: db1_def kvdb.run_inv)
  have ok: "aof_replay_record (clk ?n) (mem ?n) (op_body p @ junk) (length (op_body p)) (ls_db st)
        = Some (db1, EXIT_SUCCESS)"
    and rest: "kv_apply_all (kept clk (Suc ?n) ops) (db_abs db1) = Some m"
  proof -
    have "op_skipped (clk ?n) p \<or> (\<exists>m1. kv_apply p (db_abs (ls_db st)) = Some m1 \<and>
        kv_apply_all (kept clk (Suc ?n) ops) m1 = Some m)"
      using Cons.prems(6) by (auto split: if_splits option.splits)
    then show "aof_replay_record (clk ?n) (mem ?n) (op_body p @ junk) (length (op_body p)) (ls_db st)
        = Some (db1, EXIT_SUCCESS)" "kv_apply_all (kept clk (Suc ?n) ops) (db_abs db1) = Some m"
      using aof_replay_record_ok[OF fits, of "clk ?n" junk "ls_db st"] Cons.prems(5,6)
        kvdb.run_ok[OF Cons.prems(4), of p]
      by (auto simp: db1_def prod_eq_iff)
  qed
  let ?st = "st\<lparr>ls_db := db1, ls_records := ?n + 1,
      ls_valid_end := ls_valid_end st + AOF_HEADER_SIZE + length (op_body p)\<rparr>"
  have "drop AOF_HEADER_SIZE (sealed (op_body p) @ junk) = op_body p @ junk"
    unfolding aof_sizes using drop_sealed by simp
  then have "aof_load_loop clk mem rs (concat (map op_record (p # ops)) @ tail) rec st =
      aof_load_loop clk mem rs1 ?data (sealed (op_body p) @ junk) ?st"
    using r(1) ok by (subst aof_load_loop.simps) (simp add: op_record_sealed)
  moreover have "length (op_record p) = AOF_HEADER_SIZE + length (op_body p)"
    by (simp add: op_record_sealed length_sealed aof_sizes)
  ultimately show ?case
    using Cons.IH[of rs1 "sealed (op_body p) @ junk" ?st] Cons.prems(1,5) r(2,3) inv1 rest
    by (simp add: add.assoc)
qed

text \<open>The tail behind the last whole record ends the loop.\<close>

lemma aof_load_loop_torn:
  assumes "SysErr \<notin> set rs" "length rec = AOF_RECORD_MAX" "op_fits p" "strict_prefix torn (op_record p)"
  shows "\<exists>b. aof_load_loop clk mem rs torn rec st = Some (st, b)"
  using aof_read_record_torn[OF assms(1,2) op_fits_room[OF assms(3)], of torn] assms(4)
  by (subst aof_load_loop.simps) (auto simp: op_record_sealed split: prod.split if_splits)

lemma aof_read_file_header_ok:
  assumes "SysErr \<notin> set rs"
  shows "\<exists>rs'. aof_read_file_header rs (aof_file_header created @ rest) = (True, rest, rs') \<and> SysErr \<notin> set rs'"
proof -
  let ?h = "AOF_FILE_MAGIC @ be32 AOF_FILE_VERSION @ be32 0 @ be64 (word_of_int created)"
  have h: "aof_file_header created = ?h @ be64 (crc64 0 ?h)" by (simp add: aof_file_header_def Let_def)
  have magic: "length AOF_FILE_MAGIC = 8" by (simp add: AOF_FILE_MAGIC_def lit_def)
  have lens: "length ?h = 24" "length (aof_file_header created) = 32"
    by (simp_all add: h magic be_simps)
  have f: "bytes_at 0 8 (aof_file_header created) = AOF_FILE_MAGIC"
    "be_dec (bytes_at 8 4 (aof_file_header created)) = 1"
    by (simp_all add: h bytes_at_def magic be_simps AOF_FILE_VERSION_def)
  have c: "bytes_at 0 24 (aof_file_header created) = ?h"
    "bytes_at 24 8 (aof_file_header created) = be64 (crc64 0 ?h)"
    unfolding h using lens(1) by (simp_all add: bytes_at_def be_simps)
  obtain rs' where "read_exact rs (aof_file_header created @ rest) 32 =
      (Some (aof_file_header created), rest, rs')" "SysErr \<notin> set rs'"
    using read_exact_ok[OF assms, of "aof_file_header created @ rest" 32] lens(2) by auto
  with lens(2) f show ?thesis
    by (simp add: aof_read_file_header_def aof_sizes c be_simps del: append_assoc)
qed

section \<open>Nothing is lost without a copy\<close>

lemma quarantine_loop_ok:
  assumes "set rs \<inter> {SysErr, SysIntr} = {}" "SysErr \<notin> set ws" "remaining = length data"
  shows "quarantine_loop rs ws data remaining out = out @ data"
  using assms
proof (induction rs ws data remaining out rule: quarantine_loop.induct)
  case (1 rs ws data remaining out)
  show ?case
  proof (cases "remaining = 0")
    case True
    with "1.prems" show ?thesis by (subst quarantine_loop.simps) simp
  next
    case False
    define n where "n = (case rs of SysN k # _ \<Rightarrow> min (max 1 k) (min remaining 8192)
                         | [] \<Rightarrow> min remaining 8192 | _ \<Rightarrow> 0)"
    have n: "0 < n" "n \<le> remaining"
      using False "1.prems"(1) by (auto simp: n_def split: list.splits sys.splits)
    obtain ws' where w: "write_all ws (take n data) = (True, take n data, ws')" "SysErr \<notin> set ws'"
      using write_all_ok[OF "1.prems"(2)] by blast
    have ne: "take n data \<noteq> []" using False n "1.prems"(3) by auto
    have "set (tl rs) \<inter> {SysErr, SysIntr} = {}" using "1.prems"(1) by (cases rs) auto
    moreover have "remaining - length (take n data) = length (drop n data)" using "1.prems"(3) by auto
    ultimately have "quarantine_loop (tl rs) ws' (drop n data) (remaining - length (take n data)) (out @ take n data)
        = (out @ take n data) @ drop n data"
      using "1.IH"[OF False refl n_def refl ne w(1)[symmetric] refl] w(2) by simp
    moreover have "quarantine_loop rs ws data remaining out =
        quarantine_loop (tl rs) ws' (drop n data) (remaining - length (take n data)) (out @ take n data)"
      using False ne w(1) by (subst quarantine_loop.simps) (simp add: n_def[symmetric] Let_def)
    ultimately show ?thesis by simp
  qed
qed

text \<open>Whatever its calls do, the copy is the beginning of what was to be copied.\<close>

lemma quarantine_loop_prefix:
  "\<exists>w. quarantine_loop rs ws data remaining out = out @ w \<and> prefix w data"
proof (induction rs ws data remaining out rule: quarantine_loop.induct)
  case (1 rs ws data remaining out)
  define n where "n = (case rs of SysN k # _ \<Rightarrow> min (max 1 k) (min remaining 8192)
                       | [] \<Rightarrow> min remaining 8192 | _ \<Rightarrow> 0)"
  obtain ok w ws' where w: "write_all ws (take n data) = (ok, w, ws')" by (metis prod_cases3)
  obtain q where q: "take n data = w @ q" "ok \<longleftrightarrow> q = []" using write_all_prefix[OF w] by blast
  have pre: "prefix w data" using q(1) by (metis prefixI append_take_drop_id append.assoc)
  consider (stop) "remaining = 0 \<or> take n data = []" | (failed) "remaining \<noteq> 0" "take n data \<noteq> []" "\<not> ok"
    | (go) "remaining \<noteq> 0" "take n data \<noteq> []" ok by blast
  then show ?case
  proof cases
    case stop
    then show ?thesis
      by (subst quarantine_loop.simps) (auto simp: n_def[symmetric] Let_def)
  next
    case failed
    then show ?thesis
      using pre w by (subst quarantine_loop.simps) (auto simp: n_def[symmetric] Let_def)
  next
    case go
    obtain v where v: "quarantine_loop (tl rs) ws' (drop n data) (remaining - length (take n data)) (out @ w) =
        (out @ w) @ v" "prefix v (drop n data)"
      using "1.IH"[OF go(1) refl n_def refl go(2) w[symmetric] refl] go(3) by auto
    have "w = take n data" using q go(3) by simp
    then have "prefix (w @ v) data" using v(2) by (metis append_take_drop_id same_prefix_prefix)
    moreover have "quarantine_loop rs ws data remaining out = out @ (w @ v)"
      using go w v(1) by (subst quarantine_loop.simps) (simp add: n_def[symmetric] Let_def)
    ultimately show ?thesis by blast
  qed
qed

definition quarantine_works :: "quarantine_env \<Rightarrow> bool" where
  "quarantine_works q \<longleftrightarrow> q_open q \<and> q_lseek q \<and>
     set (q_reads q) \<inter> {SysErr, SysIntr} = {} \<and> SysErr \<notin> set (q_writes q)"

lemma aof_quarantine_tail_ok:
  "quarantine_works q \<Longrightarrow> aof_quarantine_tail q file from (length file - from) = Some (drop from file)"
  by (simp add: quarantine_works_def aof_quarantine_tail_def quarantine_loop_ok)

lemma aof_quarantine_tail_prefix:
  "aof_quarantine_tail q file from len = Some tail \<Longrightarrow> q_open q \<and> prefix tail (drop from file)"
  using quarantine_loop_prefix[of "q_reads q" "q_writes q" "drop from file" len "[]"]
  by (auto simp: aof_quarantine_tail_def split: if_splits)

text \<open>
  A load in which no call fails. The reads of the log may be short or interrupted; those of
  the quarantine may be short, but the code does not repeat one that is interrupted.
\<close>

definition load_works :: "load_env \<Rightarrow> bool" where
  "load_works le \<longleftrightarrow> le_open le \<and> SysErr \<notin> set (le_reads le) \<and> le_mem le = (\<lambda>_. (True, True)) \<and>
     length (le_stack le) = AOF_RECORD_MAX \<and> le_ftruncate le \<and> quarantine_works (le_quarantine le)"

text \<open>The loop stops at \<open>tail\<close> with the keyspace standing for the same store.\<close>

definition stops_at :: "load_env \<Rightarrow> byte list \<Rightarrow> nat \<Rightarrow> kv \<Rightarrow> bool" where
  "stops_at le tail n m \<longleftrightarrow>
     (\<forall>rs rec st. SysErr \<notin> set rs \<and> length rec = AOF_RECORD_MAX \<and> ls_records st = n \<and>
        db_inv (ls_db st) \<and> db_abs (ls_db st) = m \<longrightarrow>
        (\<exists>st' b. aof_load_loop (le_clk le) (le_mem le) rs tail rec st = Some (st', b) \<and>
           db_inv (ls_db st') \<and> db_abs (ls_db st') = m \<and> ls_records st' = n \<and>
           ls_valid_end st' = ls_valid_end st))"

text \<open>A load whose loop stops at \<open>tail\<close> keeps the log in front of it and quarantines the rest.\<close>

lemma aof_load_upto:
  assumes works: "load_works le" and inv: "db_inv db" and fits: "\<forall>p \<in> set ops. op_fits p"
    and run: "kv_apply_all (kept (le_clk le) 0 ops) (db_abs db) = Some m"
    and stop: "stops_at le tail (length ops) m"
    and log: "log = aof_file_header created @ concat (map op_record ops)"
  shows "\<exists>r. aof_load le (Some (log @ tail)) db = Some r \<and> lr_rc r = 0 \<and>
             db_inv (lr_db r) \<and> db_abs (lr_db r) = m \<and> lr_records r = length ops \<and>
             lr_file r = Some log \<and> lr_quarantine r = (if tail = [] then None else Some tail)"
proof -
  let ?recs = "concat (map op_record ops)" and ?h = "aof_file_header created"
  let ?st = "\<lparr>ls_db = db, ls_records = 0, ls_valid_end = AOF_FILE_HEADER_SIZE\<rparr>"
  note w = works[unfolded load_works_def]
  have h: "length ?h = AOF_FILE_HEADER_SIZE"
    by (simp add: aof_file_header_def Let_def aof_sizes AOF_FILE_MAGIC_def lit_def be_simps)
  obtain rs1 where hdr: "aof_read_file_header (le_reads le) (?h @ ?recs @ tail) = (True, ?recs @ tail, rs1)"
    "SysErr \<notin> set rs1"
    using aof_read_file_header_ok w by blast
  obtain rs2 rec2 st2 where loop: "aof_load_loop (le_clk le) (le_mem le) rs1 (?recs @ tail) (le_stack le) ?st =
      aof_load_loop (le_clk le) (le_mem le) rs2 tail rec2 st2" "SysErr \<notin> set rs2"
    "length rec2 = AOF_RECORD_MAX" "db_inv (ls_db st2)" "db_abs (ls_db st2) = m"
    "ls_records st2 = length ops" "ls_valid_end st2 = AOF_FILE_HEADER_SIZE + length ?recs"
    using aof_load_loop_peel[OF fits hdr(2), of "le_stack le" ?st "le_mem le" "le_clk le" m tail] w inv run
    by auto
  then obtain st3 b where ends: "aof_load_loop (le_clk le) (le_mem le) rs2 tail rec2 st2 = Some (st3, b)"
    "db_inv (ls_db st3)" "db_abs (ls_db st3) = m" "ls_records st3 = length ops"
    "ls_valid_end st3 = AOF_FILE_HEADER_SIZE + length ?recs"
    using stop unfolding stops_at_def by metis
  have nonempty: "?h \<noteq> []" using h by (auto simp: aof_sizes)
  have q: "aof_quarantine_tail (le_quarantine le) (?h @ ?recs @ tail) (AOF_FILE_HEADER_SIZE + length ?recs)
      (length tail) = Some tail"
    using aof_quarantine_tail_ok[of "le_quarantine le" "?h @ ?recs @ tail" "length (?h @ ?recs)"] w h by simp
  show ?thesis
    unfolding log
    by (rule exI[of _ "\<lparr>lr_rc = 0, lr_db = ls_db st3, lr_file = Some (?h @ ?recs),
              lr_quarantine = (if tail = [] then None else Some tail), lr_records = length ops\<rparr>"])
      (use w h hdr loop(1) ends nonempty q in \<open>auto simp: aof_load_def Let_def\<close>)
qed

lemma stops_at_torn:
  assumes "op_fits p" "strict_prefix torn (op_record p)"
  shows "stops_at le torn n m"
  unfolding stops_at_def using aof_load_loop_torn[OF _ _ assms] by blast

lemma stops_at_corrupt:
  assumes "AOF_HEADER_SIZE + length body \<le> AOF_RECORD_MAX" "c \<noteq> crc64 0 (be32 (length body) @ body)"
  shows "stops_at le (be64 c @ be32 (length body) @ body @ rest) n m"
  unfolding stops_at_def
proof (intro allI impI, elim conjE)
  fix rs and rec :: "byte list" and st :: load_state
  assume rs: "SysErr \<notin> set rs" "length rec = AOF_RECORD_MAX"
    and st: "ls_records st = n" "db_inv (ls_db st)" "db_abs (ls_db st) = m"
  have "aof_load_loop (le_clk le) (le_mem le) rs (be64 c @ be32 (length body) @ body @ rest) rec st =
      Some (st, Some CrcMismatch)"
    using aof_read_record_whole[OF rs assms(1), of c rest] assms(2)
    by (subst aof_load_loop.simps) auto
  with st show "\<exists>st' b. aof_load_loop (le_clk le) (le_mem le) rs
        (be64 c @ be32 (length body) @ body @ rest) rec st = Some (st', b) \<and>
      db_inv (ls_db st') \<and> db_abs (ls_db st') = m \<and> ls_records st' = n \<and>
      ls_valid_end st' = ls_valid_end st" by blast
qed

lemma stops_at_refused:
  assumes works: "load_works le" and fits: "op_fits p" and live: "\<not> op_skipped (le_clk le n) p"
    and refused: "kv_apply p m = None"
  shows "stops_at le (op_record p @ rest) n m"
  unfolding stops_at_def
proof (intro allI impI, elim conjE)
  fix rs and rec :: "byte list" and st :: load_state
  assume rs: "SysErr \<notin> set rs" "length rec = AOF_RECORD_MAX"
    and st: "ls_records st = n" "db_inv (ls_db st)" "db_abs (ls_db st) = m"
  obtain rs1 junk where r: "aof_read_record rs (sealed (op_body p) @ rest) rec =
      (Record (sealed (op_body p) @ junk) (length (op_body p)), rest, rs1)"
    using aof_read_record_ok[OF rs op_fits_room[OF fits], of rest] by blast
  let ?run = "db_run p (ls_db st)"
  have run: "db_abs (fst ?run) = m" "snd ?run = EXIT_FAILURE" "db_inv (fst ?run)"
    using kvdb.run_refused[OF st(2), of p] refused st(3) kvdb.run_inv[OF st(2)] by auto
  have "drop AOF_HEADER_SIZE (sealed (op_body p) @ junk) = op_body p @ junk"
    unfolding aof_sizes using drop_sealed by simp
  then have "aof_load_loop (le_clk le) (le_mem le) rs (op_record p @ rest) rec st =
      Some (st\<lparr>ls_db := fst ?run\<rparr>, Some ReplayFailed)"
    using r aof_replay_record_ok[OF fits, of "le_clk le n" junk "ls_db st"] works live st(1) run(2)
    by (subst aof_load_loop.simps) (simp add: op_record_sealed load_works_def split_beta)
  with st run show "\<exists>st' b. aof_load_loop (le_clk le) (le_mem le) rs (op_record p @ rest) rec st
        = Some (st', b) \<and> db_inv (ls_db st') \<and> db_abs (ls_db st') = m \<and> ls_records st' = n \<and>
      ls_valid_end st' = ls_valid_end st" by auto
qed

text \<open>Whatever the file holds, the keyspace stays well formed.\<close>

lemma aof_replay_record_inv:
  "aof_replay_record now mem buf n db = Some (db', r) \<Longrightarrow> db_inv db \<Longrightarrow> db_inv db'"
  using db_set_inv[of db] db_del_inv[of db] db_setex_inv[of db] db_key_expire_inv[of db] db_persist_inv[of db]
  by (auto simp: aof_replay_record_def Let_def split: if_splits) (metis fst_conv)+

lemma aof_load_loop_inv:
  "aof_load_loop clk mem rs data rec st = Some (st', b) \<Longrightarrow> db_inv (ls_db st) \<Longrightarrow> db_inv (ls_db st')"
proof (induction clk mem rs data rec st rule: aof_load_loop.induct)
  case (1 clk mem rs data rec st)
  obtain rr data' rs' where read: "aof_read_record rs data rec = (rr, data', rs')" by (metis prod_cases3)
  show ?case
  proof (cases rr)
    case (Record rec' n)
    let ?rep = "aof_replay_record (clk (ls_records st)) (mem (ls_records st)) (drop AOF_HEADER_SIZE rec') n (ls_db st)"
    obtain db' r where rep: "?rep = Some (db', r)"
      using "1.prems"(1) read Record by (subst (asm) aof_load_loop.simps) (auto split: option.splits)
    have inv: "db_inv db'" by (rule aof_replay_record_inv[OF rep "1.prems"(2)])
    show ?thesis
    proof (cases "r = EXIT_FAILURE")
      case True
      with "1.prems"(1) read Record rep inv show ?thesis by (subst (asm) aof_load_loop.simps) auto
    next
      case False
      then show ?thesis
        using "1.prems"(1) read Record rep inv "1.IH"[OF read[symmetric] Record refl rep refl False]
        by (subst (asm) aof_load_loop.simps) auto
    qed
  qed (use "1.prems" read in \<open>subst (asm) aof_load_loop.simps, auto\<close>)+
qed

text \<open>What a load leaves of a file that is there: the file, or a prefix of it and a quarantined tail.\<close>

lemma aof_load_shape:
  assumes "aof_load le (Some data) db = Some r" "db_inv db"
  shows "(lr_file r = Some data \<and> lr_quarantine r = None \<and> lr_db r = db) \<or>
     (\<exists>n. lr_file r = Some (if le_ftruncate le then take n data else data) \<and>
        lr_quarantine r =
          (if n < length data
           then aof_quarantine_tail (le_quarantine le) data n (nat (int (length data) - int n)) else None) \<and>
        db_inv (lr_db r))"
proof (cases "data = [] \<or> length data < AOF_FILE_HEADER_SIZE \<or> \<not> le_open le
    \<or> \<not> fst (aof_read_file_header (le_reads le) data)")
  case True
  obtain ok d rs where h: "aof_read_file_header (le_reads le) data = (ok, d, rs)" by (metis prod_cases3)
  consider "data = []" | "data \<noteq> []" "length data < AOF_FILE_HEADER_SIZE"
    | "data \<noteq> []" "\<not> length data < AOF_FILE_HEADER_SIZE" "\<not> le_open le"
    | "data \<noteq> []" "\<not> length data < AOF_FILE_HEADER_SIZE" "le_open le" "\<not> ok"
    using True h by auto
  then have "\<exists>rc. aof_load le (Some data) db = Some \<lparr>lr_rc = rc, lr_db = db, lr_file = Some data,
      lr_quarantine = None, lr_records = 0\<rparr>"
    by cases (simp_all add: aof_load_def h)
  then obtain rc where "r = \<lparr>lr_rc = rc, lr_db = db, lr_file = Some data, lr_quarantine = None, lr_records = 0\<rparr>"
    using assms(1) by (metis option.inject)
  then show ?thesis by simp
next
  case False
  obtain data' rs' where h: "aof_read_file_header (le_reads le) data = (True, data', rs')"
    using False by (cases "aof_read_file_header (le_reads le) data") auto
  from assms(1) False h obtain st b where loop: "aof_load_loop (le_clk le) (le_mem le) rs' data' (le_stack le)
      \<lparr>ls_db = db, ls_records = 0, ls_valid_end = AOF_FILE_HEADER_SIZE\<rparr> = Some (st, b)"
    by (auto simp: aof_load_def Let_def split: option.splits)
  have "db_inv (ls_db st)" using aof_load_loop_inv[OF loop] assms(2) by simp
  moreover have "r = \<lparr>lr_rc = 0, lr_db = ls_db st,
      lr_file = Some (if le_ftruncate le then take (ls_valid_end st) data else data),
      lr_quarantine = (if 0 < int (length data) - int (ls_valid_end st)
         then aof_quarantine_tail (le_quarantine le) data (ls_valid_end st)
                (nat (int (length data) - int (ls_valid_end st))) else None),
      lr_records = ls_records st\<rparr>"
    using assms(1) False h loop by (simp add: aof_load_def Let_def)
  ultimately show ?thesis
    by (intro disjI2 exI[of _ "ls_valid_end st"]) simp
qed

section \<open>Properties\<close>

text \<open>C31: Serialising a mutation that fits the buffer gives its record, reading that record off
  the front of any byte stream gives the mutation back, and a mutation that does not fit is
  refused.\<close>

theorem aof_record_roundtrip:
  assumes "length buf = AOF_RECORD_MAX" "wf_cstr (op_key p)" "wf_cstr (op_value p)" "i64_range (op_expire p)"
  shows "case aof_serialize buf (op_code p) (op_key p) (op_value p) (op_expire p) of
           Some (buf', n) \<Rightarrow> op_fits p \<and> take n buf' = op_record p
             \<and> take_op (take n buf' @ rest) = Some (p, rest)
         | None \<Rightarrow> \<not> op_fits p"
proof (cases "op_fits p")
  case True
  then have "27 + length (op_key p) + length (op_value p) \<le> length buf"
    using assms(1) by (simp add: op_fits_def aof_sizes)
  from aof_serialize_fits[OF this, of "op_code p" "op_expire p"] True show ?thesis
    by (auto simp: op_record_def[symmetric] aoflog.take_enc)
      (simp_all add: op_record_def length_aof_record aoflog.take_enc[unfolded op_record_def] True)
next
  case False
  then have "length buf < 27 + length (op_key p) + length (op_value p)"
    using assms by (simp add: op_fits_def aof_sizes)
  with assms(1) False show ?thesis
    by (simp add: aof_serialize_too_big aof_sizes)
qed

lemma op_k_fits: "op_fits (KSetex (lit ''k'') (lit ''v'') 7)" "op_fits (KDel (lit ''k''))"
  "op_fits (KSet (lit ''k'') (lit ''v''))"
  by (simp_all add: op_fits_def wf_cstr_def lit_def i64_range_def aof_sizes)

theorem aof_record_roundtrip_witness:
  "case aof_serialize (replicate AOF_RECORD_MAX 0) AOF_OP_SETEX (lit ''k'') (lit ''v'') 7 of
     Some (buf', n) \<Rightarrow> take_op (take n buf' @ [1, 2]) = Some (KSetex (lit ''k'') (lit ''v'') 7, [1, 2])
   | None \<Rightarrow> False"
  using aof_record_roundtrip[of "replicate AOF_RECORD_MAX 0" "KSetex (lit ''k'') (lit ''v'') 7" "[1, 2]"] op_k_fits
  by (auto simp: op_fits_def split: option.splits)

text \<open>The bytes of a log determine its mutations: two lists of mutations with the same
  records are the same list.\<close>

lemma aof_log_injective:
  assumes "\<forall>p \<in> set ps. op_fits p" "\<forall>p \<in> set qs. op_fits p"
    and "concat (map op_record ps) = concat (map op_record qs)"
  shows "ps = qs"
proof (rule aoflog.enc_inj_stream[OF assms(1,2) _ assms(3)])
  have "op_record (KDel (lit ''k'')) \<noteq> []"
    by (simp add: op_record_sealed sealed_split) (metis length_be(3) list.size(3) zero_neq_numeral)
  then show "take_op [] = None"
    by (intro aoflog.take_torn[OF op_k_fits(2)]) (simp add: strict_prefix_def)
qed

text \<open>C30: Loading a log of whole records that may end in the middle of one, when no call fails
  (reads of the log may come short or interrupted, those of the quarantine short): the
  records are replayed in order, those whose deadline has passed skipped, up to the end or
  to the first one the keyspace refuses; the keyspace is the abstract store after those
  mutations, the log is cut exactly behind them, and the refused record with all behind it,
  or the torn tail alone, goes to the quarantine file.\<close>

theorem aof_load_recovers:
  assumes works: "load_works le" and inv: "db_inv db" and fits: "\<forall>p \<in> set ops. op_fits p"
    and torn: "op_fits p" "strict_prefix torn (op_record p)"
  shows "\<exists>k m r. k \<le> length ops \<and> kv_apply_all (kept (le_clk le) 0 (take k ops)) (db_abs db) = Some m \<and>
           (k = length ops \<or> \<not> op_skipped (le_clk le k) (ops ! k) \<and> kv_apply (ops ! k) m = None) \<and>
           aof_load le (Some (aof_file_header created @ concat (map op_record ops) @ torn)) db = Some r \<and>
           lr_rc r = 0 \<and> db_inv (lr_db r) \<and> db_abs (lr_db r) = m \<and> lr_records r = k \<and>
           lr_file r = Some (aof_file_header created @ concat (map op_record (take k ops))) \<and>
           (let tail = concat (map op_record (drop k ops)) @ torn in
            lr_quarantine r = (if tail = [] then None else Some tail))"
proof -
  obtain k m where k: "k \<le> length ops" "kv_apply_all (kept (le_clk le) 0 (take k ops)) (db_abs db) = Some m"
    "k = length ops \<or> \<not> op_skipped (le_clk le k) (ops ! k) \<and> kv_apply (ops ! k) m = None"
    using replay_point[of ops "le_clk le" 0 "db_abs db"] by auto
  let ?tail = "concat (map op_record (drop k ops)) @ torn"
  have split: "concat (map op_record ops) = concat (map op_record (take k ops)) @ concat (map op_record (drop k ops))"
    by (metis append_take_drop_id concat_append map_append)
  have "stops_at le ?tail (length (take k ops)) m"
  proof (cases "k = length ops")
    case True
    with stops_at_torn[OF torn] show ?thesis by simp
  next
    case False
    with k have "k < length ops" by simp
    then have "drop k ops = ops ! k # drop (Suc k) ops" "op_fits (ops ! k)" "length (take k ops) = k"
      using fits by (simp_all add: Cons_nth_drop_Suc)
    with stops_at_refused[OF works, of "ops ! k" k m] k(3) False show ?thesis by simp
  qed
  moreover have "\<forall>q \<in> set (take k ops). op_fits q" using fits by (meson in_set_takeD)
  ultimately obtain r where
    "aof_load le (Some ((aof_file_header created @ concat (map op_record (take k ops))) @ ?tail)) db = Some r"
    "lr_rc r = 0" "db_inv (lr_db r)" "db_abs (lr_db r) = m" "lr_records r = length (take k ops)"
    "lr_file r = Some (aof_file_header created @ concat (map op_record (take k ops)))"
    "lr_quarantine r = (if ?tail = [] then None else Some ?tail)"
    using aof_load_upto[OF works inv _ k(2) _ refl] by blast
  with k show ?thesis
    by (intro exI[of _ k] exI[of _ m] exI[of _ r]) (simp add: split Let_def)
qed

text \<open>An environment in which every call succeeds and the clock stands still.\<close>

definition quiet_load :: "int \<Rightarrow> load_env" where
  "quiet_load now =
     \<lparr>le_open = True, le_reads = [], le_clk = (\<lambda>_. now), le_mem = (\<lambda>_. (True, True)),
      le_stack = replicate AOF_RECORD_MAX 0,
      le_quarantine = \<lparr>q_open = True, q_lseek = True, q_reads = [], q_writes = []\<rparr>,
      le_ftruncate = True\<rparr>"

lemma quiet_load_works: "load_works (quiet_load now)"
  by (simp add: load_works_def quiet_load_def quarantine_works_def)

lemma strict_prefix_record: "n < length (op_record p) \<Longrightarrow> strict_prefix (take n (op_record p)) (op_record p)"
  by (simp add: strict_prefix_def take_is_prefix)

theorem aof_load_recovers_witness:
  "\<exists>r. aof_load (quiet_load 3)
        (Some (aof_file_header 0 @ concat (map op_record
                  [KSetex (lit ''k'') (lit ''v'') 7, KDel (lit ''k''), KDel (lit ''k'')])
               @ take 5 (op_record (KDel (lit ''k''))))) (db_create 0) = Some r
       \<and> db_abs (lr_db r) = Map.empty \<and> lr_records r = 2
       \<and> lr_quarantine r = Some (op_record (KDel (lit ''k'')) @ take 5 (op_record (KDel (lit ''k''))))"
proof -
  let ?p = "KSetex (lit ''k'') (lit ''v'') 7" and ?q = "KDel (lit ''k'')"
  let ?ops = "[?p, ?q, ?q]" and ?clk = "le_clk (quiet_load 3)"
  have "strict_prefix (take 5 (op_record ?q)) (op_record ?q)"
    by (rule strict_prefix_record) (simp add: op_record_def length_aof_record)
  moreover have "\<forall>p \<in> set ?ops. op_fits p" using op_k_fits by simp
  ultimately obtain k m r where k: "k \<le> length ?ops" "kv_apply_all (kept ?clk 0 (take k ?ops)) (db_abs (db_create 0)) = Some m"
    "k = length ?ops \<or> \<not> op_skipped (?clk k) (?ops ! k) \<and> kv_apply (?ops ! k) m = None"
    and r: "aof_load (quiet_load 3) (Some (aof_file_header 0 @ concat (map op_record ?ops) @ take 5 (op_record ?q)))
        (db_create 0) = Some r"
      "db_abs (lr_db r) = m" "lr_records r = k"
      "lr_quarantine r = (if concat (map op_record (drop k ?ops)) @ take 5 (op_record ?q) = [] then None
         else Some (concat (map op_record (drop k ?ops)) @ take 5 (op_record ?q)))"
    using aof_load_recovers[OF quiet_load_works db_create_inv _ op_k_fits(2), of ?ops "take 5 (op_record ?q)" 3 0 0]
    unfolding Let_def by force
  have "k = 0 \<or> k = 1 \<or> k = 2 \<or> k = 3" using k(1) by (simp, linarith)
  then have "k = 2 \<and> m = Map.empty"
    using k(2,3) by (auto simp: quiet_load_def op_skipped_def db_create_abs numeral_3_eq_3 numeral_2_eq_2)
  then show ?thesis using r op_record_nonempty[of ?q] by auto
qed

text \<open>C32: A record damaged inside a window of at most eight bytes of its body is never
  replayed: the load stops in front of it with the keyspace of the records before it, and
  the record and everything behind it go to the quarantine file.\<close>

theorem aof_load_stops_at_corruption:
  assumes works: "load_works le" and inv: "db_inv db" and fits: "\<forall>p \<in> set ops. op_fits p"
    and run: "kv_apply_all (kept (le_clk le) 0 ops) (db_abs db) = Some m"
    and bad: "op_fits p" "op_body p = pre @ w @ post" "length w = length w'" "length w \<le> 8" "w \<noteq> w'"
  shows "let log = aof_file_header created @ concat (map op_record ops);
             tail = take AOF_HEADER_SIZE (op_record p) @ (pre @ w' @ post) @ rest in
         \<exists>r. aof_load le (Some (log @ tail)) db = Some r \<and> db_abs (lr_db r) = m \<and>
             lr_records r = length ops \<and> lr_file r = Some log \<and> lr_quarantine r = Some tail"
proof -
  let ?body = "pre @ w' @ post" and ?c = "crc64 0 (be32 (length (op_body p)) @ op_body p)"
  let ?tail = "be64 ?c @ be32 (length ?body) @ ?body @ rest"
  have len: "length ?body = length (op_body p)" using bad(2,3) by simp
  have "?c \<noteq> crc64 0 (be32 (length ?body) @ ?body)"
    using crc64_burst_neq[OF bad(3-5), of 0 "be32 (length ?body) @ pre" post] bad(2,3) by simp
  then have "stops_at le ?tail (length ops) m"
    using op_fits_room[OF bad(1)] len by (intro stops_at_corrupt) simp_all
  moreover have "take 12 (op_record p) = be64 ?c @ be32 (length ?body)"
    unfolding len by (simp add: op_record_sealed sealed_split be_simps)
  then have "take AOF_HEADER_SIZE (op_record p) @ ?body @ rest = ?tail" by (simp add: aof_sizes)
  moreover have "?tail \<noteq> []" by (metis append_is_Nil_conv length_be(3) list.size(3) zero_neq_numeral)
  ultimately show ?thesis
    unfolding Let_def using aof_load_upto[OF works inv fits run _ refl, of ?tail created] by auto
qed

theorem aof_load_stops_at_corruption_witness:
  "\<exists>r. aof_load (quiet_load 3)
        (Some ((aof_file_header 0 @ concat (map op_record [KSetex (lit ''k'') (lit ''v'') 7]))
               @ take AOF_HEADER_SIZE (op_record (KDel (lit ''k'')))
                 @ ([] @ [1] @ tl (op_body (KDel (lit ''k'')))) @ [])) (db_create 0) = Some r
       \<and> db_abs (lr_db r) = [lit ''k'' \<mapsto> (lit ''v'', Some 7)] \<and> lr_records r = 1"
proof -
  let ?p = "KSetex (lit ''k'') (lit ''v'') 7" and ?q = "KDel (lit ''k'')"
  have "kv_apply_all (kept (le_clk (quiet_load 3)) 0 [?p]) (db_abs (db_create 0)) =
      Some [lit ''k'' \<mapsto> (lit ''v'', Some 7)]"
    by (simp add: quiet_load_def op_skipped_def db_create_abs)
  moreover have "op_body ?q = [] @ [2] @ tl (op_body ?q)" by (simp add: op_body_def record_body_def)
  ultimately show ?thesis
    using aof_load_stops_at_corruption[OF quiet_load_works db_create_inv _ _ op_k_fits(2),
        of "[?p]" 3 0 _ "[]" "[2]" "tl (op_body ?q)" "[1]" 0 "[]"] op_k_fits(1)
    by (fastforce simp: Let_def)
qed

text \<open>C33: A record that is intact but refused by the keyspace ends the load as damage does: it
  and every record behind it are cut off the log. A deletion whose record follows an
  expired, hence skipped, set of the key is such a record.\<close>

theorem aof_load_stops_at_refused_record:
  assumes "load_works le" "db_inv db" "\<forall>p \<in> set ops. op_fits p" "op_fits p"
    and "kv_apply_all (kept (le_clk le) 0 ops) (db_abs db) = Some m"
    and "\<not> op_skipped (le_clk le (length ops)) p" "kv_apply p m = None"
  shows "let log = aof_file_header created @ concat (map op_record ops);
             tail = op_record p @ concat (map op_record later) in
         \<exists>r. aof_load le (Some (log @ tail)) db = Some r \<and> db_abs (lr_db r) = m \<and>
             lr_records r = length ops \<and> lr_file r = Some log \<and> lr_quarantine r = Some tail"
proof -
  show ?thesis
    unfolding Let_def
    using aof_load_upto[OF assms(1-3,5) stops_at_refused[OF assms(1,4,6,7)] refl] op_record_nonempty[of p]
    by auto
qed

theorem aof_load_stops_at_refused_record_witness:
  "\<exists>r. aof_load (quiet_load 8)
        (Some ((aof_file_header 0 @ concat (map op_record [KSetex (lit ''k'') (lit ''v'') 7]))
               @ op_record (KDel (lit ''k'')) @ concat (map op_record [KSet (lit ''k'') (lit ''v'')])))
        (db_create 0) = Some r
       \<and> db_abs (lr_db r) = Map.empty \<and> lr_records r = 1"
proof -
  let ?p = "KSetex (lit ''k'') (lit ''v'') 7" and ?q = "KDel (lit ''k'')"
  have "kv_apply_all (kept (le_clk (quiet_load 8)) 0 [?p]) (db_abs (db_create 0)) = Some Map.empty"
    "\<not> op_skipped (le_clk (quiet_load 8) (length [?p])) ?q"
    by (simp_all add: quiet_load_def op_skipped_def db_create_abs)
  then show ?thesis
    using aof_load_stops_at_refused_record[OF quiet_load_works db_create_inv _ op_k_fits(2),
        of "[?p]" 8 0 Map.empty 0 "[KSet (lit ''k'') (lit ''v'')]"] op_k_fits(1)
    by (fastforce simp: Let_def)
qed

text \<open>C34: Whatever the file holds and whatever the calls, allocations and the clock do, a load
  that returns (it may overrun its record buffer, C35) leaves a well-formed keyspace, and a
  prefix of the file in the log, the whole file when it could not be truncated. What was put
  in quarantine is a beginning of the part behind that prefix, and all of it when the
  quarantine file could be opened and copied without a failing or interrupted call: then no
  byte is lost. The truncation does not depend on the copy.\<close>

theorem aof_load_keeps_every_byte:
  assumes "aof_load le (Some data) db = Some r" "db_inv db"
  shows "db_inv (lr_db r) \<and>
         (\<exists>n. lr_file r = Some (if le_ftruncate le then take n data else data) \<and>
              (case lr_quarantine r of
                 None \<Rightarrow> n < length data \<longrightarrow> \<not> q_open (le_quarantine le)
               | Some tail \<Rightarrow> n < length data \<and> prefix tail (drop n data) \<and>
                   (quarantine_works (le_quarantine le) \<longrightarrow> tail = drop n data)))"
proof -
  let ?q = "\<lambda>n. aof_quarantine_tail (le_quarantine le) data n (nat (int (length data) - int n))"
  have q: "case ?q n of None \<Rightarrow> \<not> q_open (le_quarantine le)
      | Some tail \<Rightarrow> prefix tail (drop n data) \<and> (quarantine_works (le_quarantine le) \<longrightarrow> tail = drop n data)"
    if "n < length data" for n
  proof -
    have len: "nat (int (length data) - int n) = length data - n" using that by linarith
    show ?thesis
    proof (cases "?q n")
      case None
      then show ?thesis by (simp add: aof_quarantine_tail_def split: if_splits)
    next
      case (Some tail)
      with aof_quarantine_tail_prefix[OF Some] aof_quarantine_tail_ok[of "le_quarantine le" data n] len
      show ?thesis by auto
    qed
  qed
  have "(lr_file r = Some data \<and> lr_quarantine r = None \<and> lr_db r = db) \<or>
      (\<exists>n. lr_file r = Some (if le_ftruncate le then take n data else data) \<and>
         lr_quarantine r = (if n < length data then ?q n else None) \<and> db_inv (lr_db r))"
    using aof_load_shape[OF assms] by simp
  then show ?thesis
  proof (elim disjE exE conjE)
    assume "lr_file r = Some data" "lr_quarantine r = None" "lr_db r = db"
    then show ?thesis using assms(2) by (intro conjI exI[of _ "length data"]) auto
  next
    fix n assume "lr_file r = Some (if le_ftruncate le then take n data else data)"
      "lr_quarantine r = (if n < length data then ?q n else None)" "db_inv (lr_db r)"
    then show ?thesis
      using q[of n] by (intro conjI exI[of _ n]) (auto split: option.splits if_splits)
  qed
qed

theorem aof_load_keeps_every_byte_witness:
  "\<exists>r. aof_load (quiet_load 3)
        (Some (aof_file_header 0 @ op_record (KSetex (lit ''k'') (lit ''v'') 7)
               @ take 5 (op_record (KDel (lit ''k''))))) (db_create 0) = Some r \<and>
       db_inv (lr_db r) \<and>
       (\<exists>n. lr_file r = Some (take n (aof_file_header 0 @ op_record (KSetex (lit ''k'') (lit ''v'') 7)
                                       @ take 5 (op_record (KDel (lit ''k''))))) \<and>
            lr_quarantine r = Some (drop n (aof_file_header 0 @ op_record (KSetex (lit ''k'') (lit ''v'') 7)
                                             @ take 5 (op_record (KDel (lit ''k''))))))"
proof -
  let ?p = "KSetex (lit ''k'') (lit ''v'') 7" and ?q = "KDel (lit ''k'')"
  let ?torn = "take 5 (op_record ?q)"
  let ?data = "aof_file_header 0 @ op_record ?p @ ?torn"
  have run: "kv_apply_all (kept (le_clk (quiet_load 3)) 0 [?p]) (db_abs (db_create 0)) =
      Some [lit ''k'' \<mapsto> (lit ''v'', Some 7)]"
    by (simp add: quiet_load_def op_skipped_def db_create_abs)
  have "strict_prefix ?torn (op_record ?q)"
    by (rule strict_prefix_record) (simp add: op_record_def length_aof_record)
  from aof_load_upto[OF quiet_load_works db_create_inv _ run stops_at_torn[OF op_k_fits(2) this] refl, of 0]
    op_k_fits(1)
  obtain r where r: "aof_load (quiet_load 3) (Some ?data) (db_create 0) = Some r" "lr_quarantine r = Some ?torn"
    using op_record_nonempty[of ?q] by (auto split: if_splits)
  have "quarantine_works (le_quarantine (quiet_load 3))" "le_ftruncate (quiet_load 3)"
    using quiet_load_works[of 3] by (auto simp: load_works_def)
  with aof_load_keeps_every_byte[OF r(1) db_create_inv] r show ?thesis by auto
qed

text \<open>C35: Nothing checks the length field of a record against the buffer it is read into: a
  record header that announces more than the 4084 bytes left in the buffer, in a file that
  has them, makes the load write behind its array.\<close>

theorem aof_load_buffer_overrun:
  assumes works: "load_works le" and n: "AOF_RECORD_MAX - AOF_HEADER_SIZE < n" "n < 2 ^ 32"
    and bytes: "AOF_RECORD_MAX - AOF_HEADER_SIZE < length rest" and crc: "length crc = AOF_CRC_SIZE"
  shows "aof_load le (Some (aof_file_header created @ crc @ be32 n @ rest)) db = None"
proof -
  let ?data = "crc @ be32 n @ rest"
  note w = works[unfolded load_works_def]
  have c: "length crc = 8" using crc by (simp add: aof_sizes)
  obtain rs1 where hdr: "aof_read_file_header (le_reads le) (aof_file_header created @ ?data) = (True, ?data, rs1)"
    "SysErr \<notin> set rs1"
    using aof_read_file_header_ok w by blast
  obtain rs2 where r2: "read_exact rs1 ?data 12 = (Some (crc @ be32 n), rest, rs2)" "SysErr \<notin> set rs2"
    using read_exact_ok[OF hdr(2), of ?data 12] c by (auto simp: be_simps)
  obtain rs3 where r3: "read_exact rs2 rest n = (Some (take n rest), drop n rest, rs3)"
    using read_exact_ok[OF r2(2), of rest n] by blast
  have bl: "be_dec (bytes_at 8 4 (put rec 0 (crc @ be32 n))) = n" for rec
    using n(2) c by (simp add: put_def buf_simps be_simps)
  have ne: "be32 n \<noteq> []" by (metis length_be(2) list.size(3) zero_neq_numeral)
  have "4084 < n" "4084 < length rest" using n bytes by (simp_all add: aof_sizes)
  then have "fst (aof_read_record rs1 ?data (le_stack le)) = Overrun"
    using r2(1) r3 by (simp add: aof_read_record_def aof_sizes bl be_simps ne c Let_def)
  then have "aof_load_loop (le_clk le) (le_mem le) rs1 ?data (le_stack le) st = None" for st
    by (subst aof_load_loop.simps) (auto split: prod.split)
  moreover have "length (aof_file_header created) = AOF_FILE_HEADER_SIZE"
    by (simp add: aof_file_header_def Let_def aof_sizes AOF_FILE_MAGIC_def lit_def be_simps)
  ultimately show ?thesis
    using w hdr(1) c by (auto simp: aof_load_def Let_def)
qed

theorem aof_load_buffer_overrun_witness:
  "aof_load (quiet_load 0) (Some (aof_file_header 0 @ replicate 8 0 @ be32 5000 @ replicate 5000 0)) (db_create 0) = None"
  by (rule aof_load_buffer_overrun) (simp_all add: quiet_load_works aof_sizes)

end
