(* ===== verification/Server_State.thy ===== *)
theory Server_State
  imports Aof_Load
begin

text \<open>
  The state of the server process (\<open>server.h\<close>, \<open>config.h\<close>, \<open>networking.h\<close>,
  \<open>event_loop.h\<close>, the rewrite states of \<open>aof.h\<close>) and what it uses of the operating system:
  files, sockets, the child process and the outcomes of system calls.

  One record holds the global \<open>server\<close>, the function-level statics, and behind them the
  system. A C array indexed by descriptor is a function on \<open>nat\<close> of which the entries below
  \<open>MAX_FDS\<close> matter. A regular file is an inode with its bytes and the number of bytes
  already on the device; a path and a descriptor lead to an inode, so a rename redirects the
  path and leaves open descriptors where they are. The outcomes of calls are lists that the
  calls consume: \<open>os_io\<close> for transfers, \<open>os_ok\<close> for calls that succeed or fail and
  \<open>os_alloc\<close> for allocations; a list that has ended stands for success. \<open>os_listens\<close> is the
  trace of the sockets \<open>listen\<close> was called on.

  The counters of the server (\<open>cronloops\<close>, \<open>aof_total_writes\<close>, \<open>aof_total_fsyncs\<close>, the numbers
  of rewrites and the 32-bit \<open>aof_rewrite_failed_streak\<close>) are unbounded integers: the model
  does not follow them to the overflow they would reach after \<open>2 ^ 31\<close> steps or more.
\<close>

section \<open>Constants and enumerations\<close>

definition MAX_FDS :: nat where "MAX_FDS = 1024"
definition MAX_EVENTS :: nat where "MAX_EVENTS = 64"
definition FRAME_HDR_SIZE :: nat where "FRAME_HDR_SIZE = 4"
definition WBUF_SIZE :: nat where "WBUF_SIZE = (MSG_MAX + FRAME_HDR_SIZE) * 2"

lemmas net_sizes = MAX_FDS_def MAX_EVENTS_def FRAME_HDR_SIZE_def WBUF_SIZE_def MSG_MAX_def

datatype aof_policy_t = AOF_POLICY_NO | AOF_POLICY_PERTICK | AOF_POLICY_ALWAYS
datatype aof_fsync_mode_t = AOF_FSYNC_DATA | AOF_FSYNC_META | AOF_FSYNC_FULL
datatype aof_rewrite_state_t = AOF_RW_IDLE | AOF_RW_ACTIVE | AOF_RW_ABORTING

text \<open>The platforms the conditional compilation of \<open>durable_flush\<close> distinguishes.\<close>

datatype platform = Linux | Apple | OtherUnix

section \<open>Configuration\<close>

record server_config_t =
  cfg_port :: int
  cfg_tcp_backlog :: int
  cfg_hz :: int
  cfg_active_expire_enabled :: bool
  cfg_active_expire_percent :: int
  cfg_active_expire_keys_per_round :: int
  cfg_client_timeout_s :: int
  cfg_client_timeout_check_hz :: int
  cfg_aof_check_hz :: int
  cfg_aof_filename :: cstr
  cfg_aof_enabled :: bool
  cfg_aof_policy :: aof_policy_t
  cfg_aof_fsync_mode :: aof_fsync_mode_t
  cfg_aof_rewrite_min_size :: int
  cfg_aof_rewrite_growth :: int
  cfg_aof_rewrite_buf_max_size :: int
  cfg_aof_rewrite_backoff_base_ms :: int
  cfg_aof_rewrite_backoff_max_ms :: int

text \<open>\<open>init_server_config\<close> with the defaults of \<open>config.h\<close>.\<close>

definition init_server_config :: server_config_t where
  "init_server_config =
     \<lparr>cfg_port = 9999, cfg_tcp_backlog = 511, cfg_hz = 10, cfg_active_expire_enabled = True,
      cfg_active_expire_percent = 25, cfg_active_expire_keys_per_round = 20,
      cfg_client_timeout_s = 300, cfg_client_timeout_check_hz = 10, cfg_aof_check_hz = 10,
      cfg_aof_filename = lit ''bytekv.aof'', cfg_aof_enabled = True,
      cfg_aof_policy = AOF_POLICY_ALWAYS, cfg_aof_fsync_mode = AOF_FSYNC_FULL,
      cfg_aof_rewrite_min_size = 1 * 1024 * 1024, cfg_aof_rewrite_growth = 100,
      cfg_aof_rewrite_buf_max_size = 128 * 1024 * 1024,
      cfg_aof_rewrite_backoff_base_ms = 10000, cfg_aof_rewrite_backoff_max_ms = 600000\<rparr>"

section \<open>Clients and the event loop\<close>

text \<open>
  A buffer with its fill level is the list of the bytes it holds: \<open>c_buf\<close> stands for
  \<open>buf\<close> and \<open>len\<close>, \<open>c_wbuf\<close> for the \<open>wlen\<close> bytes queued in \<open>wbuf\<close>, of which
  \<open>c_woff\<close> are sent.
\<close>

record client_t =
  c_active :: bool
  c_last_active_ms :: int
  c_buf :: "byte list"
  c_wbuf :: "byte list"
  c_woff :: nat

definition client_zero :: client_t where
  "client_zero = \<lparr>c_active = False, c_last_active_ms = 0, c_buf = [], c_wbuf = [], c_woff = 0\<rparr>"

text \<open>The functions the loop is given as handlers.\<close>

datatype el_handler_fn = OnAccept | OnRead | OnWrite | OnShutdown

record event_loop_t =
  el_read_handlers :: "nat \<Rightarrow> el_handler_fn option"
  el_write_handlers :: "nat \<Rightarrow> el_handler_fn option"
  el_poll_timeout_ms :: int
  el_stop :: bool

section \<open>The server and the system\<close>

datatype child = NoChild | Running db | Exited int | Signaled

record server_t =
  config :: server_config_t
  server_fd :: int
  el :: event_loop_t
  clients :: "nat \<Rightarrow> client_t"
  clients_count :: nat
  srv_pipe :: "int \<times> int"
  cronloops :: int
  sdb :: db
  snow_ms :: int
  now_realtime_ms :: int
  aof_fd :: int
  aof_buf_dirty :: bool
  aof_rewrite_state :: aof_rewrite_state_t
  aof_rewrite_pid :: int
  aof_rewrite_buf :: "byte list option"
  aof_rewrite_cap :: nat
  aof_rewrite_last_size :: int
  aof_temp_filename :: cstr
  aof_total_writes :: int
  aof_total_fsyncs :: int
  aof_rewrites_completed :: int
  aof_rewrites_failed :: int
  aof_last_rewrite_start_ms :: int
  aof_last_rewrite_duration_ms :: int
  aof_rewrite_failed_streak :: int
  aof_rewrite_next_attempt_ms :: int
  last_fsync_ms :: int
  last_check_ms :: int
  last_timeout_check_ms :: int
  shutdown_signaled :: bool

record sv = server_t +
  os_platform :: platform
  os_inode :: "nat \<Rightarrow> byte list"
  os_synced :: "nat \<Rightarrow> nat"
  os_path :: "cstr \<Rightarrow> nat option"
  os_fd :: "int \<Rightarrow> nat option"
  os_next_ino :: nat
  os_next_fd :: int
  os_io :: "sys list"
  os_ok :: "bool list"
  os_alloc :: "bool list"
  os_child :: child
  os_pipe :: "byte list"
  os_sent :: "nat \<Rightarrow> byte list"
  os_kq_read :: "nat set"
  os_kq_write :: "nat set"
  os_listens :: "int list"

text \<open>The process at its start: statics are zero, nothing is open, no file exists.\<close>

definition server_zero :: "platform \<Rightarrow> sv" where
  "server_zero pf =
     \<lparr>config = init_server_config, server_fd = 0,
      el = \<lparr>el_read_handlers = (\<lambda>_. None), el_write_handlers = (\<lambda>_. None), el_poll_timeout_ms = 0,
            el_stop = False\<rparr>,
      clients = (\<lambda>_. client_zero), clients_count = 0, srv_pipe = (0, 0), cronloops = 0, sdb = db_create 0,
      snow_ms = 0, now_realtime_ms = 0, aof_fd = 0, aof_buf_dirty = False,
      aof_rewrite_state = AOF_RW_IDLE, aof_rewrite_pid = 0, aof_rewrite_buf = None, aof_rewrite_cap = 0,
      aof_rewrite_last_size = 0, aof_temp_filename = [], aof_total_writes = 0, aof_total_fsyncs = 0,
      aof_rewrites_completed = 0, aof_rewrites_failed = 0, aof_last_rewrite_start_ms = 0,
      aof_last_rewrite_duration_ms = 0, aof_rewrite_failed_streak = 0, aof_rewrite_next_attempt_ms = 0,
      last_fsync_ms = 0, last_check_ms = 0, last_timeout_check_ms = 0, shutdown_signaled = False,
      os_platform = pf, os_inode = (\<lambda>_. []), os_synced = (\<lambda>_. 0), os_path = (\<lambda>_. None),
      os_fd = (\<lambda>_. None), os_next_ino = 0, os_next_fd = 3, os_io = [], os_ok = [], os_alloc = [],
      os_child = NoChild, os_pipe = [], os_sent = (\<lambda>_. []), os_kq_read = {}, os_kq_write = {},
      os_listens = []\<rparr>"

section \<open>System calls\<close>

text \<open>A call that succeeds or fails, and an allocation.\<close>

definition sys_ok :: "sv \<Rightarrow> bool \<times> sv" where
  "sys_ok s = (case os_ok s of [] \<Rightarrow> (True, s) | b # bs \<Rightarrow> (b, s\<lparr>os_ok := bs\<rparr>))"

definition sys_alloc :: "sv \<Rightarrow> bool \<times> sv" where
  "sys_alloc s = (case os_alloc s of [] \<Rightarrow> (True, s) | b # bs \<Rightarrow> (b, s\<lparr>os_alloc := bs\<rparr>))"

text \<open>The bytes of the file under a path, \<open>stat\<close>'s view of it.\<close>

definition file_at :: "sv \<Rightarrow> cstr \<Rightarrow> byte list option" where
  "file_at s path = map_option (os_inode s) (os_path s path)"

text \<open>The bytes of the file behind a descriptor.\<close>

definition fd_bytes :: "sv \<Rightarrow> int \<Rightarrow> byte list option" where
  "fd_bytes s fd = map_option (os_inode s) (os_fd s fd)"

text \<open>A descriptor for an inode.\<close>

definition sys_bind_fd :: "nat \<Rightarrow> sv \<Rightarrow> int \<times> sv" where
  "sys_bind_fd ino s =
     (os_next_fd s, s\<lparr>os_fd := (os_fd s)(os_next_fd s \<mapsto> ino), os_next_fd := os_next_fd s + 1\<rparr>)"

definition sys_new_file :: "cstr \<Rightarrow> sv \<Rightarrow> nat \<times> sv" where
  "sys_new_file path s =
     (let ino = os_next_ino s in
      (ino, s\<lparr>os_inode := (os_inode s)(ino := []), os_synced := (os_synced s)(ino := 0),
              os_path := (os_path s)(path \<mapsto> ino), os_next_ino := ino + 1\<rparr>))"

text \<open>\<open>open\<close> with \<open>O_CREAT | O_TRUNC\<close>, with \<open>O_CREAT | O_APPEND\<close>, and with
  \<open>O_APPEND\<close> alone; -1 on failure.\<close>

definition sys_open_trunc :: "cstr \<Rightarrow> sv \<Rightarrow> int \<times> sv" where
  "sys_open_trunc path s =
     (let (ok, s) = sys_ok s in
      if \<not> ok then (-1, s)
      else case os_path s path of
        Some ino \<Rightarrow> sys_bind_fd ino (s\<lparr>os_inode := (os_inode s)(ino := []),
                                      os_synced := (os_synced s)(ino := 0)\<rparr>)
      | None \<Rightarrow> (let (ino, s) = sys_new_file path s in sys_bind_fd ino s))"

definition sys_open_create :: "cstr \<Rightarrow> sv \<Rightarrow> int \<times> sv" where
  "sys_open_create path s =
     (let (ok, s) = sys_ok s in
      if \<not> ok then (-1, s)
      else case os_path s path of
        Some ino \<Rightarrow> sys_bind_fd ino s
      | None \<Rightarrow> (let (ino, s) = sys_new_file path s in sys_bind_fd ino s))"

definition sys_open_existing :: "cstr \<Rightarrow> sv \<Rightarrow> int \<times> sv" where
  "sys_open_existing path s =
     (let (ok, s) = sys_ok s in
      if \<not> ok then (-1, s)
      else case os_path s path of Some ino \<Rightarrow> sys_bind_fd ino s | None \<Rightarrow> (-1, s))"

definition sys_close :: "int \<Rightarrow> sv \<Rightarrow> sv" where
  "sys_close fd s = s\<lparr>os_fd := (os_fd s)(fd := None)\<rparr>"

text \<open>\<open>write_all\<close> on a descriptor: every byte goes to the end of the file. The files are
  opened for appending or written from their start to their end by one process, so this is
  where the bytes land. A descriptor that is not open fails at once.\<close>

definition sys_write_all :: "int \<Rightarrow> byte list \<Rightarrow> sv \<Rightarrow> bool \<times> sv" where
  "sys_write_all fd bytes s =
     (case os_fd s fd of
        None \<Rightarrow> (bytes = [], s)
      | Some ino \<Rightarrow>
          (case write_all (os_io s) bytes of
             (ok, written, rest) \<Rightarrow>
               (ok, s\<lparr>os_io := rest, os_inode := (os_inode s)(ino := os_inode s ino @ written)\<rparr>)))"

text \<open>
  A flush that succeeds hands everything written so far to the device. \<open>fdatasync\<close>,
  \<open>fsync\<close> and \<open>F_FULLFSYNC\<close> differ in metadata and in what the device may still hold in a
  cache of its own; below this line the model does not distinguish them.
\<close>

definition sys_flush :: "int \<Rightarrow> sv \<Rightarrow> bool \<times> sv" where
  "sys_flush fd s =
     (let (ok, s) = sys_ok s in
      case os_fd s fd of
        Some ino \<Rightarrow>
          if ok then (True, s\<lparr>os_synced := (os_synced s)(ino := length (os_inode s ino))\<rparr>) else (False, s)
      | None \<Rightarrow> (False, s))"

definition sys_rename :: "cstr \<Rightarrow> cstr \<Rightarrow> sv \<Rightarrow> bool \<times> sv" where
  "sys_rename from to s =
     (let (ok, s) = sys_ok s in
      case os_path s from of
        Some ino \<Rightarrow>
          if ok then (True, s\<lparr>os_path := if from = to then os_path s else (os_path s)(from := None, to \<mapsto> ino)\<rparr>)
          else (False, s)
      | None \<Rightarrow> (False, s))"

definition sys_unlink :: "cstr \<Rightarrow> sv \<Rightarrow> sv" where
  "sys_unlink path s =
     (let (ok, s) = sys_ok s in if ok then s\<lparr>os_path := (os_path s)(path := None)\<rparr> else s)"

text \<open>
  The signal handler writes the number of the signal to the shutdown pipe; a second
  \<open>SIGINT\<close> ends the process (\<open>None\<close>). \<open>fork\<close> keeps the handlers and shares the pipe, so
  a \<open>SIGTERM\<close> sent to the rewrite child runs the same handler there: the byte arrives in the
  parent's pipe and the child goes on. A child that has ended is not affected.
\<close>

definition SIGINT :: byte where "SIGINT = 2"
definition SIGTERM :: byte where "SIGTERM = 15"

definition sig_shutdown_handler :: "byte \<Rightarrow> sv \<Rightarrow> sv option" where
  "sig_shutdown_handler sig s =
     (if shutdown_signaled s \<and> sig = SIGINT then None
      else Some (s\<lparr>shutdown_signaled := True, os_pipe := os_pipe s @ [sig]\<rparr>))"

definition sys_kill_child :: "sv \<Rightarrow> sv" where
  "sys_kill_child s =
     (case os_child s of
        Running _ \<Rightarrow>
          (case sig_shutdown_handler SIGTERM s of
             Some s' \<Rightarrow> s\<lparr>os_pipe := os_pipe s'\<rparr>
           | None \<Rightarrow> s)
      | _ \<Rightarrow> s)"

text \<open>\<open>open_aof\<close>.\<close>

definition open_aof :: "cstr \<Rightarrow> sv \<Rightarrow> int \<times> sv" where
  "open_aof path s = sys_open_create path s"

end
