(* ===== verification/Aof_Write.thy ===== *)
theory Aof_Write
  imports Server_State
begin

text \<open>
  The write path of the append-only file (\<open>aof.c\<close>): flushing, appending one record to the
  live file and to the diff buffer of a running rewrite, and the periodic flush.
\<close>

section \<open>Operations\<close>

text \<open>\<open>durable_flush\<close>: the call depends on the mode and the platform; where
  \<open>F_FULLFSYNC\<close> fails, \<open>fsync\<close> is tried. The calls give guarantees of different strength
  (metadata, the device's own cache); in the model each has the effect of \<open>sys_flush\<close>.\<close>

definition count_fsync :: "bool \<times> sv \<Rightarrow> bool \<times> sv" where
  "count_fsync r = (fst r, if fst r then (snd r)\<lparr>aof_total_fsyncs := aof_total_fsyncs (snd r) + 1\<rparr> else snd r)"

definition durable_flush :: "int \<Rightarrow> sv \<Rightarrow> bool \<times> sv" where
  "durable_flush fd s =
     (case cfg_aof_fsync_mode (config s) of
        AOF_FSYNC_FULL \<Rightarrow>
          if os_platform s = Apple then
            (let (ok, s1) = sys_flush fd s in
             if ok then count_fsync (True, s1) else count_fsync (sys_flush fd s1))
          else count_fsync (sys_flush fd s)
      | AOF_FSYNC_DATA \<Rightarrow> count_fsync (sys_flush fd s)
      | AOF_FSYNC_META \<Rightarrow> count_fsync (sys_flush fd s))"

definition aof_write_file_header :: "int \<Rightarrow> int \<Rightarrow> sv \<Rightarrow> bool \<times> sv" where
  "aof_write_file_header fd now s = sys_write_all fd (aof_file_header now) s"

definition aof_emit_live :: "byte list \<Rightarrow> sv \<Rightarrow> bool \<times> sv" where
  "aof_emit_live buf s =
     (let (ok, s1) = sys_write_all (aof_fd s) buf s in
      if \<not> ok then (False, s1) else (True, s1\<lparr>aof_total_writes := aof_total_writes s1 + 1\<rparr>))"

definition aof_abort_rewrite :: "sv \<Rightarrow> sv" where
  "aof_abort_rewrite s =
     (sys_kill_child s)\<lparr>aof_rewrite_buf := None, aof_rewrite_state := AOF_RW_ABORTING\<rparr>"

text \<open>\<open>aof_emit_diff\<close>; the diff buffer is the list of its \<open>aof_rewrite_len\<close> bytes.\<close>

definition aof_emit_diff :: "byte list \<Rightarrow> sv \<Rightarrow> sv" where
  "aof_emit_diff buf s =
     (let cur = (case aof_rewrite_buf s of None \<Rightarrow> [] | Some b \<Rightarrow> b);
          needed = length cur + length buf;
          max_cap = nat (cfg_aof_rewrite_buf_max_size (config s)) in
      if aof_rewrite_cap s < needed then
        if max_cap < needed then aof_abort_rewrite s
        else
          (let new_cap = aof_rewrite_cap s * 2;
               new_cap = (if new_cap < needed then needed else new_cap);
               new_cap = (if max_cap < new_cap then max_cap else new_cap);
               (ok, s) = sys_alloc s in
           if \<not> ok then aof_abort_rewrite s
           else s\<lparr>aof_rewrite_cap := new_cap, aof_rewrite_buf := Some (cur @ buf)\<rparr>)
      else s\<lparr>aof_rewrite_buf := Some (cur @ buf)\<rparr>)"

definition aof_maybe_fsync_always :: "sv \<Rightarrow> bool \<times> sv" where
  "aof_maybe_fsync_always s =
     (if cfg_aof_policy (config s) \<noteq> AOF_POLICY_ALWAYS then (True, s)
      else
        (let (ok, s1) = durable_flush (aof_fd s) s in
         if \<not> ok then (False, s1) else (True, s1\<lparr>aof_buf_dirty := False\<rparr>)))"

text \<open>\<open>aof_append\<close>; \<open>stack\<close> is what the local buffer holds on entry.\<close>

definition aof_append ::
    "byte list \<Rightarrow> aof_opcode_t \<Rightarrow> cstr \<Rightarrow> cstr \<Rightarrow> int \<Rightarrow> sv \<Rightarrow> int \<times> sv" where
  "aof_append stack op key val expire_at s =
     (if \<not> cfg_aof_enabled (config s) then (EXIT_SUCCESS, s)
      else
        (case aof_serialize stack op key val expire_at of
           None \<Rightarrow> (EXIT_FAILURE, s)
         | Some (buf, record_size) \<Rightarrow>
             (let rec = take record_size buf;
                  (ok, s1) = aof_emit_live rec s in
              if \<not> ok then (EXIT_FAILURE, s1)
              else
                (let s2 = (if aof_rewrite_state s1 = AOF_RW_ACTIVE then aof_emit_diff rec s1 else s1);
                     s3 = s2\<lparr>aof_buf_dirty := True\<rparr>;
                     (ok, s4) = aof_maybe_fsync_always s3 in
                 (if ok then EXIT_SUCCESS else EXIT_FAILURE, s4)))))"

definition aof_cron :: "sv \<Rightarrow> sv" where
  "aof_cron s =
     (if \<not> cfg_aof_enabled (config s) then s
      else if cfg_aof_policy (config s) \<noteq> AOF_POLICY_PERTICK then s
      else if \<not> aof_buf_dirty s then s
      else
        (let interval_ms = cfg_aof_check_hz (config s) * 1000 sdiv cfg_hz (config s);
             (last, due) = run_every_ms (last_fsync_ms s) (snow_ms s) interval_ms;
             s = s\<lparr>last_fsync_ms := last\<rparr> in
         if \<not> due then s
         else
           (let (ok, s1) = durable_flush (aof_fd s) s in
            if \<not> ok then s1 else s1\<lparr>aof_buf_dirty := False\<rparr>)))"

section \<open>What the operations leave alone\<close>

text \<open>The state without the parts the write path changes.\<close>

definition core :: "sv \<Rightarrow> sv" where
  "core s = s\<lparr>aof_buf_dirty := False, aof_rewrite_state := AOF_RW_IDLE, aof_rewrite_buf := None,
              aof_rewrite_cap := 0, aof_total_writes := 0, aof_total_fsyncs := 0,
              last_fsync_ms := 0, os_inode := (\<lambda>_. []), os_synced := (\<lambda>_. 0), os_io := [], os_ok := [],
              os_alloc := [], os_pipe := []\<rparr>"

lemma core_proj:
  assumes "core s' = core s"
  shows "config s' = config s" "sdb s' = sdb s" "aof_fd s' = aof_fd s" "os_fd s' = os_fd s"
    "os_path s' = os_path s" "aof_temp_filename s' = aof_temp_filename s"
    "now_realtime_ms s' = now_realtime_ms s" "snow_ms s' = snow_ms s" "clients s' = clients s"
    "el s' = el s" "os_child s' = os_child s" "os_next_ino s' = os_next_ino s"
    "clients_count s' = clients_count s" "os_sent s' = os_sent s" "os_next_fd s' = os_next_fd s"
  using arg_cong[OF assms, of config] arg_cong[OF assms, of sdb] arg_cong[OF assms, of aof_fd]
    arg_cong[OF assms, of os_fd] arg_cong[OF assms, of os_path] arg_cong[OF assms, of aof_temp_filename]
    arg_cong[OF assms, of now_realtime_ms] arg_cong[OF assms, of snow_ms] arg_cong[OF assms, of clients]
    arg_cong[OF assms, of el] arg_cong[OF assms, of os_child] arg_cong[OF assms, of os_next_ino]
    arg_cong[OF assms, of clients_count] arg_cong[OF assms, of os_sent] arg_cong[OF assms, of os_next_fd]
  by (simp_all add: core_def)

lemma core_update [simp]:
  "core (s\<lparr>aof_buf_dirty := d\<rparr>) = core s" "core (s\<lparr>aof_rewrite_state := r\<rparr>) = core s"
  "core (s\<lparr>aof_rewrite_buf := b\<rparr>) = core s" "core (s\<lparr>aof_rewrite_cap := c\<rparr>) = core s"
  "core (s\<lparr>aof_total_writes := i\<rparr>) = core s" "core (s\<lparr>aof_total_fsyncs := i\<rparr>) = core s"
  "core (s\<lparr>last_fsync_ms := i\<rparr>) = core s"
  "core (s\<lparr>os_inode := f\<rparr>) = core s" "core (s\<lparr>os_synced := g\<rparr>) = core s" "core (s\<lparr>os_io := io\<rparr>) = core s"
  "core (s\<lparr>os_ok := l\<rparr>) = core s" "core (s\<lparr>os_alloc := l\<rparr>) = core s" "core (s\<lparr>os_pipe := p\<rparr>) = core s"
  by (simp_all add: core_def)

text \<open>The fields of the rewrite and of the files, for the calls that keep them.\<close>

definition rewrite_view :: "sv \<Rightarrow> aof_rewrite_state_t \<times> byte list option \<times> nat \<times> byte list" where
  "rewrite_view s = (aof_rewrite_state s, aof_rewrite_buf s, aof_rewrite_cap s, os_pipe s)"

lemma rewrite_view_update [simp]:
  "rewrite_view (s\<lparr>aof_buf_dirty := d\<rparr>) = rewrite_view s" "rewrite_view (s\<lparr>aof_total_writes := i\<rparr>) = rewrite_view s"
  "rewrite_view (s\<lparr>aof_total_fsyncs := i\<rparr>) = rewrite_view s" "rewrite_view (s\<lparr>last_fsync_ms := i\<rparr>) = rewrite_view s"
  "rewrite_view (s\<lparr>os_inode := f\<rparr>) = rewrite_view s" "rewrite_view (s\<lparr>os_synced := g\<rparr>) = rewrite_view s"
  "rewrite_view (s\<lparr>os_io := io\<rparr>) = rewrite_view s" "rewrite_view (s\<lparr>os_ok := l\<rparr>) = rewrite_view s"
  "rewrite_view (s\<lparr>os_alloc := l\<rparr>) = rewrite_view s" "rewrite_view (s\<lparr>sdb := db'\<rparr>) = rewrite_view s"
  by (simp_all add: rewrite_view_def)

lemma sys_ok_frame [simp]:
  "core (snd (sys_ok s)) = core s" "rewrite_view (snd (sys_ok s)) = rewrite_view s"
  "os_inode (snd (sys_ok s)) = os_inode s" "os_synced (snd (sys_ok s)) = os_synced s"
  "os_io (snd (sys_ok s)) = os_io s" "os_fd (snd (sys_ok s)) = os_fd s" "os_path (snd (sys_ok s)) = os_path s"
  "aof_buf_dirty (snd (sys_ok s)) = aof_buf_dirty s"
  by (simp_all add: sys_ok_def split: list.split)

lemma sys_alloc_frame [simp]:
  "core (snd (sys_alloc s)) = core s" "rewrite_view (snd (sys_alloc s)) = rewrite_view s"
  "os_inode (snd (sys_alloc s)) = os_inode s" "os_synced (snd (sys_alloc s)) = os_synced s"
  by (simp_all add: sys_alloc_def split: list.split)

lemma sys_flush_frame [simp]:
  "core (snd (sys_flush fd s)) = core s" "rewrite_view (snd (sys_flush fd s)) = rewrite_view s"
  "os_inode (snd (sys_flush fd s)) = os_inode s" "os_fd (snd (sys_flush fd s)) = os_fd s"
  "os_io (snd (sys_flush fd s)) = os_io s" "aof_buf_dirty (snd (sys_flush fd s)) = aof_buf_dirty s"
  by (simp_all add: sys_flush_def split_beta Let_def split: option.split)

lemma sys_flush_synced:
  "fst (sys_flush fd s) \<Longrightarrow> os_fd s fd = Some ino \<Longrightarrow>
   os_synced (snd (sys_flush fd s)) = (os_synced s)(ino := length (os_inode s ino))"
  by (auto simp: sys_flush_def split_beta Let_def split: if_splits)

lemma count_fsync_frame [simp]:
  "fst (count_fsync r) = fst r" "core (snd (count_fsync r)) = core (snd r)"
  "rewrite_view (snd (count_fsync r)) = rewrite_view (snd r)"
  "os_inode (snd (count_fsync r)) = os_inode (snd r)" "os_synced (snd (count_fsync r)) = os_synced (snd r)"
  "os_io (snd (count_fsync r)) = os_io (snd r)" "aof_buf_dirty (snd (count_fsync r)) = aof_buf_dirty (snd r)"
  by (simp_all add: count_fsync_def)

lemma durable_flush_frame [simp]:
  "core (snd (durable_flush fd s)) = core s" "rewrite_view (snd (durable_flush fd s)) = rewrite_view s"
  "os_inode (snd (durable_flush fd s)) = os_inode s" "os_io (snd (durable_flush fd s)) = os_io s"
  "aof_buf_dirty (snd (durable_flush fd s)) = aof_buf_dirty s"
  by (simp_all add: durable_flush_def split_beta Let_def split: aof_fsync_mode_t.split)

lemma durable_flush_synced:
  "fst (durable_flush fd s) \<Longrightarrow> os_fd s fd = Some ino \<Longrightarrow>
   os_synced (snd (durable_flush fd s)) ino = length (os_inode s ino)"
  by (auto simp: durable_flush_def split_beta Let_def sys_flush_synced split: aof_fsync_mode_t.splits if_splits)

text \<open>Without a failing call a flush succeeds.\<close>

lemma sys_ok_succeeds: "False \<notin> set (os_ok s) \<Longrightarrow> fst (sys_ok s) \<and> False \<notin> set (os_ok (snd (sys_ok s)))"
  by (auto simp: sys_ok_def split: list.split)

lemma sys_flush_succeeds:
  "False \<notin> set (os_ok s) \<Longrightarrow> os_fd s fd \<noteq> None \<Longrightarrow>
   fst (sys_flush fd s) \<and> False \<notin> set (os_ok (snd (sys_flush fd s)))"
  using sys_ok_succeeds[of s] by (auto simp: sys_flush_def split_beta Let_def split: option.split)

lemma durable_flush_succeeds:
  "False \<notin> set (os_ok s) \<Longrightarrow> os_fd s fd \<noteq> None \<Longrightarrow>
   fst (durable_flush fd s) \<and> False \<notin> set (os_ok (snd (durable_flush fd s)))"
  using sys_flush_succeeds[of s fd]
  by (auto simp: durable_flush_def count_fsync_def split_beta Let_def split: aof_fsync_mode_t.split)

text \<open>A write of bytes to a file.\<close>

lemma sys_write_all_frame [simp]:
  "core (snd (sys_write_all fd bs s)) = core s" "rewrite_view (snd (sys_write_all fd bs s)) = rewrite_view s"
  "os_synced (snd (sys_write_all fd bs s)) = os_synced s" "os_ok (snd (sys_write_all fd bs s)) = os_ok s"
  "aof_buf_dirty (snd (sys_write_all fd bs s)) = aof_buf_dirty s"
  by (auto simp: sys_write_all_def split: option.split prod.split)

text \<open>What reaches the file is the whole buffer, or a proper prefix of it when the call fails.\<close>

lemma sys_write_all_appends:
  assumes "os_fd s fd = Some ino"
  shows "\<exists>w rest. bs = w @ rest \<and> (fst (sys_write_all fd bs s) \<longleftrightarrow> rest = []) \<and>
           os_inode (snd (sys_write_all fd bs s)) = (os_inode s)(ino := os_inode s ino @ w)"
proof -
  obtain ok w l where "write_all (os_io s) bs = (ok, w, l)" by (metis prod_cases3)
  with write_all_prefix[OF this] assms show ?thesis by (auto simp: sys_write_all_def)
qed

lemma sys_write_all_succeeds:
  "SysErr \<notin> set (os_io s) \<Longrightarrow> os_fd s fd = Some ino \<Longrightarrow>
   fst (sys_write_all fd bs s) \<and> SysErr \<notin> set (os_io (snd (sys_write_all fd bs s))) \<and>
   os_inode (snd (sys_write_all fd bs s)) = (os_inode s)(ino := os_inode s ino @ bs)"
  using write_all_ok[of "os_io s" bs] by (auto simp: sys_write_all_def)

section \<open>Appending\<close>

lemma aof_emit_live_frame [simp]:
  "core (snd (aof_emit_live buf s)) = core s" "rewrite_view (snd (aof_emit_live buf s)) = rewrite_view s"
  "os_synced (snd (aof_emit_live buf s)) = os_synced s" "os_ok (snd (aof_emit_live buf s)) = os_ok s"
  "fst (aof_emit_live buf s) = fst (sys_write_all (aof_fd s) buf s)"
  "os_inode (snd (aof_emit_live buf s)) = os_inode (snd (sys_write_all (aof_fd s) buf s))"
  "os_io (snd (aof_emit_live buf s)) = os_io (snd (sys_write_all (aof_fd s) buf s))"
  by (simp_all add: aof_emit_live_def split_beta Let_def)

text \<open>The diff buffer has the bytes of the rewrite in progress, within its capacity; outside an
  active rewrite there is none.\<close>

definition rewrite_inv :: "sv \<Rightarrow> bool" where
  "rewrite_inv s \<longleftrightarrow>
     (case aof_rewrite_buf s of
        Some b \<Rightarrow> aof_rewrite_state s = AOF_RW_ACTIVE \<and> length b \<le> aof_rewrite_cap s
      | None \<Rightarrow> aof_rewrite_state s \<noteq> AOF_RW_ACTIVE)"

lemma rewrite_inv_view: "rewrite_view s' = rewrite_view s \<Longrightarrow> rewrite_inv s' = rewrite_inv s"
  by (auto simp: rewrite_inv_def rewrite_view_def split: option.split)

lemma sys_kill_child_frame [simp]:
  "core (sys_kill_child s) = core s" "os_inode (sys_kill_child s) = os_inode s"
  "os_synced (sys_kill_child s) = os_synced s" "os_ok (sys_kill_child s) = os_ok s"
  "os_io (sys_kill_child s) = os_io s" "aof_rewrite_cap (sys_kill_child s) = aof_rewrite_cap s"
  by (auto simp: sys_kill_child_def split: child.split option.split)

lemma aof_emit_diff_frame [simp]:
  "core (aof_emit_diff buf s) = core s" "os_inode (aof_emit_diff buf s) = os_inode s"
  "os_synced (aof_emit_diff buf s) = os_synced s"
  by (simp_all add: aof_emit_diff_def aof_abort_rewrite_def split_beta Let_def)

lemma sys_alloc_rewrite [simp]:
  "aof_rewrite_buf (snd (sys_alloc s)) = aof_rewrite_buf s" "os_pipe (snd (sys_alloc s)) = os_pipe s"
  "aof_rewrite_state (snd (sys_alloc s)) = aof_rewrite_state s" "os_ok (snd (sys_alloc s)) = os_ok s"
  "os_io (snd (sys_alloc s)) = os_io s" "os_child (snd (sys_alloc s)) = os_child s"
  by (simp_all add: sys_alloc_def split: list.split)

lemma aof_emit_diff_outcomes [simp]:
  "os_ok (aof_emit_diff buf s) = os_ok s" "os_io (aof_emit_diff buf s) = os_io s"
  by (simp_all add: aof_emit_diff_def aof_abort_rewrite_def split_beta Let_def)

text \<open>A record is stashed behind the others, or the rewrite is given up.\<close>

lemma aof_emit_diff_cases:
  assumes "aof_rewrite_buf s = Some b" "aof_rewrite_state s = AOF_RW_ACTIVE" "length b \<le> aof_rewrite_cap s"
  shows "let s' = aof_emit_diff buf s in
         aof_rewrite_state s' = AOF_RW_ACTIVE \<and> aof_rewrite_buf s' = Some (b @ buf) \<and>
           length (b @ buf) \<le> aof_rewrite_cap s' \<and> os_pipe s' = os_pipe s \<and>
           aof_rewrite_cap s' \<le> max (aof_rewrite_cap s) (nat (cfg_aof_rewrite_buf_max_size (config s)))
         \<or> aof_rewrite_state s' = AOF_RW_ABORTING \<and> aof_rewrite_buf s' = None"
  using assms by (auto simp: aof_emit_diff_def aof_abort_rewrite_def split_beta Let_def)

lemma aof_maybe_fsync_always_frame [simp]:
  "core (snd (aof_maybe_fsync_always s)) = core s"
  "rewrite_view (snd (aof_maybe_fsync_always s)) = rewrite_view s"
  "os_inode (snd (aof_maybe_fsync_always s)) = os_inode s"
  "os_io (snd (aof_maybe_fsync_always s)) = os_io s"
  by (simp_all add: aof_maybe_fsync_always_def split_beta Let_def)

lemma aof_maybe_fsync_always_synced:
  assumes "fst (aof_maybe_fsync_always s)" "os_fd s (aof_fd s) = Some ino"
    "cfg_aof_policy (config s) = AOF_POLICY_ALWAYS"
  shows "os_synced (snd (aof_maybe_fsync_always s)) ino = length (os_inode s ino)"
    and "\<not> aof_buf_dirty (snd (aof_maybe_fsync_always s))"
  using assms
  by (auto simp: aof_maybe_fsync_always_def split_beta Let_def durable_flush_synced split: if_splits)

text \<open>What happens after the record was written.\<close>

definition after_live :: "byte list \<Rightarrow> sv \<Rightarrow> sv" where
  "after_live rec s =
     (if aof_rewrite_state s = AOF_RW_ACTIVE then aof_emit_diff rec s else s)\<lparr>aof_buf_dirty := True\<rparr>"

lemma after_live_frame [simp]:
  "core (after_live rec s) = core s" "os_inode (after_live rec s) = os_inode s"
  "os_io (after_live rec s) = os_io s" "os_ok (after_live rec s) = os_ok s"
  by (simp_all add: after_live_def)

text \<open>\<open>aof_append\<close> on a mutation: disabled, too large, a failed write, or written.\<close>

lemma aof_append_cases:
  assumes "length stack = AOF_RECORD_MAX" "wf_cstr (op_key p)" "wf_cstr (op_value p)" "i64_range (op_expire p)"
  shows "aof_append stack (op_code p) (op_key p) (op_value p) (op_expire p) s =
    (if \<not> cfg_aof_enabled (config s) then (EXIT_SUCCESS, s)
     else if \<not> op_fits p then (EXIT_FAILURE, s)
     else
       (let (ok, s1) = aof_emit_live (op_record p) s in
        if \<not> ok then (EXIT_FAILURE, s1)
        else
          (let (ok, s2) = aof_maybe_fsync_always (after_live (op_record p) s1) in
           (if ok then EXIT_SUCCESS else EXIT_FAILURE, s2))))"
proof (cases "op_fits p")
  case True
  then have "27 + length (op_key p) + length (op_value p) \<le> length stack"
    using assms(1) by (simp add: op_fits_def aof_sizes)
  from aof_serialize_fits[OF this, of "op_code p" "op_expire p"] obtain junk
    where ser: "aof_serialize stack (op_code p) (op_key p) (op_value p) (op_expire p) =
        Some (op_record p @ junk, length (op_record p))"
    by (auto simp: op_record_def length_aof_record)
  show ?thesis using True
    by (simp add: aof_append_def ser after_live_def Let_def split_beta)
next
  case False
  then have "length stack < 27 + length (op_key p) + length (op_value p)"
    using assms by (simp add: op_fits_def aof_sizes)
  with assms(1) False show ?thesis
    by (simp add: aof_append_def aof_serialize_too_big aof_sizes)
qed

lemma aof_append_file:
  assumes "length stack = AOF_RECORD_MAX" "wf_cstr (op_key p)" "wf_cstr (op_value p)" "i64_range (op_expire p)"
    and en: "cfg_aof_enabled (config s)" and fd: "os_fd s (aof_fd s) = Some ino"
    and run: "aof_append stack (op_code p) (op_key p) (op_value p) (op_expire p) s = (rc, s')"
  shows "core s' = core s \<and>
    (\<exists>w rest. (op_record p = w @ rest) \<and> os_inode s' = (os_inode s)(ino := os_inode s ino @ w) \<and>
       (rc = EXIT_SUCCESS \<longrightarrow> rest = [] \<and> op_fits p))"
proof (cases "op_fits p")
  case False
  with run en assms(1-4) have "rc = EXIT_FAILURE" "s' = s" by (simp_all add: aof_append_cases)
  then show ?thesis by simp (rule exI[of _ "[]"], simp)
next
  case True
  obtain ok s1 where live: "aof_emit_live (op_record p) s = (ok, s1)" by force
  obtain w rest where w: "op_record p = w @ rest" "ok \<longleftrightarrow> rest = []"
      "os_inode s1 = (os_inode s)(ino := os_inode s ino @ w)"
    using sys_write_all_appends[OF fd, of "op_record p"]
    unfolding aof_emit_live_frame(5,6)[of "op_record p" s, symmetric] live fst_conv snd_conv by blast
  have c1: "core s1 = core s" using aof_emit_live_frame(1)[of "op_record p" s] live by simp
  show ?thesis
  proof (cases ok)
    case False
    with run en True assms(1-4) live have "s' = s1" "rc = EXIT_FAILURE" by (auto simp: aof_append_cases)
    with w c1 False show ?thesis by auto
  next
    case ok: True
    with run en True assms(1-4) live
    have "s' = snd (aof_maybe_fsync_always (after_live (op_record p) s1))"
      by (auto simp: aof_append_cases split_beta Let_def)
    then have "core s' = core s" "os_inode s' = os_inode s1" using c1 by simp_all
    with w ok True show ?thesis by auto
  qed
qed

text \<open>Nothing fails when no call does and the record fits.\<close>

lemma aof_append_succeeds:
  assumes "length stack = AOF_RECORD_MAX" "op_fits p" "cfg_aof_enabled (config s)"
    and fd: "os_fd s (aof_fd s) = Some ino" and quiet: "SysErr \<notin> set (os_io s)" "False \<notin> set (os_ok s)"
  shows "fst (aof_append stack (op_code p) (op_key p) (op_value p) (op_expire p) s) = EXIT_SUCCESS"
proof -
  have wf: "wf_cstr (op_key p)" "wf_cstr (op_value p)" "i64_range (op_expire p)"
    using assms(2) by (simp_all add: op_fits_def)
  let ?s1 = "snd (aof_emit_live (op_record p) s)"
  let ?s2 = "after_live (op_record p) ?s1"
  have "fst (aof_emit_live (op_record p) s)" using sys_write_all_succeeds[OF quiet(1) fd] by simp
  moreover have "core ?s2 = core s" "os_ok ?s2 = os_ok s" by simp_all
  then have "fst (aof_maybe_fsync_always ?s2)"
    using durable_flush_succeeds[of ?s2 "aof_fd ?s2"] quiet(2) fd core_proj(3,4)[of ?s2 s]
    by (auto simp: aof_maybe_fsync_always_def split_beta Let_def)
  ultimately show ?thesis
    using assms(2,3) by (simp add: aof_append_cases[OF assms(1) wf] split_beta Let_def)
qed

text \<open>A record is in the log whole exactly when it fits and its write succeeded, whatever the
  flush behind it did.\<close>

lemma aof_append_logged:
  assumes wf: "length stack = AOF_RECORD_MAX" "wf_cstr (op_key p)" "wf_cstr (op_value p)" "i64_range (op_expire p)"
    and en: "cfg_aof_enabled (config s)" and fd: "os_fd s (aof_fd s) = Some ino"
    and run: "aof_append stack (op_code p) (op_key p) (op_value p) (op_expire p) s = (rc, s')"
  shows "os_inode s' ino = os_inode s ino @ op_record p \<longleftrightarrow> op_fits p \<and> fst (aof_emit_live (op_record p) s)"
    and "rc = EXIT_SUCCESS \<Longrightarrow> os_inode s' ino = os_inode s ino @ op_record p"
    and "os_inode s' ino = os_inode s ino @ op_record p \<Longrightarrow>
      os_inode s' = (os_inode s)(ino := os_inode s ino @ op_record p)"
proof -
  obtain w rest where w: "op_record p = w @ rest" "fst (aof_emit_live (op_record p) s) \<longleftrightarrow> rest = []"
      "os_inode (snd (aof_emit_live (op_record p) s)) = (os_inode s)(ino := os_inode s ino @ w)"
    using sys_write_all_appends[OF fd, of "op_record p"]
    unfolding aof_emit_live_frame(5,6)[of "op_record p" s, symmetric] by blast
  have "os_inode s' = (if op_fits p then (os_inode s)(ino := os_inode s ino @ w) else os_inode s)"
    using run en w(3) by (auto simp: aof_append_cases[OF wf] split_beta Let_def split: if_splits)
  with w op_record_nonempty[of p]
  show iff: "os_inode s' ino = os_inode s ino @ op_record p \<longleftrightarrow> op_fits p \<and> fst (aof_emit_live (op_record p) s)"
    by auto
  show "rc = EXIT_SUCCESS \<Longrightarrow> os_inode s' ino = os_inode s ino @ op_record p"
    using run en iff by (auto simp: aof_append_cases[OF wf] split_beta Let_def split: if_splits)
  show "os_inode s' = (os_inode s)(ino := os_inode s ino @ op_record p)"
    if "os_inode s' ino = os_inode s ino @ op_record p"
    using aof_append_file[OF wf en fd run] that by auto
qed

lemma aof_append_diff:
  assumes wf: "length stack = AOF_RECORD_MAX" "wf_cstr (op_key p)" "wf_cstr (op_value p)" "i64_range (op_expire p)"
    and en: "cfg_aof_enabled (config s)" and fd: "os_fd s (aof_fd s) = Some ino"
    and run: "aof_append stack (op_code p) (op_key p) (op_value p) (op_expire p) s = (rc, s')" and inv: "rewrite_inv s"
  shows "rewrite_inv s' \<and>
    (if os_inode s' ino = os_inode s ino @ op_record p
     then (case aof_rewrite_buf s of
             None \<Rightarrow> aof_rewrite_buf s' = None
           | Some b \<Rightarrow>
               aof_rewrite_buf s' = Some (b @ op_record p) \<and> aof_rewrite_state s' = AOF_RW_ACTIVE \<and>
                 aof_rewrite_cap s' \<le> max (aof_rewrite_cap s) (nat (cfg_aof_rewrite_buf_max_size (config s)))
               \<or> aof_rewrite_buf s' = None \<and> aof_rewrite_state s' = AOF_RW_ABORTING)
     else aof_rewrite_buf s' = aof_rewrite_buf s \<and> aof_rewrite_state s' = aof_rewrite_state s)"
proof (cases "op_fits p \<and> fst (aof_emit_live (op_record p) s)")
  case False
  then have "rewrite_view s' = rewrite_view s"
    using run en aof_emit_live_frame(2)[of "op_record p" s]
    by (auto simp: aof_append_cases[OF wf] split_beta Let_def split: if_splits)
  with inv False rewrite_inv_view[of s' s] aof_append_logged(1)[OF wf en fd run] show ?thesis
    by (auto simp: rewrite_view_def)
next
  case True
  let ?s1 = "snd (aof_emit_live (op_record p) s)"
  let ?s2 = "after_live (op_record p) ?s1"
  have s': "s' = snd (aof_maybe_fsync_always ?s2)"
    using run en True by (auto simp: aof_append_cases[OF wf] split_beta Let_def)
  have v: "rewrite_view s' = rewrite_view ?s2" unfolding s' by simp
  have v1: "rewrite_view ?s1 = rewrite_view s" "config ?s1 = config s"
    using core_proj(1)[of ?s1 s] by simp_all
  have logged: "os_inode s' ino = os_inode s ino @ op_record p"
    using True aof_append_logged(1)[OF wf en fd run] by simp
  show ?thesis
  proof (cases "aof_rewrite_buf s")
    case None
    then have "aof_rewrite_state ?s1 \<noteq> AOF_RW_ACTIVE" using inv v1 by (auto simp: rewrite_inv_def rewrite_view_def)
    then have "rewrite_view ?s2 = rewrite_view s" using v1 by (simp add: after_live_def)
    with v None inv logged rewrite_inv_view[of s' s] show ?thesis by (simp add: rewrite_view_def)
  next
    case (Some c)
    then have act: "aof_rewrite_buf ?s1 = Some c" "aof_rewrite_state ?s1 = AOF_RW_ACTIVE"
        "length c \<le> aof_rewrite_cap ?s1" "aof_rewrite_cap ?s1 = aof_rewrite_cap s"
      using inv v1 by (auto simp: rewrite_inv_def rewrite_view_def split: option.splits)
    then have "rewrite_view ?s2 = rewrite_view (aof_emit_diff (op_record p) ?s1)"
      by (simp add: after_live_def)
    with v have v3: "rewrite_view s' = rewrite_view (aof_emit_diff (op_record p) ?s1)" by simp
    show ?thesis
      using aof_emit_diff_cases[OF act(1-3), of "op_record p"] v3 v1(2) act(4) Some logged
      by (auto simp: rewrite_view_def rewrite_inv_def Let_def)
  qed
qed

lemma aof_cron_frame [simp]:
  "core (aof_cron s) = core s" "rewrite_view (aof_cron s) = rewrite_view s" "os_inode (aof_cron s) = os_inode s"
  by (simp_all add: aof_cron_def split_beta Let_def)

section \<open>Properties\<close>

text \<open>C36: An append that reports success has put exactly its record behind the log, on the
  device when the policy is \<open>always\<close> and marked dirty otherwise; one that fails has left at
  most a prefix of the record there. Neither touches the keyspace, the paths or any other
  file.\<close>

theorem aof_append_durable:
  assumes "length stack = AOF_RECORD_MAX" "wf_cstr (op_key p)" "wf_cstr (op_value p)" "i64_range (op_expire p)"
    and "cfg_aof_enabled (config s)" "os_fd s (aof_fd s) = Some ino"
    and "aof_append stack (op_code p) (op_key p) (op_value p) (op_expire p) s = (rc, s')"
  shows "sdb s' = sdb s \<and> os_path s' = os_path s \<and> (\<forall>i. i \<noteq> ino \<longrightarrow> os_inode s' i = os_inode s i) \<and>
    (if rc = EXIT_SUCCESS
     then op_fits p \<and> os_inode s' ino = os_inode s ino @ op_record p \<and>
          (if cfg_aof_policy (config s) = AOF_POLICY_ALWAYS
           then os_synced s' ino = length (os_inode s' ino) \<and> \<not> aof_buf_dirty s' else aof_buf_dirty s')
     else \<exists>w. prefix w (op_record p) \<and> os_inode s' ino = os_inode s ino @ w)"
proof -
  note appended = aof_append_file[OF assms]
  obtain w rest where w: "op_record p = w @ rest" "os_inode s' = (os_inode s)(ino := os_inode s ino @ w)"
      "rc = EXIT_SUCCESS \<longrightarrow> rest = [] \<and> op_fits p" using appended by blast
  have synced: "if cfg_aof_policy (config s) = AOF_POLICY_ALWAYS
      then os_synced s' ino = length (os_inode s' ino) \<and> \<not> aof_buf_dirty s' else aof_buf_dirty s'"
    if "rc = EXIT_SUCCESS"
  proof -
    let ?s = "after_live (op_record p) (snd (aof_emit_live (op_record p) s))"
    have run: "s' = snd (aof_maybe_fsync_always ?s)" "fst (aof_maybe_fsync_always ?s)"
      using assms(5,7) that aof_append_cases[OF assms(1-4), of s]
      by (auto simp: split_beta Let_def split: if_splits)
    have same: "config ?s = config s" "os_fd ?s (aof_fd ?s) = Some ino"
      using core_proj[of ?s s] assms(6) by simp_all
    have "aof_buf_dirty ?s" by (simp add: after_live_def)
    then have "cfg_aof_policy (config s) \<noteq> AOF_POLICY_ALWAYS \<Longrightarrow> aof_buf_dirty s'"
      unfolding run(1) using same by (simp add: aof_maybe_fsync_always_def)
    then show ?thesis
      using aof_maybe_fsync_always_synced[OF run(2) same(2)] same(1) unfolding run(1) by auto
  qed
  show ?thesis using appended w synced core_proj(2,5)[of s' s] by (auto simp: prefix_def)
qed

text \<open>A server with its log open and empty, for evaluation.\<close>

definition open_log :: sv where
  "open_log = (server_zero Apple)\<lparr>aof_fd := 3, os_fd := [3 \<mapsto> 0], os_path := [lit ''bytekv.aof'' \<mapsto> 0],
                                  os_next_ino := 1, os_next_fd := 4\<rparr>"

theorem aof_append_durable_witness:
  "let (rc, s') = aof_append (replicate AOF_RECORD_MAX 0) AOF_OP_SET (lit ''k'') (lit ''v'') 0 open_log in
   rc = EXIT_SUCCESS \<and> os_synced s' 0 = 29"
proof -
  let ?p = "KSet (lit ''k'') (lit ''v'')"
  obtain rc s' where run: "aof_append (replicate AOF_RECORD_MAX 0) (op_code ?p) (op_key ?p) (op_value ?p)
      (op_expire ?p) open_log = (rc, s')" by force
  have "length (op_record ?p) = 29" by (simp add: op_record_def length_aof_record lit_def)
  moreover have st: "cfg_aof_enabled (config open_log)" "os_fd open_log (aof_fd open_log) = Some 0"
      "cfg_aof_policy (config open_log) = AOF_POLICY_ALWAYS" "SysErr \<notin> set (os_io open_log)"
      "False \<notin> set (os_ok open_log)" "os_inode open_log 0 = []"
    by (simp_all add: open_log_def server_zero_def init_server_config_def)
  moreover have "rc = EXIT_SUCCESS"
    using aof_append_succeeds[OF _ op_k_fits(3) st(1,2,4,5), of "replicate AOF_RECORD_MAX 0"] run by simp
  ultimately show ?thesis
    using aof_append_durable[OF _ _ _ _ st(1,2) run] op_k_fits(3) run by (simp add: op_fits_def)
qed

text \<open>C37: While a rewrite is active, every record that reaches the log whole, also one whose
  flush then fails, is kept, in order, in the diff buffer, within its capacity and its
  configured limit, or the rewrite is given up and the buffer dropped; a record that does not
  reach the log whole is not stashed; the state machine's invariant (a buffer exactly while a
  rewrite is active) is kept.\<close>

theorem aof_append_stashes_diff:
  assumes wf: "length stack = AOF_RECORD_MAX" "wf_cstr (op_key p)" "wf_cstr (op_value p)" "i64_range (op_expire p)"
    and en: "cfg_aof_enabled (config s)" and fd: "os_fd s (aof_fd s) = Some ino"
    and run: "aof_append stack (op_code p) (op_key p) (op_value p) (op_expire p) s = (rc, s')" and inv: "rewrite_inv s"
  shows "rewrite_inv s' \<and>
    (if os_inode s' ino = os_inode s ino @ op_record p
     then (case aof_rewrite_buf s of
             None \<Rightarrow> aof_rewrite_buf s' = None
           | Some b \<Rightarrow>
               aof_rewrite_buf s' = Some (b @ op_record p) \<and> aof_rewrite_state s' = AOF_RW_ACTIVE \<and>
                 aof_rewrite_cap s' \<le> max (aof_rewrite_cap s) (nat (cfg_aof_rewrite_buf_max_size (config s)))
               \<or> aof_rewrite_buf s' = None \<and> aof_rewrite_state s' = AOF_RW_ABORTING)
     else aof_rewrite_buf s' = aof_rewrite_buf s \<and> aof_rewrite_state s' = aof_rewrite_state s)"
  by (rule aof_append_diff[OF assms])

theorem aof_append_stashes_diff_witness:
  "let s = open_log\<lparr>aof_rewrite_state := AOF_RW_ACTIVE, aof_rewrite_buf := Some [7], aof_rewrite_cap := 100,
                    os_ok := [False, False]\<rparr>;
       (rc, s') = aof_append (replicate AOF_RECORD_MAX 0) AOF_OP_SET (lit ''k'') (lit ''v'') 0 s in
   rc = EXIT_FAILURE \<and> aof_rewrite_buf s' = Some (7 # op_record (KSet (lit ''k'') (lit ''v'')))"
proof -
  let ?p = "KSet (lit ''k'') (lit ''v'')"
  let ?s = "open_log\<lparr>aof_rewrite_state := AOF_RW_ACTIVE, aof_rewrite_buf := Some [7], aof_rewrite_cap := 100,
                     os_ok := [False, False]\<rparr>"
  let ?r = "aof_append (replicate AOF_RECORD_MAX 0) (op_code ?p) (op_key ?p) (op_value ?p) (op_expire ?p) ?s"
  have wf: "length (replicate AOF_RECORD_MAX 0) = AOF_RECORD_MAX" "wf_cstr (op_key ?p)" "wf_cstr (op_value ?p)"
      "i64_range (op_expire ?p)"
    using op_k_fits(3) by (simp_all add: op_fits_def)
  have st: "cfg_aof_enabled (config ?s)" "os_fd ?s (aof_fd ?s) = Some 0" "rewrite_inv ?s"
    by (simp_all add: open_log_def server_zero_def init_server_config_def rewrite_inv_def)
  have len: "length (op_record ?p) = 29" by (simp add: op_record_def length_aof_record lit_def)
  have run: "fst ?r = EXIT_FAILURE" "fst (aof_emit_live (op_record ?p) ?s)" "aof_rewrite_state (snd ?r) = AOF_RW_ACTIVE"
    unfolding aof_append_cases[OF wf] using op_k_fits(3) len
    by (simp_all add: open_log_def server_zero_def init_server_config_def aof_emit_live_def
        sys_write_all_def write_all_def after_live_def aof_emit_diff_def aof_maybe_fsync_always_def durable_flush_def
        sys_flush_def sys_ok_def count_fsync_def)
  show ?thesis
    using aof_append_stashes_diff[OF wf st(1,2) prod.collapse[symmetric] st(3)] run
      aof_append_logged(1)[OF wf st(1,2) prod.collapse[symmetric]] op_k_fits(3)
    by (simp add: Let_def split_beta)
qed

end
