(* ===== verification/Aof_Rewrite.thy ===== *)
theory Aof_Rewrite
  imports Aof_Write
begin

text \<open>
  The background rewrite of the log (\<open>aof.c\<close>): the child that writes a snapshot to the
  temporary file, the parent's state machine, the exponential backoff and the switch to the
  new file.

  The child works on a copy of the process made by \<open>fork\<close>; all it shares with the parent are
  the files. It alone touches the temporary file until it has ended, so its whole run is one
  step of the model, \<open>child_finishes\<close>, that takes place at some time after the fork.
\<close>

section \<open>The child\<close>

record child_state =
  ch_alive :: bool
  ch_reads :: nat
  ch_buf :: "byte list"
  ch_sv :: sv

text \<open>The loop body for one entry; \<open>_exit(1)\<close> ends the child.\<close>

definition rewrite_entry ::
    "(nat \<Rightarrow> int) \<Rightarrow> int \<Rightarrow> db \<Rightarrow> cstr ht_entry \<Rightarrow> child_state \<Rightarrow> child_state" where
  "rewrite_entry clk fd db entry ch =
     (if \<not> ch_alive ch then ch
      else
        (let key = fst entry; val = snd entry;
             expire = ht_get_i64 (db_expires db) key;
             ch = (if expire = None then ch else ch\<lparr>ch_reads := ch_reads ch + 1\<rparr>) in
         if (case expire of Some t \<Rightarrow> t < clk (ch_reads ch - 1) | None \<Rightarrow> False) then ch
         else
           (let op = (if expire = None then AOF_OP_SET else AOF_OP_SETEX);
                expire_at = (case expire of Some t \<Rightarrow> t | None \<Rightarrow> 0) in
            case aof_serialize (ch_buf ch) op key val expire_at of
              None \<Rightarrow> ch\<lparr>ch_alive := False\<rparr>
            | Some (buf, record_size) \<Rightarrow>
                (let (ok, s) = sys_write_all fd (take record_size buf) (ch_sv ch) in
                 ch\<lparr>ch_buf := buf, ch_sv := s, ch_alive := ok\<rparr>))))"

text \<open>The exit status with the state of the files; \<open>None\<close> if the loop did not end.\<close>

definition aof_rewrite_child ::
    "(nat \<Rightarrow> int) \<Rightarrow> int \<Rightarrow> byte list \<Rightarrow> db \<Rightarrow> sv \<Rightarrow> (int \<times> sv) option" where
  "aof_rewrite_child clk created stack db s =
     (let (fd, s1) = sys_open_trunc (aof_temp_filename s) s in
      if fd = -1 then Some (1, s1)
      else
        (let (ok, s2) = aof_write_file_header fd created s1 in
         if \<not> ok then Some (1, s2)
         else
           (case ht_iter_loop (rewrite_entry clk fd db) (ht_iter_create (db_keyspace db))
                   \<lparr>ch_alive = True, ch_reads = 0, ch_buf = stack, ch_sv = s2\<rparr> of
              None \<Rightarrow> None
            | Some ch \<Rightarrow>
                if \<not> ch_alive ch then Some (1, ch_sv ch)
                else
                  (let (ok, s4) = durable_flush fd (ch_sv ch) in
                   if \<not> ok then Some (1, s4) else Some (0, sys_close fd s4)))))"

text \<open>The step in which the child runs: of its state only the files are the parent's too.\<close>

definition child_finishes :: "(nat \<Rightarrow> int) \<Rightarrow> int \<Rightarrow> byte list \<Rightarrow> sv \<Rightarrow> sv option" where
  "child_finishes clk created stack s =
     (case os_child s of
        Running db \<Rightarrow>
          map_option
            (\<lambda>(code, s'). s\<lparr>os_inode := os_inode s', os_synced := os_synced s', os_path := os_path s',
                            os_next_ino := os_next_ino s', os_io := os_io s', os_ok := os_ok s',
                            os_child := Exited code\<rparr>)
            (aof_rewrite_child clk created stack db s)
      | _ \<Rightarrow> None)"

section \<open>The parent\<close>

text \<open>The loop that doubles the delay, with the number of passes left.\<close>

fun backoff_loop :: "nat \<Rightarrow> int \<Rightarrow> int \<Rightarrow> int" where
  "backoff_loop 0 delay max_ms = delay"
| "backoff_loop (Suc n) delay max_ms =
     (let delay = delay * 2 in if max_ms \<le> delay then max_ms else backoff_loop n delay max_ms)"

text \<open>The streak is an unbounded integer for the \<open>int\<close> of the code: the overflow after \<open>2 ^ 31\<close>
  failures in a row is not modelled.\<close>

definition aof_rewrite_record_failure :: "sv \<Rightarrow> sv" where
  "aof_rewrite_record_failure s =
     (let s = s\<lparr>aof_rewrites_failed := aof_rewrites_failed s + 1,
                aof_rewrite_failed_streak := aof_rewrite_failed_streak s + 1\<rparr>;
          delay = backoff_loop (nat (aof_rewrite_failed_streak s - 1))
                    (cfg_aof_rewrite_backoff_base_ms (config s))
                    (cfg_aof_rewrite_backoff_max_ms (config s)) in
      s\<lparr>aof_rewrite_next_attempt_ms := wrap64 (snow_ms s + delay)\<rparr>)"

definition aof_rewrite_cleanup :: "sv \<Rightarrow> sv" where
  "aof_rewrite_cleanup s =
     s\<lparr>aof_rewrite_buf := None, aof_rewrite_pid := -1, aof_rewrite_state := AOF_RW_IDLE\<rparr>"

text \<open>\<open>aof_rewrite_start\<close>; \<open>pid\<close> is what \<open>fork\<close> returns when it succeeds.\<close>

definition aof_rewrite_start :: "int \<Rightarrow> sv \<Rightarrow> int \<times> sv" where
  "aof_rewrite_start pid s =
     (let (ok, s) = sys_alloc s in
      if \<not> ok then (-1, aof_rewrite_record_failure s)
      else
        (let (ok, s) = sys_ok s in
         if \<not> ok then (-1, aof_rewrite_record_failure s)
         else
           (0, s\<lparr>os_child := Running (sdb s), aof_rewrite_pid := pid,
                 aof_rewrite_state := AOF_RW_ACTIVE, aof_rewrite_buf := Some [],
                 aof_last_rewrite_start_ms := snow_ms s\<rparr>)))"

definition finalize_fail :: "sv \<Rightarrow> sv" where
  "finalize_fail s =
     aof_rewrite_cleanup (aof_rewrite_record_failure (sys_unlink (aof_temp_filename s) s))"

definition aof_rewrite_finalize :: "sv \<Rightarrow> sv" where
  "aof_rewrite_finalize s =
     (let diff = (case aof_rewrite_buf s of Some b \<Rightarrow> b | None \<Rightarrow> []);
          (temp_fd, s) = sys_open_existing (aof_temp_filename s) s in
      if temp_fd = -1 then finalize_fail s
      else
        (let (ok, s) = sys_write_all temp_fd diff s in
         if \<not> ok then finalize_fail (sys_close temp_fd s)
         else
           (let (ok, s) = durable_flush temp_fd s in
            if \<not> ok then finalize_fail (sys_close temp_fd s)
            else
              (let (new_aof_fd, s) = open_aof (aof_temp_filename s) (sys_close temp_fd s) in
               if new_aof_fd = -1 then finalize_fail s
               else
                 (let (ok, s) = sys_rename (aof_temp_filename s) (cfg_aof_filename (config s)) s in
                  if \<not> ok then finalize_fail (sys_close new_aof_fd s)
                  else
                    (let old_aof_fd = aof_fd s;
                         s = sys_close old_aof_fd (s\<lparr>aof_fd := new_aof_fd\<rparr>);
                         s = (case file_at s (cfg_aof_filename (config s)) of
                                Some bytes \<Rightarrow> s\<lparr>aof_rewrite_last_size := int (length bytes)\<rparr>
                              | None \<Rightarrow> s);
                         s = s\<lparr>aof_rewrites_completed := aof_rewrites_completed s + 1,
                               aof_rewrite_failed_streak := 0, aof_rewrite_next_attempt_ms := 0,
                               aof_last_rewrite_duration_ms :=
                                 wrap64 (snow_ms s - aof_last_rewrite_start_ms s)\<rparr> in
                     aof_rewrite_cleanup s))))))"

text \<open>\<open>off_t\<close> arithmetic of the growth threshold.\<close>

definition rewrite_threshold :: "sv \<Rightarrow> int" where
  "rewrite_threshold s =
     wrap64 (aof_rewrite_last_size s
             + wrap64 (aof_rewrite_last_size s * cfg_aof_rewrite_growth (config s)) sdiv 100)"

definition aof_rewrite_cron :: "int \<Rightarrow> sv \<Rightarrow> sv" where
  "aof_rewrite_cron pid s =
     (if \<not> cfg_aof_enabled (config s) then s
      else
        (let (last, due) = run_every_ms (last_check_ms s) (snow_ms s) 1000;
             s = s\<lparr>last_check_ms := last\<rparr> in
         if \<not> due then s
         else if aof_rewrite_state s = AOF_RW_IDLE then
           (if 0 < aof_rewrite_next_attempt_ms s \<and> snow_ms s < aof_rewrite_next_attempt_ms s then s
            else
              (case file_at s (cfg_aof_filename (config s)) of
                 None \<Rightarrow> s
               | Some bytes \<Rightarrow>
                   if int (length bytes) < cfg_aof_rewrite_min_size (config s) then s
                   else if int (length bytes) < rewrite_threshold s then s
                   else snd (aof_rewrite_start pid s)))
         else
           (case os_child s of
              Running _ \<Rightarrow> s
            | NoChild \<Rightarrow> aof_rewrite_cleanup (aof_rewrite_record_failure s)
            | ended \<Rightarrow>
                (let s = s\<lparr>os_child := NoChild\<rparr> in
                 if aof_rewrite_state s = AOF_RW_ABORTING then
                   aof_rewrite_cleanup
                     (aof_rewrite_record_failure (sys_unlink (aof_temp_filename s) s))
                 else if ended = Exited 0 then aof_rewrite_finalize s
                 else
                   aof_rewrite_cleanup
                     (aof_rewrite_record_failure (sys_unlink (aof_temp_filename s) s))))))"

section \<open>Calls that do not fail\<close>

definition quiet :: "sv \<Rightarrow> bool" where
  "quiet s \<longleftrightarrow> False \<notin> set (os_ok s) \<and> SysErr \<notin> set (os_io s) \<and> False \<notin> set (os_alloc s)"

lemma not_in_tl [simp]: "x \<notin> set xs \<Longrightarrow> x \<notin> set (tl xs)"
  by (cases xs) auto

lemma sys_ok_quiet: "False \<notin> set (os_ok s) \<Longrightarrow> sys_ok s = (True, s\<lparr>os_ok := tl (os_ok s)\<rparr>)"
  by (cases s) (auto simp: sys_ok_def split: list.split)

lemma sys_alloc_quiet: "False \<notin> set (os_alloc s) \<Longrightarrow> sys_alloc s = (True, s\<lparr>os_alloc := tl (os_alloc s)\<rparr>)"
  by (cases s) (auto simp: sys_alloc_def split: list.split)

lemma sys_flush_quiet:
  "False \<notin> set (os_ok s) \<Longrightarrow> os_fd s fd = Some ino \<Longrightarrow>
   sys_flush fd s = (True, s\<lparr>os_ok := tl (os_ok s), os_synced := (os_synced s)(ino := length (os_inode s ino))\<rparr>)"
  by (simp add: sys_flush_def sys_ok_quiet)

lemma durable_flush_quiet:
  "False \<notin> set (os_ok s) \<Longrightarrow> os_fd s fd = Some ino \<Longrightarrow>
   durable_flush fd s =
     (True, s\<lparr>os_ok := tl (os_ok s), os_synced := (os_synced s)(ino := length (os_inode s ino)),
              aof_total_fsyncs := aof_total_fsyncs s + 1\<rparr>)"
  by (simp add: durable_flush_def sys_flush_quiet count_fsync_def split: aof_fsync_mode_t.split)

lemma sys_write_all_quiet:
  assumes "SysErr \<notin> set (os_io s)" "os_fd s fd = Some ino"
  obtains io where "SysErr \<notin> set io"
    "sys_write_all fd bs s = (True, s\<lparr>os_io := io, os_inode := (os_inode s)(ino := os_inode s ino @ bs)\<rparr>)"
  using assms write_all_ok[of "os_io s" bs] by (auto simp: sys_write_all_def)

section \<open>The backoff\<close>

lemma backoff_loop_closed:
  "0 < delay \<Longrightarrow> backoff_loop n delay max_ms =
     (if n = 0 then delay else min max_ms (delay * 2 ^ n))"
proof (induction n arbitrary: delay)
  case (Suc n)
  have "delay * 2 \<le> delay * (2 * 2 ^ n)" using Suc.prems by simp
  then have "max_ms \<le> delay * 2 \<Longrightarrow> max_ms \<le> delay * (2 * 2 ^ n)" by (rule order_trans[rotated])
  then show ?case using Suc.IH[of "delay * 2"] Suc.prems
    by (auto simp: Let_def min_def algebra_simps)
qed simp

section \<open>Switching to the new file\<close>

lemma aof_rewrite_finalize_quiet:
  assumes q: "quiet s" and temp: "os_path s (aof_temp_filename s) = Some ti"
    and names: "aof_temp_filename s \<noteq> cfg_aof_filename (config s)"
    and fds: "aof_fd s < os_next_fd s" "0 \<le> os_next_fd s" and diff: "aof_rewrite_buf s = Some diff"
  shows "let s' = aof_rewrite_finalize s in
         os_path s' = (os_path s)(aof_temp_filename s := None, cfg_aof_filename (config s) \<mapsto> ti) \<and>
         os_inode s' = (os_inode s)(ti := os_inode s ti @ diff) \<and>
         os_synced s' ti = length (os_inode s ti @ diff) \<and>
         os_fd s' (aof_fd s') = Some ti \<and> aof_rewrite_state s' = AOF_RW_IDLE \<and>
         aof_rewrite_buf s' = None \<and> aof_rewrites_completed s' = aof_rewrites_completed s + 1 \<and>
         aof_rewrite_failed_streak s' = 0 \<and> sdb s' = sdb s \<and> config s' = config s"
proof -
  note ok = q[unfolded quiet_def]
  let ?s1 = "s\<lparr>os_ok := tl (os_ok s), os_fd := (os_fd s)(os_next_fd s \<mapsto> ti), os_next_fd := os_next_fd s + 1\<rparr>"
  have o1: "sys_open_existing (aof_temp_filename s) s = (os_next_fd s, ?s1)"
    using temp ok by (simp add: sys_open_existing_def sys_ok_quiet sys_bind_fd_def)
  obtain io where w: "SysErr \<notin> set io"
    "sys_write_all (os_next_fd s) diff ?s1 =
       (True, ?s1\<lparr>os_io := io, os_inode := (os_inode ?s1)(ti := os_inode ?s1 ti @ diff)\<rparr>)"
    by (rule sys_write_all_quiet[of ?s1 "os_next_fd s" ti diff]) (use ok in simp_all)
  have ne: "os_next_fd s \<noteq> -1" "os_next_fd s + 1 \<noteq> -1" "os_next_fd s \<noteq> os_next_fd s + 1"
    "aof_fd s \<noteq> os_next_fd s + 1" using fds by linarith+
  show ?thesis
    using temp names ne ok
    by (simp add: aof_rewrite_finalize_def Let_def diff o1 w(2) durable_flush_quiet open_aof_def sys_open_create_def
        sys_close_def sys_ok_quiet sys_bind_fd_def sys_rename_def file_at_def aof_rewrite_cleanup_def)
qed

section \<open>What each call changes, whatever its outcome\<close>

lemma sys_ok_shape: obtains b l where "sys_ok s = (b, s\<lparr>os_ok := l\<rparr>)"
  by (cases s; cases "os_ok s") (auto simp: sys_ok_def)

lemma sys_flush_shape: obtains b l g where "sys_flush fd s = (b, s\<lparr>os_ok := l, os_synced := g\<rparr>)"
proof -
  obtain b l where ok: "sys_ok s = (b, s\<lparr>os_ok := l\<rparr>)" by (rule sys_ok_shape)
  have same: "s\<lparr>os_ok := l\<rparr> = s\<lparr>os_ok := l, os_synced := os_synced s\<rparr>" by (cases s) simp
  show thesis
  proof (cases "b \<and> os_fd s fd \<noteq> None")
    case True
    then obtain ino where "os_fd s fd = Some ino" by blast
    with ok True have "sys_flush fd s =
        (True, s\<lparr>os_ok := l, os_synced := (os_synced s)(ino := length (os_inode s ino))\<rparr>)"
      by (simp add: sys_flush_def)
    then show thesis by (rule that)
  next
    case False
    then have "sys_flush fd s = (False, s\<lparr>os_ok := l\<rparr>)"
      using ok by (auto simp: sys_flush_def split: option.split)
    then have "sys_flush fd s = (False, s\<lparr>os_ok := l, os_synced := os_synced s\<rparr>)"
      unfolding same[symmetric] .
    then show thesis by (rule that)
  qed
qed

lemma durable_flush_shape:
  obtains b l g n where "durable_flush fd s = (b, s\<lparr>os_ok := l, os_synced := g, aof_total_fsyncs := n\<rparr>)"
proof -
  have count: "\<exists>n. count_fsync (b, s0\<lparr>os_ok := l, os_synced := g\<rparr>) =
      (b, s0\<lparr>os_ok := l, os_synced := g, aof_total_fsyncs := n\<rparr>)" for b l g and s0 :: sv
  proof (cases b)
    case False
    then show ?thesis
      by (intro exI[of _ "aof_total_fsyncs s0"], cases s0) (simp add: count_fsync_def)
  next
    case True
    then show ?thesis
      by (intro exI[of _ "aof_total_fsyncs s0 + 1"]) (simp add: count_fsync_def)
  qed
  obtain b l g where f: "sys_flush fd s = (b, s\<lparr>os_ok := l, os_synced := g\<rparr>)" by (rule sys_flush_shape)
  obtain b' l' g' where f': "sys_flush fd (s\<lparr>os_ok := l, os_synced := g\<rparr>) =
      (b', (s\<lparr>os_ok := l, os_synced := g\<rparr>)\<lparr>os_ok := l', os_synced := g'\<rparr>)" by (rule sys_flush_shape)
  have "durable_flush fd s = count_fsync (b, s\<lparr>os_ok := l, os_synced := g\<rparr>) \<or>
      durable_flush fd s = count_fsync (b', s\<lparr>os_ok := l', os_synced := g'\<rparr>)"
    by (cases b) (simp_all add: durable_flush_def f f' split: aof_fsync_mode_t.split)
  then show thesis
  proof
    assume "durable_flush fd s = count_fsync (b, s\<lparr>os_ok := l, os_synced := g\<rparr>)"
    with count[of b g l s] obtain n
      where "durable_flush fd s = (b, s\<lparr>os_ok := l, os_synced := g, aof_total_fsyncs := n\<rparr>)" by auto
    then show thesis by (rule that)
  next
    assume "durable_flush fd s = count_fsync (b', s\<lparr>os_ok := l', os_synced := g'\<rparr>)"
    with count[of b' g' l' s] obtain n
      where "durable_flush fd s = (b', s\<lparr>os_ok := l', os_synced := g', aof_total_fsyncs := n\<rparr>)" by auto
    then show thesis by (rule that)
  qed
qed

lemma sys_write_all_shape:
  assumes "os_fd s fd = Some ino"
  obtains b io w where "sys_write_all fd bs s =
      (b, s\<lparr>os_io := io, os_inode := (os_inode s)(ino := os_inode s ino @ w)\<rparr>)"
    "prefix w bs" "b \<longleftrightarrow> w = bs"
proof -
  obtain b w l where "write_all (os_io s) bs = (b, w, l)" by (metis prod_cases3)
  moreover from write_all_prefix[OF this] obtain q where "bs = w @ q" "b \<longleftrightarrow> q = []" by blast
  ultimately show thesis using assms by (intro that[of b w l]) (simp_all add: sys_write_all_def)
qed

text \<open>The log as the server and its next start find it.\<close>

definition log_view :: "sv \<Rightarrow> nat option \<times> nat option \<times> byte list option" where
  "log_view s = (os_path s (cfg_aof_filename (config s)), os_fd s (aof_fd s), fd_bytes s (aof_fd s))"

text \<open>What the switch keeps of the rest of the state, whether it succeeds or not.\<close>

definition kept_files :: "sv \<Rightarrow> sv \<Rightarrow> bool" where
  "kept_files s s' \<longleftrightarrow>
     config s' = config s \<and> aof_temp_filename s' = aof_temp_filename s \<and> sdb s' = sdb s \<and>
     os_child s' = os_child s \<and> os_next_ino s' = os_next_ino s \<and> os_next_fd s \<le> os_next_fd s' \<and>
     aof_fd s' < os_next_fd s' \<and> ran (os_path s') \<subseteq> ran (os_path s) \<and>
     os_path s' (aof_temp_filename s) \<in> {None, os_path s (aof_temp_filename s)}"

definition switch_refused :: "sv \<Rightarrow> sv \<Rightarrow> bool" where
  "switch_refused s s' \<longleftrightarrow>
     kept_files s s' \<and> log_view s' = log_view s \<and> aof_rewrites_failed s' = aof_rewrites_failed s"

lemma ran_remove: "ran (m(k := None)) \<subseteq> ran m"
  by (auto simp: ran_def)

lemma finalize_fail_refused:
  assumes "aof_temp_filename s \<noteq> cfg_aof_filename (config s)" "switch_refused s s6"
  shows "kept_files s (finalize_fail s6)" "log_view (finalize_fail s6) = log_view s"
    "aof_rewrite_state (finalize_fail s6) = AOF_RW_IDLE" "aof_rewrite_buf (finalize_fail s6) = None"
    "aof_rewrites_failed (finalize_fail s6) = aof_rewrites_failed s + 1"
proof -
  obtain b l where ok: "sys_ok s6 = (b, s6\<lparr>os_ok := l\<rparr>)" by (rule sys_ok_shape)
  let ?p = "if b then (os_path s6)(aof_temp_filename s6 := None) else os_path s6"
  have proj: "os_path (finalize_fail s6) = ?p" "config (finalize_fail s6) = config s6"
    "aof_temp_filename (finalize_fail s6) = aof_temp_filename s6" "sdb (finalize_fail s6) = sdb s6"
    "os_child (finalize_fail s6) = os_child s6" "os_next_ino (finalize_fail s6) = os_next_ino s6"
    "os_next_fd (finalize_fail s6) = os_next_fd s6" "aof_fd (finalize_fail s6) = aof_fd s6"
    "os_fd (finalize_fail s6) = os_fd s6" "os_inode (finalize_fail s6) = os_inode s6"
    and "aof_rewrites_failed (finalize_fail s6) = aof_rewrites_failed s6 + 1"
    and shows_idle: "aof_rewrite_state (finalize_fail s6) = AOF_RW_IDLE" "aof_rewrite_buf (finalize_fail s6) = None"
    using ok by (simp_all add: finalize_fail_def sys_unlink_def aof_rewrite_record_failure_def
        aof_rewrite_cleanup_def Let_def)
  then show "aof_rewrites_failed (finalize_fail s6) = aof_rewrites_failed s + 1"
    using assms(2) by (simp add: switch_refused_def)
  have ref: "kept_files s s6" "log_view s6 = log_view s" using assms(2) by (simp_all add: switch_refused_def)
  show "kept_files s (finalize_fail s6)"
    using ref(1) ran_remove[of "os_path s6" "aof_temp_filename s6"] unfolding kept_files_def proj by auto
  show "log_view (finalize_fail s6) = log_view s"
    using ref assms(1) unfolding log_view_def fd_bytes_def proj kept_files_def by auto
  show "aof_rewrite_state (finalize_fail s6) = AOF_RW_IDLE" "aof_rewrite_buf (finalize_fail s6) = None"
    by (fact shows_idle)+
qed

text \<open>Whatever fails on the way, the switch happens completely or not at all.\<close>

lemma aof_rewrite_finalize_atomic:
  assumes names: "aof_temp_filename s \<noteq> cfg_aof_filename (config s)"
    and fds: "aof_fd s < os_next_fd s" "0 \<le> os_next_fd s" and live: "os_fd s (aof_fd s) = Some li"
    and temp: "os_path s (aof_temp_filename s) = Some ti" "ti \<noteq> li" and diff: "aof_rewrite_buf s = Some diff"
  shows "let s' = aof_rewrite_finalize s in
         aof_rewrite_state s' = AOF_RW_IDLE \<and> aof_rewrite_buf s' = None \<and> kept_files s s' \<and>
         (log_view s' = log_view s \<and> aof_rewrites_failed s' = aof_rewrites_failed s + 1 \<or>
          log_view s' = (Some ti, Some ti, Some (os_inode s ti @ diff)) \<and>
          os_path s' (aof_temp_filename s) = None \<and> aof_rewrites_completed s' = aof_rewrites_completed s + 1)"
proof -
  obtain b1 l1 where k1: "sys_ok s = (b1, s\<lparr>os_ok := l1\<rparr>)" by (rule sys_ok_shape)
  let ?fd = "os_next_fd s"
  let ?s1 = "s\<lparr>os_ok := l1, os_fd := (os_fd s)(?fd \<mapsto> ti), os_next_fd := ?fd + 1\<rparr>"
  have open1: "sys_open_existing (aof_temp_filename s) s = (if b1 then (?fd, ?s1) else (-1, s\<lparr>os_ok := l1\<rparr>))"
    using temp by (simp add: sys_open_existing_def k1 sys_bind_fd_def)
  obtain b2 io w where k2: "sys_write_all ?fd diff ?s1 =
      (b2, ?s1\<lparr>os_io := io, os_inode := (os_inode ?s1)(ti := os_inode ?s1 ti @ w)\<rparr>)" "b2 \<longleftrightarrow> w = diff"
    by (rule sys_write_all_shape[of ?s1 ?fd ti diff]) simp_all
  let ?s2 = "s\<lparr>os_ok := l1, os_fd := (os_fd s)(?fd \<mapsto> ti), os_next_fd := ?fd + 1, os_io := io,
      os_inode := (os_inode s)(ti := os_inode s ti @ w)\<rparr>"
  obtain b3 l3 g3 n3 where k3: "durable_flush ?fd ?s2 =
      (b3, ?s2\<lparr>os_ok := l3, os_synced := g3, aof_total_fsyncs := n3\<rparr>)" by (rule durable_flush_shape)
  let ?s3 = "sys_close ?fd (?s2\<lparr>os_ok := l3, os_synced := g3, aof_total_fsyncs := n3\<rparr>)"
  obtain b4 l4 where k4: "sys_ok ?s3 = (b4, ?s3\<lparr>os_ok := l4\<rparr>)" by (rule sys_ok_shape)
  let ?s4 = "?s3\<lparr>os_ok := l4, os_fd := (os_fd ?s3)(?fd + 1 \<mapsto> ti), os_next_fd := ?fd + 2\<rparr>"
  have open4: "open_aof (aof_temp_filename ?s3) ?s3 = (if b4 then (?fd + 1, ?s4) else (-1, ?s3\<lparr>os_ok := l4\<rparr>))"
    unfolding open_aof_def sys_open_create_def k4
    using temp by (simp add: sys_close_def sys_bind_fd_def)
  obtain b5 l5 where k5: "sys_ok ?s4 = (b5, ?s4\<lparr>os_ok := l5\<rparr>)" by (rule sys_ok_shape)
  have ne: "?fd \<noteq> -1" "?fd + 1 \<noteq> -1" "aof_fd s \<noteq> ?fd" "aof_fd s \<noteq> ?fd + 1" "aof_fd s < ?fd + 2"
    "aof_fd s < ?fd + 1" using fds by linarith+
  note facts = names ne live temp k2(1) k3 open4 k5 fds
  note defs = aof_rewrite_finalize_def Let_def diff open1 sys_close_def sys_rename_def
  note views = switch_refused_def kept_files_def log_view_def fd_bytes_def
  have fail: ?thesis if "aof_rewrite_finalize s = finalize_fail s6" "switch_refused s s6" for s6
    using finalize_fail_refused[OF names that(2)] that(1) by (simp add: Let_def)
  consider "\<not> b1" | "b1" "\<not> b2" | "b1" "b2" "\<not> b3" | "b1" "b2" "b3" "\<not> b4" | "b1" "b2" "b3" "b4" "\<not> b5"
    | "b1" "b2" "b3" "b4" "b5" by blast
  then show ?thesis
  proof cases
    case 1
    show ?thesis
      by (rule fail[of "s\<lparr>os_ok := l1\<rparr>"]) (use 1 facts in \<open>simp_all add: defs views\<close>)
  next
    case 2
    show ?thesis
      by (rule fail[of "sys_close ?fd ?s2"]) (use 2 facts in \<open>simp_all add: defs views\<close>)
  next
    case 3
    show ?thesis
      by (rule fail[of ?s3]) (use 3 facts in \<open>simp_all add: defs views\<close>)
  next
    case 4
    show ?thesis
      by (rule fail[of "?s3\<lparr>os_ok := l4\<rparr>"]) (use 4 facts in \<open>simp_all add: defs views\<close>)
  next
    case 5
    show ?thesis
      by (rule fail[of "sys_close (?fd + 1) (?s4\<lparr>os_ok := l5\<rparr>)"]) (use 5 facts in \<open>simp_all add: defs views\<close>)
  next
    case 6
    then have "w = diff" using k2(2) by simp
    with 6 facts show ?thesis
      by (simp add: defs views file_at_def aof_rewrite_cleanup_def) (auto simp: ran_def)
  qed
qed

section \<open>The snapshot\<close>

text \<open>The mutation that restores one entry, and those the child writes, with the number of
  clock readings made before.\<close>

definition snap_op :: "db \<Rightarrow> cstr ht_entry \<Rightarrow> kv_op" where
  "snap_op db e =
     (case ht_find (db_expires db) (fst e) of
        None \<Rightarrow> KSet (fst e) (snd e)
      | Some t \<Rightarrow> KSetex (fst e) (snd e) t)"

fun snap_ops :: "(nat \<Rightarrow> int) \<Rightarrow> db \<Rightarrow> nat \<Rightarrow> cstr ht_entry list \<Rightarrow> kv_op list" where
  "snap_ops clk db n [] = []"
| "snap_ops clk db n (e # es) =
     (case ht_find (db_expires db) (fst e) of
        None \<Rightarrow> snap_op db e # snap_ops clk db n es
      | Some t \<Rightarrow> (if t < clk n then [] else [snap_op db e]) @ snap_ops clk db (Suc n) es)"

text \<open>The state after some bytes were appended to the temporary file.\<close>

definition wrote :: "nat \<Rightarrow> byte list \<Rightarrow> sys list \<Rightarrow> sv \<Rightarrow> sv" where
  "wrote ti bs io s = s\<lparr>os_io := io, os_inode := (os_inode s)(ti := os_inode s ti @ bs)\<rparr>"

lemma wrote_simps [simp]:
  "wrote ti b2 io2 (wrote ti b1 io1 s) = wrote ti (b1 @ b2) io2 s" "os_fd (wrote ti bs io s) = os_fd s"
  "os_io (wrote ti bs io s) = io" "os_ok (wrote ti bs io s) = os_ok s" "os_path (wrote ti bs io s) = os_path s"
  by (simp_all add: wrote_def)

lemma wrote_nothing: "wrote ti [] (os_io s) s = s"
  by (cases s) (simp add: wrote_def)

lemma rewrite_entry_ok:
  assumes alive: "ch_alive ch" and io: "SysErr \<notin> set (os_io (ch_sv ch))" and fd: "os_fd (ch_sv ch) fd = Some ti"
    and buf: "length (ch_buf ch) = AOF_RECORD_MAX" and fits: "op_fits (snap_op db e)"
  obtains io' buf' where "SysErr \<notin> set io'" "length buf' = AOF_RECORD_MAX"
    "rewrite_entry clk fd db e ch =
      \<lparr>ch_alive = True, ch_reads = ch_reads ch + (if ht_find (db_expires db) (fst e) = None then 0 else 1),
       ch_buf = buf',
       ch_sv = wrote ti (concat (map op_record (snap_ops clk db (ch_reads ch) [e]))) io' (ch_sv ch)\<rparr>"
proof -
  let ?p = "snap_op db e" and ?exp = "ht_find (db_expires db) (fst e)"
  have fields: "op_code ?p = (if ?exp = None then AOF_OP_SET else AOF_OP_SETEX)"
    "op_key ?p = fst e" "op_value ?p = snd e" "op_expire ?p = (case ?exp of Some t \<Rightarrow> t | None \<Rightarrow> 0)"
    by (auto simp: snap_op_def split: option.split)
  show thesis
  proof (cases "\<exists>t. ?exp = Some t \<and> t < clk (ch_reads ch)")
    case True
    then have "rewrite_entry clk fd db e ch = ch\<lparr>ch_reads := ch_reads ch + 1\<rparr>"
      using alive by (auto simp: rewrite_entry_def Let_def ht_op_defs)
    moreover have "ch\<lparr>ch_reads := ch_reads ch + 1\<rparr> =
        \<lparr>ch_alive = True, ch_reads = ch_reads ch + 1, ch_buf = ch_buf ch,
         ch_sv = wrote ti [] (os_io (ch_sv ch)) (ch_sv ch)\<rparr>"
      using alive by (cases ch) (simp add: wrote_nothing)
    ultimately show thesis using True by (intro that[OF io buf]) auto
  next
    case False
    have "27 + length (op_key ?p) + length (op_value ?p) \<le> length (ch_buf ch)"
      using fits buf by (simp add: op_fits_def aof_sizes)
    from aof_serialize_fits[OF this, of "op_code ?p" "op_expire ?p"] obtain junk
      where ser: "aof_serialize (ch_buf ch) (op_code ?p) (op_key ?p) (op_value ?p) (op_expire ?p) =
          Some (op_record ?p @ junk, length (op_record ?p))" "length (op_record ?p @ junk) = AOF_RECORD_MAX"
      using buf by (auto simp: op_record_def length_aof_record)
    obtain io' where w: "SysErr \<notin> set io'"
      "sys_write_all fd (op_record ?p) (ch_sv ch) = (True, wrote ti (op_record ?p) io' (ch_sv ch))"
      using sys_write_all_quiet[OF io fd, of "op_record ?p" thesis] by (auto simp: wrote_def)
    have rec: "concat (map op_record (snap_ops clk db (ch_reads ch) [e])) = op_record ?p"
      using False by (auto split: option.split)
    have "rewrite_entry clk fd db e ch =
        \<lparr>ch_alive = True, ch_reads = ch_reads ch + (if ?exp = None then 0 else 1), ch_buf = op_record ?p @ junk,
         ch_sv = wrote ti (op_record ?p) io' (ch_sv ch)\<rparr>"
      using False alive w(2) ser(1) unfolding fields
      by (cases ch; cases ?exp) (simp_all add: rewrite_entry_def Let_def ht_op_defs)
    then show thesis using rec by (intro that[OF w(1) ser(2)]) simp
  qed
qed

lemma rewrite_entries_ok:
  assumes "ch_alive ch" "SysErr \<notin> set (os_io (ch_sv ch))" "os_fd (ch_sv ch) fd = Some ti"
    and "length (ch_buf ch) = AOF_RECORD_MAX" "\<forall>e \<in> set es. op_fits (snap_op db e)"
  shows "\<exists>io' buf' n. SysErr \<notin> set io' \<and>
    fold (rewrite_entry clk fd db) es ch =
      \<lparr>ch_alive = True, ch_reads = n, ch_buf = buf',
       ch_sv = wrote ti (concat (map op_record (snap_ops clk db (ch_reads ch) es))) io' (ch_sv ch)\<rparr>"
  using assms
proof (induction es arbitrary: ch)
  case Nil
  then show ?case
    by (intro exI[of _ "os_io (ch_sv ch)"] exI[of _ "ch_buf ch"] exI[of _ "ch_reads ch"], cases ch)
      (simp add: wrote_nothing)
next
  case (Cons e es)
  have "op_fits (snap_op db e)" using Cons.prems(5) by simp
  from Cons.prems(1-4) this obtain io1 buf1 where one: "SysErr \<notin> set io1" "length buf1 = AOF_RECORD_MAX"
    "rewrite_entry clk fd db e ch =
      \<lparr>ch_alive = True, ch_reads = ch_reads ch + (if ht_find (db_expires db) (fst e) = None then 0 else 1),
       ch_buf = buf1, ch_sv = wrote ti (concat (map op_record (snap_ops clk db (ch_reads ch) [e]))) io1 (ch_sv ch)\<rparr>"
    by (rule rewrite_entry_ok)
  let ?ch = "rewrite_entry clk fd db e ch"
  have all: "concat (map op_record (snap_ops clk db (ch_reads ch) (e # es))) =
      concat (map op_record (snap_ops clk db (ch_reads ch) [e])) @
      concat (map op_record (snap_ops clk db (ch_reads ?ch) es))"
    by (simp add: one(3) split: option.split)
  have "\<exists>io' buf' n. SysErr \<notin> set io' \<and>
    fold (rewrite_entry clk fd db) es ?ch =
      \<lparr>ch_alive = True, ch_reads = n, ch_buf = buf',
       ch_sv = wrote ti (concat (map op_record (snap_ops clk db (ch_reads ?ch) es))) io' (ch_sv ?ch)\<rparr>"
    using Cons.prems(3,5) one by (intro Cons.IH) simp_all
  moreover have "wrote ti (concat (map op_record (snap_ops clk db (ch_reads ?ch) es))) io' (ch_sv ?ch) =
      wrote ti (concat (map op_record (snap_ops clk db (ch_reads ch) (e # es)))) io' (ch_sv ch)" for io'
    unfolding all by (simp add: one(3))
  ultimately show ?case by simp
qed

text \<open>Whatever the calls do: a child that is still alive after an entry has written its record.\<close>

definition op_room :: "kv_op \<Rightarrow> bool" where
  "op_room p \<longleftrightarrow> AOF_HEADER_SIZE + AOF_BODY_FIXED + length (op_key p) + length (op_value p) \<le> AOF_RECORD_MAX"

lemma op_fits_room_iff:
  "op_fits p \<longleftrightarrow> wf_cstr (op_key p) \<and> wf_cstr (op_value p) \<and> i64_range (op_expire p) \<and> op_room p"
  by (simp add: op_fits_def op_room_def)

definition reads_after :: "db \<Rightarrow> cstr ht_entry \<Rightarrow> nat \<Rightarrow> nat" where
  "reads_after db e n = n + (if ht_find (db_expires db) (fst e) = None then 0 else 1)"

lemma snap_ops_Cons:
  "snap_ops clk db n (e # es) = snap_ops clk db n [e] @ snap_ops clk db (reads_after db e n) es"
  by (simp add: reads_after_def split: option.split)

lemma rewrite_entry_gen:
  assumes fd: "os_fd (ch_sv ch) fd = Some ti" and buf: "length (ch_buf ch) = AOF_RECORD_MAX"
  shows "\<exists>io w ch'. rewrite_entry clk fd db e ch = ch' \<and> length (ch_buf ch') = AOF_RECORD_MAX \<and>
    ch_sv ch' = wrote ti w io (ch_sv ch) \<and>
    (ch_alive ch' \<longrightarrow> ch_alive ch \<and> ch_reads ch' = reads_after db e (ch_reads ch) \<and>
       w = concat (map op_record (snap_ops clk db (ch_reads ch) [e])) \<and>
       (\<forall>p \<in> set (snap_ops clk db (ch_reads ch) [e]). op_room p))"
proof -
  let ?p = "snap_op db e" and ?exp = "ht_find (db_expires db) (fst e)"
  let ?s = "ch_sv ch" and ?n = "ch_reads ch"
  have fields: "op_code ?p = (if ?exp = None then AOF_OP_SET else AOF_OP_SETEX)"
    "op_key ?p = fst e" "op_value ?p = snd e" "op_expire ?p = (case ?exp of Some t \<Rightarrow> t | None \<Rightarrow> 0)"
    by (auto simp: snap_op_def split: option.split)
  have none: "?s = wrote ti [] (os_io ?s) ?s" by (simp add: wrote_nothing)
  consider (dead) "\<not> ch_alive ch"
    | (skipped) "ch_alive ch" "\<exists>t. ?exp = Some t \<and> t < clk ?n"
    | (big) "ch_alive ch" "\<nexists>t. ?exp = Some t \<and> t < clk ?n" "\<not> op_room ?p"
    | (room) "ch_alive ch" "\<nexists>t. ?exp = Some t \<and> t < clk ?n" "op_room ?p" by blast
  then show ?thesis
  proof cases
    case dead
    then have "rewrite_entry clk fd db e ch = ch" by (simp add: rewrite_entry_def)
    with dead buf none show ?thesis by metis
  next
    case skipped
    then have "rewrite_entry clk fd db e ch = ch\<lparr>ch_reads := ?n + 1\<rparr>"
      by (auto simp: rewrite_entry_def Let_def ht_op_defs)
    with skipped buf show ?thesis
      by (intro exI[of _ "os_io ?s"] exI[of _ "[]"]) (auto simp: wrote_nothing reads_after_def)
  next
    case big
    then have "length (ch_buf ch) < 27 + length (op_key ?p) + length (op_value ?p)"
      using buf by (simp add: op_room_def aof_sizes)
    then have "aof_serialize (ch_buf ch) (op_code ?p) (op_key ?p) (op_value ?p) (op_expire ?p) = None"
      using buf by (intro aof_serialize_too_big) (simp_all add: aof_sizes)
    then have "\<not> ch_alive (rewrite_entry clk fd db e ch)" "ch_sv (rewrite_entry clk fd db e ch) = ?s"
      "ch_buf (rewrite_entry clk fd db e ch) = ch_buf ch"
      using big(1,2) unfolding fields
      by (cases ?exp; simp add: rewrite_entry_def Let_def ht_op_defs)+
    with buf none show ?thesis by metis
  next
    case room
    then have "27 + length (op_key ?p) + length (op_value ?p) \<le> length (ch_buf ch)"
      using buf by (simp add: op_room_def aof_sizes)
    from aof_serialize_fits[OF this, of "op_code ?p" "op_expire ?p"] obtain junk
      where ser: "aof_serialize (ch_buf ch) (op_code ?p) (op_key ?p) (op_value ?p) (op_expire ?p) =
          Some (op_record ?p @ junk, length (op_record ?p))" "length (op_record ?p @ junk) = AOF_RECORD_MAX"
      using buf by (auto simp: op_record_def length_aof_record)
    obtain b io w where k: "sys_write_all fd (op_record ?p) ?s = (b, wrote ti w io ?s)" "b \<longleftrightarrow> w = op_record ?p"
      unfolding wrote_def by (rule sys_write_all_shape[OF fd])
    have rec: "snap_ops clk db ?n [e] = [?p]" using room(2) by (auto split: option.split)
    have "rewrite_entry clk fd db e ch =
        \<lparr>ch_alive = b, ch_reads = reads_after db e ?n, ch_buf = op_record ?p @ junk, ch_sv = wrote ti w io ?s\<rparr>"
      using room(1,2) k(1) ser(1) unfolding fields
      by (cases ch; cases ?exp) (simp_all add: rewrite_entry_def Let_def ht_op_defs reads_after_def)
    with room(1,3) ser(2) k(2) rec show ?thesis
      by (intro exI[of _ io] exI[of _ w]) simp
  qed
qed

lemma rewrite_entries_gen:
  assumes "os_fd (ch_sv ch) fd = Some ti" "length (ch_buf ch) = AOF_RECORD_MAX"
  shows "\<exists>io w ch'. fold (rewrite_entry clk fd db) es ch = ch' \<and> ch_sv ch' = wrote ti w io (ch_sv ch) \<and>
    (ch_alive ch' \<longrightarrow> ch_alive ch \<and> w = concat (map op_record (snap_ops clk db (ch_reads ch) es)) \<and>
       (\<forall>p \<in> set (snap_ops clk db (ch_reads ch) es). op_room p))"
  using assms
proof (induction es arbitrary: ch)
  case Nil
  show ?case
    by (intro exI[of _ "os_io (ch_sv ch)"] exI[of _ "[]"]) (simp add: wrote_nothing)
next
  case (Cons e es)
  let ?ch = "rewrite_entry clk fd db e ch"
  obtain io w where one: "length (ch_buf ?ch) = AOF_RECORD_MAX" "ch_sv ?ch = wrote ti w io (ch_sv ch)"
    "ch_alive ?ch \<longrightarrow> ch_alive ch \<and> ch_reads ?ch = reads_after db e (ch_reads ch) \<and>
       w = concat (map op_record (snap_ops clk db (ch_reads ch) [e])) \<and>
       (\<forall>p \<in> set (snap_ops clk db (ch_reads ch) [e]). op_room p)"
    using rewrite_entry_gen[OF Cons.prems] by blast
  have "os_fd (ch_sv ?ch) fd = Some ti" using one(2) Cons.prems(1) by simp
  from Cons.IH[OF this one(1)] obtain io2 w2
    where "ch_sv (fold (rewrite_entry clk fd db) es ?ch) = wrote ti w2 io2 (ch_sv ?ch)"
      "ch_alive (fold (rewrite_entry clk fd db) es ?ch) \<longrightarrow> ch_alive ?ch \<and>
         w2 = concat (map op_record (snap_ops clk db (ch_reads ?ch) es)) \<and>
         (\<forall>p \<in> set (snap_ops clk db (ch_reads ?ch) es). op_room p)" by blast
  with one(2,3) show ?case
    unfolding snap_ops_Cons[of clk db "ch_reads ch" e es]
    by (intro exI[of _ io2] exI[of _ "w @ w2"]) auto
qed

text \<open>The inode the child's file gets.\<close>

definition temp_inode :: "sv \<Rightarrow> nat" where
  "temp_inode s = (case os_path s (aof_temp_filename s) of Some i \<Rightarrow> i | None \<Rightarrow> os_next_ino s)"

lemma sys_open_trunc_quiet:
  assumes "False \<notin> set (os_ok s)"
  shows "\<exists>s1. sys_open_trunc (aof_temp_filename s) s = (os_next_fd s, s1) \<and>
    os_fd s1 = (os_fd s)(os_next_fd s \<mapsto> temp_inode s) \<and>
    os_inode s1 = (os_inode s)(temp_inode s := []) \<and>
    os_path s1 = (os_path s)(aof_temp_filename s \<mapsto> temp_inode s) \<and>
    os_io s1 = os_io s \<and> os_ok s1 = tl (os_ok s)"
  using assms
  by (auto simp: sys_open_trunc_def sys_ok_quiet temp_inode_def sys_bind_fd_def sys_new_file_def Let_def
      fun_upd_idem split: option.split)

lemma aof_rewrite_child_ok:
  assumes q: "quiet s" and inv: "ht_inv (db_keyspace db)" and fd: "0 \<le> os_next_fd s"
    and stack: "length stack = AOF_RECORD_MAX"
    and fits: "\<forall>e \<in> set (concat (ht_table (db_keyspace db))). op_fits (snap_op db e)"
  shows "\<exists>s'. aof_rewrite_child clk created stack db s = Some (0, s') \<and>
    os_path s' = (os_path s)(aof_temp_filename s \<mapsto> temp_inode s) \<and>
    os_inode s' = (os_inode s)(temp_inode s :=
      aof_file_header created @ concat (map op_record (snap_ops clk db 0 (concat (ht_table (db_keyspace db))))))"
proof -
  note ok = q[unfolded quiet_def]
  let ?es = "concat (ht_table (db_keyspace db))" and ?ti = "temp_inode s" and ?fd = "os_next_fd s"
  obtain s1 where s1: "sys_open_trunc (aof_temp_filename s) s = (?fd, s1)"
    "os_fd s1 = (os_fd s)(?fd \<mapsto> ?ti)" "os_inode s1 = (os_inode s)(?ti := [])"
    "os_path s1 = (os_path s)(aof_temp_filename s \<mapsto> ?ti)" "os_io s1 = os_io s" "os_ok s1 = tl (os_ok s)"
    using sys_open_trunc_quiet[of s] ok by auto
  have fd1: "os_fd s1 ?fd = Some ?ti" and io1: "SysErr \<notin> set (os_io s1)" using s1 ok by simp_all
  obtain io2 where h: "SysErr \<notin> set io2"
    "aof_write_file_header ?fd created s1 = (True, wrote ?ti (aof_file_header created) io2 s1)"
    unfolding aof_write_file_header_def wrote_def by (rule sys_write_all_quiet[OF io1 fd1])
  let ?s2 = "wrote ?ti (aof_file_header created) io2 s1"
  let ?ch = "\<lparr>ch_alive = True, ch_reads = 0, ch_buf = stack, ch_sv = ?s2\<rparr>"
  obtain io3 buf3 n3 where f: "SysErr \<notin> set io3"
    "fold (rewrite_entry clk ?fd db) ?es ?ch = \<lparr>ch_alive = True, ch_reads = n3, ch_buf = buf3,
       ch_sv = wrote ?ti (concat (map op_record (snap_ops clk db 0 ?es))) io3 ?s2\<rparr>"
    using rewrite_entries_ok[of ?ch ?fd ?ti ?es db clk] h(1) fd1 stack fits by auto
  have loop: "ht_iter_loop (rewrite_entry clk ?fd db) (ht_iter_create (db_keyspace db)) ?ch =
      Some (fold (rewrite_entry clk ?fd db) ?es ?ch)"
    by (rule ht_iter_all[OF inv])
  let ?s3 = "wrote ?ti (aof_file_header created @ concat (map op_record (snap_ops clk db 0 ?es))) io3 s1"
  have flush: "durable_flush ?fd ?s3 = (True, ?s3\<lparr>os_ok := tl (os_ok ?s3),
      os_synced := (os_synced ?s3)(?ti := length (os_inode ?s3 ?ti)), aof_total_fsyncs := aof_total_fsyncs ?s3 + 1\<rparr>)"
    by (rule durable_flush_quiet) (use s1 ok in simp_all)
  have "?fd \<noteq> -1" using fd by simp
  then have "aof_rewrite_child clk created stack db s = Some (0, sys_close ?fd (snd (durable_flush ?fd ?s3)))"
    unfolding aof_rewrite_child_def Let_def s1(1) h(2) prod.case
    by (simp add: loop f(2) flush)
  then show ?thesis
    unfolding flush snd_conv by (simp add: sys_close_def wrote_def s1)
qed

lemma sys_open_trunc_gen:
  obtains (failed) s1 where "sys_open_trunc (aof_temp_filename s) s = (-1, s1)" "os_inode s1 = os_inode s"
      "os_path s1 = os_path s" "os_next_ino s1 = os_next_ino s"
    | (opened) s1 where "sys_open_trunc (aof_temp_filename s) s = (os_next_fd s, s1)"
      "os_fd s1 (os_next_fd s) = Some (temp_inode s)" "os_inode s1 = (os_inode s)(temp_inode s := [])"
      "os_path s1 = (os_path s)(aof_temp_filename s \<mapsto> temp_inode s)"
      "os_next_ino s1 = max (os_next_ino s) (if os_path s (aof_temp_filename s) = None then os_next_ino s + 1 else 0)"
proof -
  obtain b l where ok: "sys_ok s = (b, s\<lparr>os_ok := l\<rparr>)" by (rule sys_ok_shape)
  show thesis
  proof (cases b)
    case False
    then show thesis using ok by (intro failed[of "s\<lparr>os_ok := l\<rparr>"]) (simp_all add: sys_open_trunc_def)
  next
    case True
    then show thesis
      by (intro opened[of "snd (sys_open_trunc (aof_temp_filename s) s)"])
        (use ok in \<open>auto simp: sys_open_trunc_def temp_inode_def sys_bind_fd_def sys_new_file_def Let_def
          fun_upd_idem split: option.split\<close>)
  qed
qed

lemma durable_flush_files [simp]:
  "os_path (snd (durable_flush fd s)) = os_path s" "os_next_ino (snd (durable_flush fd s)) = os_next_ino s"
  using core_proj(5,12)[of "snd (durable_flush fd s)" s] by simp_all

lemma wrote_files [simp]: "os_next_ino (wrote ti bs io s) = os_next_ino s"
  "os_inode (wrote ti bs io s) = (os_inode s)(ti := os_inode s ti @ bs)"
  by (simp_all add: wrote_def)

text \<open>The child ends whatever the calls do; it changes the temporary file only, and exit status
  0 means that the file holds the whole snapshot.\<close>

lemma aof_rewrite_child_gen:
  assumes inv: "ht_inv (db_keyspace db)" and stack: "length stack = AOF_RECORD_MAX" and fd: "0 \<le> os_next_fd s"
    and paths: "\<forall>p i. os_path s p = Some i \<longrightarrow> i < os_next_ino s"
    and ops: "ops = snap_ops clk db 0 (concat (ht_table (db_keyspace db)))"
  obtains code s' where "aof_rewrite_child clk created stack db s = Some (code, s')"
    "\<forall>i. i \<noteq> temp_inode s \<longrightarrow> os_inode s' i = os_inode s i"
    "\<forall>p. p \<noteq> aof_temp_filename s \<longrightarrow> os_path s' p = os_path s p"
    "os_path s' (aof_temp_filename s) \<in> {None, Some (temp_inode s)}"
    "\<forall>p i. os_path s' p = Some i \<longrightarrow> i < os_next_ino s'" "os_next_ino s \<le> os_next_ino s'"
    "code = 0 \<longrightarrow> file_at s' (aof_temp_filename s) = Some (aof_file_header created @ concat (map op_record ops)) \<and>
       (\<forall>p \<in> set ops. op_room p)"
proof -
  let ?ti = "temp_inode s" and ?t = "aof_temp_filename s" and ?fd = "os_next_fd s"
  have old: "os_path s ?t \<in> {None, Some ?ti}" by (simp add: temp_inode_def split: option.split)
  show thesis
  proof (cases rule: sys_open_trunc_gen[of s])
    case (failed s1)
    then have "aof_rewrite_child clk created stack db s = Some (1, s1)" by (simp add: aof_rewrite_child_def)
    from that[OF this] failed old paths show thesis by auto
  next
    case (opened s1)
    have ne: "?fd \<noteq> -1" using fd by simp
    have le: "os_next_ino s \<le> os_next_ino s1" using opened(5) by simp
    have ino: "\<forall>p i. os_path s1 p = Some i \<longrightarrow> i < os_next_ino s1"
      using paths opened(4,5) by (fastforce simp: temp_inode_def split: option.splits if_splits)
    obtain b io w where h: "aof_write_file_header ?fd created s1 = (b, wrote ?ti w io s1)"
        "b \<longleftrightarrow> w = aof_file_header created"
      unfolding aof_write_file_header_def wrote_def by (rule sys_write_all_shape[OF opened(2)])
    let ?s2 = "wrote ?ti w io s1"
    let ?ch = "\<lparr>ch_alive = True, ch_reads = 0, ch_buf = stack, ch_sv = ?s2\<rparr>"
    let ?run = "fold (rewrite_entry clk ?fd db) (concat (ht_table (db_keyspace db))) ?ch"
    obtain io3 w3 where f: "ch_sv ?run = wrote ?ti w3 io3 ?s2"
      "ch_alive ?run \<longrightarrow> w3 = concat (map op_record ops) \<and> (\<forall>p \<in> set ops. op_room p)"
      using rewrite_entries_gen[of ?ch ?fd ?ti clk db "concat (ht_table (db_keyspace db))"] opened(2) stack
      unfolding ops by auto
    have loop: "ht_iter_loop (rewrite_entry clk ?fd db) (ht_iter_create (db_keyspace db)) ?ch = Some ?run"
      by (rule ht_iter_all[OF inv])
    let ?fl = "durable_flush ?fd (ch_sv ?run)"
    have res: "aof_rewrite_child clk created stack db s =
        (if \<not> b then Some (1, ?s2) else if \<not> ch_alive ?run then Some (1, ch_sv ?run)
         else if \<not> fst ?fl then Some (1, snd ?fl) else Some (0, sys_close ?fd (snd ?fl)))"
      using ne by (simp add: aof_rewrite_child_def opened(1) h(1) loop Let_def split_beta)
    show thesis
    proof (rule that)
      show "aof_rewrite_child clk created stack db s =
          Some (if b \<and> ch_alive ?run \<and> fst ?fl then 0 else 1,
                if \<not> b then ?s2 else if \<not> ch_alive ?run then ch_sv ?run
                else if \<not> fst ?fl then snd ?fl else sys_close ?fd (snd ?fl))"
        by (simp add: res)
    qed (use opened(3,4) f h(2) ino le in \<open>auto simp: sys_close_def file_at_def\<close>)
  qed
qed

section \<open>What a snapshot restores\<close>

text \<open>Deadlines are positive, as \<open>db_setex\<close> and \<open>db_key_expire\<close> make them.\<close>

definition deadlines_pos :: "db \<Rightarrow> bool" where
  "deadlines_pos db \<longleftrightarrow> (\<forall>k t. ht_find (db_expires db) k = Some t \<longrightarrow> 0 < t)"

lemma snap_apply:
  assumes "deadlines_pos db" "distinct (map fst es)" "\<forall>e \<in> set es. m (fst e) = None"
  shows "kv_apply_all (map (snap_op db) es) m =
    Some (\<lambda>k. case map_of es k of Some v \<Rightarrow> Some (v, ht_find (db_expires db) k) | None \<Rightarrow> m k)"
  using assms(2,3)
proof (induction es arbitrary: m)
  case Nil
  then show ?case by simp
next
  case (Cons e es)
  obtain k v where e: "e = (k, v)" by (cases e)
  let ?m = "m(k \<mapsto> (v, ht_find (db_expires db) k))"
  have "kv_apply (snap_op db e) m = Some ?m"
    using assms(1) Cons.prems(2) by (auto simp: e snap_op_def deadlines_pos_def kv_deadline_def split: option.split)
  moreover have "kv_apply_all (map (snap_op db) es) ?m =
      Some (\<lambda>j. case map_of es j of Some w \<Rightarrow> Some (w, ht_find (db_expires db) j) | None \<Rightarrow> ?m j)"
    using Cons.prems by (intro Cons.IH) (auto simp: e)
  moreover have "map_of es k = None" using Cons.prems(1) by (simp add: e map_of_eq_None_iff)
  ultimately show ?case by (auto simp: e fun_eq_iff split: option.split)
qed

text \<open>When no deadline passes while the child reads the clock, it writes the live entries.\<close>

lemma snap_ops_filter:
  assumes "\<forall>k t n. ht_find (db_expires db) k = Some t \<longrightarrow> (t < clk n \<longleftrightarrow> t < now)"
  shows "snap_ops clk db n es = map (snap_op db) (filter (\<lambda>e. \<not> db_expired db now (fst e)) es)"
  using assms by (induction es arbitrary: n) (auto simp: db_expired_def split: option.split)

lemma snapshot_restores_live:
  assumes inv: "db_inv db" "deadlines_pos db"
    and clk: "\<forall>k t n. ht_find (db_expires db) k = Some t \<longrightarrow> (t < clk n \<longleftrightarrow> t < now)"
  shows "kv_apply_all (snap_ops clk db 0 (concat (ht_table (db_keyspace db)))) Map.empty =
           Some (kv_live now (db_abs db))"
proof -
  let ?es = "concat (ht_table (db_keyspace db))"
  let ?live = "filter (\<lambda>e. \<not> db_expired db now (fst e)) ?es"
  note ht = db_invD(1)[OF inv(1)]
  have d: "distinct (map fst ?es)" by (rule ht_entries_distinct[OF ht])
  have find: "map_of ?es k = ht_find (db_keyspace db) k" for k
    using ht_find_map[OF ht] by (simp add: ht_map_def)
  have "map_of ?live k = (if db_expired db now k then None else map_of ?es k)" for k
    by (simp add: map_of_filter_key[of "\<lambda>k. \<not> db_expired db now k"])
  then have "(case map_of ?live k of Some v \<Rightarrow> Some (v, ht_find (db_expires db) k) | None \<Rightarrow> None) =
      kv_live now (db_abs db) k" for k
    by (simp add: kv_live_db[OF inv(1)] find db_abs_def split: option.split)
  moreover have "kv_apply_all (map (snap_op db) ?live) Map.empty =
      Some (\<lambda>k. case map_of ?live k of Some v \<Rightarrow> Some (v, ht_find (db_expires db) k) | None \<Rightarrow> Map.empty k)"
    using d by (intro snap_apply[OF inv(2)]) (simp_all add: distinct_map_filter)
  ultimately show ?thesis by (simp add: snap_ops_filter[OF clk])
qed

section \<open>Properties\<close>

text \<open>C40: After the \<open>n\<close>-th consecutive failure the next attempt is \<open>base * 2 ^ (n - 1)\<close>
  milliseconds away, clamped at the ceiling from the second failure on; the first delay is the
  base even when the base is above the ceiling.\<close>

theorem aof_rewrite_backoff:
  assumes "0 \<le> aof_rewrite_failed_streak s" "0 < cfg_aof_rewrite_backoff_base_ms (config s)"
  shows "let s' = aof_rewrite_record_failure s;
             base = cfg_aof_rewrite_backoff_base_ms (config s);
             n = nat (aof_rewrite_failed_streak s') in
         aof_rewrite_failed_streak s' = aof_rewrite_failed_streak s + 1 \<and>
         aof_rewrites_failed s' = aof_rewrites_failed s + 1 \<and>
         aof_rewrite_next_attempt_ms s' =
           wrap64 (snow_ms s + (if n = 1 then base
                                else min (cfg_aof_rewrite_backoff_max_ms (config s)) (base * 2 ^ (n - 1))))"
proof -
  have "nat (aof_rewrite_failed_streak s + 1) = Suc (nat (aof_rewrite_failed_streak s))"
    using assms(1) by simp
  then show ?thesis
    using assms by (simp add: aof_rewrite_record_failure_def Let_def backoff_loop_closed)
qed

theorem aof_rewrite_backoff_witness:
  "aof_rewrite_next_attempt_ms (aof_rewrite_record_failure ((server_zero Apple)\<lparr>aof_rewrite_failed_streak := 7\<rparr>)) = 600000"
  using aof_rewrite_backoff[of "(server_zero Apple)\<lparr>aof_rewrite_failed_streak := 7\<rparr>"]
  by (simp add: server_zero_def init_server_config_def Let_def i64_range_def)

text \<open>C38: Finishing a rewrite is all or nothing, whichever call fails: either the log's path and
  the server's descriptor both lead to the new file, which holds the snapshot followed by the
  whole diff, or both still lead to the old log and its bytes are untouched. In both cases the
  state machine is idle and the keyspace is as it was.\<close>

theorem aof_rewrite_finalize_all_or_nothing:
  assumes "aof_temp_filename s \<noteq> cfg_aof_filename (config s)"
    and "aof_fd s < os_next_fd s" "0 \<le> os_next_fd s" "os_fd s (aof_fd s) = Some li"
    and "os_path s (aof_temp_filename s) = Some ti" "ti \<noteq> li" "aof_rewrite_buf s = Some diff"
  shows "let s' = aof_rewrite_finalize s in
         aof_rewrite_state s' = AOF_RW_IDLE \<and> aof_rewrite_buf s' = None \<and> sdb s' = sdb s \<and>
         (os_path s' (cfg_aof_filename (config s')) = os_path s (cfg_aof_filename (config s)) \<and>
          os_fd s' (aof_fd s') = Some li \<and> os_inode s' li = os_inode s li \<and>
          aof_rewrites_failed s' = aof_rewrites_failed s + 1 \<or>
          os_path s' (cfg_aof_filename (config s')) = Some ti \<and> os_fd s' (aof_fd s') = Some ti \<and>
          os_inode s' ti = os_inode s ti @ diff \<and> os_path s' (aof_temp_filename s) = None \<and>
          aof_rewrites_completed s' = aof_rewrites_completed s + 1)"
  using aof_rewrite_finalize_atomic[OF assms] assms(4)
  by (auto simp: Let_def log_view_def fd_bytes_def kept_files_def)

text \<open>A server whose rewrite child has written an empty snapshot file.\<close>

definition rewriting :: sv where
  "rewriting = open_log\<lparr>aof_temp_filename := lit ''t'', os_path := [lit ''bytekv.aof'' \<mapsto> 0, lit ''t'' \<mapsto> 1],
                        os_next_ino := 2, aof_rewrite_state := AOF_RW_ACTIVE, aof_rewrite_buf := Some [7, 8],
                        aof_rewrite_cap := 100, os_child := Exited 0\<rparr>"

lemma rewriting_facts:
  "aof_temp_filename rewriting = lit ''t''" "cfg_aof_filename (config rewriting) = lit ''bytekv.aof''"
  "lit ''t'' \<noteq> lit ''bytekv.aof''" "aof_fd rewriting = 3" "os_next_fd rewriting = 4" "os_fd rewriting 3 = Some 0"
  "os_path rewriting (lit ''t'') = Some (Suc 0)" "aof_rewrite_buf rewriting = Some [7, 8]" "quiet rewriting"
  "os_inode rewriting (Suc 0) = []"
  by (simp_all add: rewriting_def open_log_def server_zero_def init_server_config_def lit_def quiet_def)

theorem aof_rewrite_finalize_all_or_nothing_witness:
  "aof_rewrite_state (aof_rewrite_finalize rewriting) = AOF_RW_IDLE"
  using aof_rewrite_finalize_all_or_nothing[of rewriting 0 1 "[7, 8]"]
  by (simp add: rewriting_facts Let_def)

text \<open>When no call fails, the switch takes place, and what was written is on the device before
  the path is changed.\<close>

lemma aof_rewrite_finalize_succeeds:
  assumes "quiet s" "os_path s (aof_temp_filename s) = Some ti"
    and "aof_temp_filename s \<noteq> cfg_aof_filename (config s)"
    and "aof_fd s < os_next_fd s" "0 \<le> os_next_fd s" "aof_rewrite_buf s = Some diff"
  shows "let s' = aof_rewrite_finalize s in
         file_at s' (cfg_aof_filename (config s)) = Some (os_inode s ti @ diff) \<and>
         os_synced s' ti = length (os_inode s ti @ diff) \<and> os_fd s' (aof_fd s') = Some ti \<and>
         file_at s' (aof_temp_filename s) = None \<and> aof_rewrite_failed_streak s' = 0 \<and>
         aof_rewrites_completed s' = aof_rewrites_completed s + 1"
  using aof_rewrite_finalize_quiet[OF assms] assms(3) by (auto simp: Let_def file_at_def)

text \<open>C39: Whichever of its calls fail, the child ends without leaving its buffer and changes no file
  but the temporary one. When it exits with 0, that file is a header and records that,
  replayed into an empty store, restore exactly the keys that are live at the time it runs,
  with their values and deadlines (no deadline passes between its readings of the clock). It
  does exit with 0 when no call fails and every entry fits the record buffer, that is when
  key and value have at most 4069 bytes together.\<close>

theorem aof_rewrite_child_snapshot:
  assumes inv: "db_inv db" "deadlines_pos db" and stack: "length stack = AOF_RECORD_MAX" and fd: "0 \<le> os_next_fd s"
    and paths: "\<forall>p i. os_path s p = Some i \<longrightarrow> i < os_next_ino s"
    and clk: "\<forall>k t n. ht_find (db_expires db) k = Some t \<longrightarrow> (t < clk n \<longleftrightarrow> t < now)"
  shows "\<exists>code s'. aof_rewrite_child clk created stack db s = Some (code, s') \<and>
    (\<forall>path. path \<noteq> aof_temp_filename s \<and> os_path s path \<noteq> Some (temp_inode s) \<longrightarrow> file_at s' path = file_at s path) \<and>
    (code = 0 \<longrightarrow>
       (\<exists>ops. file_at s' (aof_temp_filename s) = Some (aof_file_header created @ concat (map op_record ops)) \<and>
              kv_apply_all ops Map.empty = Some (kv_live now (db_abs db)))) \<and>
    (quiet s \<and> (\<forall>e \<in> set (concat (ht_table (db_keyspace db))). op_fits (snap_op db e)) \<longrightarrow> code = 0)"
proof -
  let ?ops = "snap_ops clk db 0 (concat (ht_table (db_keyspace db)))"
  obtain code s' where run: "aof_rewrite_child clk created stack db s = Some (code, s')"
    and ino: "\<forall>i. i \<noteq> temp_inode s \<longrightarrow> os_inode s' i = os_inode s i"
    and path: "\<forall>p. p \<noteq> aof_temp_filename s \<longrightarrow> os_path s' p = os_path s p"
    and whole: "code = 0 \<longrightarrow> file_at s' (aof_temp_filename s) = Some (aof_file_header created @ concat (map op_record ?ops))"
    by (rule aof_rewrite_child_gen[OF db_invD(1)[OF inv(1)] stack fd paths refl, of clk created]) blast
  have others: "file_at s' p = file_at s p" if "p \<noteq> aof_temp_filename s" "os_path s p \<noteq> Some (temp_inode s)" for p
    using that ino path by (cases "os_path s p") (auto simp: file_at_def)
  have zero: "code = 0" if "quiet s" "\<forall>e \<in> set (concat (ht_table (db_keyspace db))). op_fits (snap_op db e)"
    using aof_rewrite_child_ok[OF that(1) db_invD(1)[OF inv(1)] fd stack that(2), of clk created] run by auto
  show ?thesis
    using run others zero whole snapshot_restores_live[OF inv clk] by blast
qed

lemma db_k7_entries:
  "set (concat (ht_table (db_keyspace (fst (db_run (KSetex (lit ''k'') (lit ''v'') 7) (db_create 0)))))) = {(lit ''k'', lit ''v'')}"
  "ht_find (db_expires (fst (db_run (KSetex (lit ''k'') (lit ''v'') 7) (db_create 0)))) = [lit ''k'' \<mapsto> 7]"
proof -
  let ?db = "fst (db_run (KSetex (lit ''k'') (lit ''v'') 7) (db_create 0))"
  note ht = db_invD(1)[OF db_k7_inv]
  have "ht_find (db_keyspace ?db) k = map_option fst (db_abs ?db k)" for k
    by (simp add: db_abs_def option.map_comp comp_def option.map_ident del: db_run.simps)
  then have "map_of (concat (ht_table (db_keyspace ?db))) k = [lit ''k'' \<mapsto> lit ''v''] k" for k
    unfolding ht_find_map[OF ht] ht_map_def db_k7_abs by (simp del: db_run.simps)
  then have "x \<in> set (concat (ht_table (db_keyspace ?db))) \<longleftrightarrow> [lit ''k'' \<mapsto> lit ''v''] (fst x) = Some (snd x)" for x
    using map_of_eq_Some_iff[OF ht_entries_distinct[OF ht], of "fst x" "snd x"] by (simp del: db_run.simps)
  then show "set (concat (ht_table (db_keyspace ?db))) = {(lit ''k'', lit ''v'')}"
    by (intro set_eqI) (auto simp del: set_concat db_run.simps split: if_splits)
  show "ht_find (db_expires ?db) = [lit ''k'' \<mapsto> 7]"
    by (rule ext) (simp add: kv_deadline_db[OF db_k7_inv, symmetric] db_k7_abs kv_deadline_def del: db_run.simps)
qed

theorem aof_rewrite_child_snapshot_witness:
  "\<exists>s' ops. aof_rewrite_child (\<lambda>_. 5) 5 (replicate AOF_RECORD_MAX 0)
       (fst (db_run (KSetex (lit ''k'') (lit ''v'') 7) (db_create 0))) rewriting = Some (0, s') \<and>
     file_at s' (aof_temp_filename rewriting) = Some (aof_file_header 5 @ concat (map op_record ops)) \<and>
     kv_apply_all ops Map.empty = Some [lit ''k'' \<mapsto> (lit ''v'', Some 7)]"
proof -
  let ?db = "fst (db_run (KSetex (lit ''k'') (lit ''v'') 7) (db_create 0))"
  have q: "quiet rewriting" "0 \<le> os_next_fd rewriting" by (simp_all add: rewriting_facts)
  have paths: "\<forall>p i. os_path rewriting p = Some i \<longrightarrow> i < os_next_ino rewriting" by (auto simp: rewriting_def)
  have pos: "deadlines_pos ?db" unfolding deadlines_pos_def db_k7_entries(2) by auto
  have clk: "\<forall>k t n. ht_find (db_expires ?db) k = Some t \<longrightarrow> (t < (\<lambda>_ :: nat. 5) n \<longleftrightarrow> t < 5)" by simp
  have fits: "\<forall>e \<in> set (concat (ht_table (db_keyspace ?db))). op_fits (snap_op ?db e)"
    unfolding db_k7_entries(1) using op_k_fits(1) db_k7_entries(2) by (simp add: snap_op_def del: db_run.simps)
  have live: "kv_live 5 (db_abs ?db) = [lit ''k'' \<mapsto> (lit ''v'', Some 7)]"
    unfolding db_k7_abs by (auto simp: kv_live_def fun_eq_iff)
  from aof_rewrite_child_snapshot[OF db_k7_inv pos _ q(2) paths clk, of "replicate AOF_RECORD_MAX 0" 5] q(1) fits
  show ?thesis unfolding live by (simp del: db_run.simps) blast
qed

end
