(* ===== verification/Machine.thy ===== *)
theory Machine
  imports Main
begin

text \<open>
  Step relations and their invariants: the interface between the definition of a system's
  steps and what is concluded about every state it can reach.
\<close>

locale machine =
  fixes step :: "'s \<Rightarrow> 's \<Rightarrow> bool"
    and inv :: "'s \<Rightarrow> bool"
  assumes step_inv: "inv s \<Longrightarrow> step s s' \<Longrightarrow> inv s'"
begin

lemma reachable_inv: "step\<^sup>*\<^sup>* s s' \<Longrightarrow> inv s \<Longrightarrow> inv s'"
  by (induction rule: rtranclp_induct) (auto intro: step_inv)

text \<open>What follows from the invariant holds in every reachable state.\<close>

lemma reachable_safe:
  assumes "step\<^sup>*\<^sup>* s s'" "inv s" "\<And>t. inv t \<Longrightarrow> P t"
  shows "P s'"
  using reachable_inv[OF assms(1,2)] by (rule assms(3))

end

end
