(* ===== verification/Durability.thy ===== *)
theory Durability
  imports Aof_Rewrite Machine
begin

text \<open>
  The log and the keyspace together: mutations that are applied and logged, periodic
  flushes, rewrites that start, run beside the mutations, are given up, fail or switch the
  log to a new file. As long as the record of every accepted mutation reaches the log whole
  (the flush behind it may fail) and no deadline has passed, the file under the log's path
  always replays to the keyspace in memory.
\<close>

section \<open>Files that stand for a store\<close>

definition replays_to :: "int \<Rightarrow> byte list \<Rightarrow> kv \<Rightarrow> bool" where
  "replays_to T bytes m \<longleftrightarrow>
     (\<exists>created ops. (\<forall>p \<in> set ops. op_fits p \<and> \<not> op_skipped T p) \<and>
        bytes = aof_file_header created @ concat (map op_record ops) \<and>
        kv_apply_all ops Map.empty = Some m)"

text \<open>Records that lead from one store to another.\<close>

definition catches_up :: "int \<Rightarrow> byte list \<Rightarrow> kv \<Rightarrow> kv \<Rightarrow> bool" where
  "catches_up T bytes m m' \<longleftrightarrow>
     (\<exists>ops. (\<forall>p \<in> set ops. op_fits p \<and> \<not> op_skipped T p) \<and> bytes = concat (map op_record ops) \<and>
        kv_apply_all ops m = Some m')"

lemma catches_up_nil [simp]: "catches_up T [] m m"
  unfolding catches_up_def by (rule exI[of _ "[]"]) simp

lemma catches_up_one:
  "op_fits p \<Longrightarrow> \<not> op_skipped T p \<Longrightarrow> kv_apply p m = Some m' \<Longrightarrow> catches_up T (op_record p) m m'"
  unfolding catches_up_def by (rule exI[of _ "[p]"]) simp

lemma catches_up_trans:
  assumes "catches_up T b1 m m'" "catches_up T b2 m' m''"
  shows "catches_up T (b1 @ b2) m m''"
proof -
  obtain o1 where o1: "\<forall>p \<in> set o1. op_fits p \<and> \<not> op_skipped T p" "b1 = concat (map op_record o1)" "kv_apply_all o1 m = Some m'"
    using assms(1) unfolding catches_up_def by blast
  obtain o2 where "\<forall>p \<in> set o2. op_fits p \<and> \<not> op_skipped T p" "b2 = concat (map op_record o2)" "kv_apply_all o2 m' = Some m''"
    using assms(2) unfolding catches_up_def by blast
  with o1 show ?thesis
    unfolding catches_up_def by (intro exI[of _ "o1 @ o2"]) (auto simp: kv_apply_all_append)
qed

lemma replays_to_catch_up:
  assumes "replays_to T bytes m" "catches_up T diff m m'"
  shows "replays_to T (bytes @ diff) m'"
proof -
  obtain c o1 where o1: "\<forall>p \<in> set o1. op_fits p \<and> \<not> op_skipped T p" "bytes = aof_file_header c @ concat (map op_record o1)"
      "kv_apply_all o1 Map.empty = Some m"
    using assms(1) unfolding replays_to_def by blast
  obtain o2 where "\<forall>p \<in> set o2. op_fits p \<and> \<not> op_skipped T p" "diff = concat (map op_record o2)" "kv_apply_all o2 m = Some m'"
    using assms(2) unfolding catches_up_def by blast
  with o1 show ?thesis
    unfolding replays_to_def by (intro exI[of _ c] exI[of _ "o1 @ o2"]) (auto simp: kv_apply_all_append)
qed

section \<open>Stores made of C strings\<close>

definition wf_op :: "int \<Rightarrow> kv_op \<Rightarrow> bool" where
  "wf_op T p \<longleftrightarrow>
     wf_cstr (op_key p) \<and> wf_cstr (op_value p) \<and> i64_range (op_expire p) \<and> \<not> op_skipped T p"

definition kv_wf :: "int \<Rightarrow> kv \<Rightarrow> bool" where
  "kv_wf T m \<longleftrightarrow> (\<forall>k v t. m k = Some (v, t) \<longrightarrow>
     wf_cstr k \<and> wf_cstr v \<and> (case t of None \<Rightarrow> True | Some t \<Rightarrow> 0 < t \<and> T \<le> t \<and> i64_range t))"

lemma kv_wfD: "kv_wf T m \<Longrightarrow> m k = Some (v, t) \<Longrightarrow> wf_cstr k \<and> wf_cstr v \<and> (\<forall>d. t = Some d \<longrightarrow> 0 < d \<and> T \<le> d \<and> i64_range d)"
  by (fastforce simp: kv_wf_def split: option.splits)

lemma kv_wf_update:
  "kv_wf T m \<Longrightarrow> wf_cstr k \<Longrightarrow> wf_cstr v \<Longrightarrow> (\<forall>d. t = Some d \<longrightarrow> 0 < d \<and> T \<le> d \<and> i64_range d) \<Longrightarrow> kv_wf T (m(k \<mapsto> (v, t)))"
  unfolding kv_wf_def by (auto split: option.splits)

lemma kv_wf_deadline: "kv_wf T m \<Longrightarrow> kv_deadline m k = Some d \<Longrightarrow> 0 < d \<and> T \<le> d \<and> i64_range d"
  using kv_wfD[of T m k] by (auto simp: kv_deadline_def split: option.splits)

lemma kv_apply_wf:
  assumes "kv_wf T m" "wf_op T p" "kv_apply p m = Some m'"
  shows "kv_wf T m'"
proof (cases p)
  case (KSet k v)
  with assms kv_wf_deadline[OF assms(1)] show ?thesis by (auto simp: wf_op_def intro!: kv_wf_update)
next
  case (KDel k)
  with assms show ?thesis by (auto simp: kv_wf_def split: if_splits)
next
  case (KSetex k v t)
  with assms kv_wf_deadline[OF assms(1)] show ?thesis
    by (auto simp: wf_op_def op_skipped_def intro!: kv_wf_update split: if_splits)
next
  case (KExpire k t)
  with assms kv_wfD[OF assms(1), of k] show ?thesis
    by (auto simp: wf_op_def op_skipped_def intro!: kv_wf_update split: if_splits option.splits)
next
  case (KPersist k)
  with assms kv_wfD[OF assms(1), of k] show ?thesis
    by (auto simp: wf_op_def op_skipped_def intro!: kv_wf_update split: if_splits option.splits)
qed

lemma kv_wf_deadlines_pos: "db_inv db \<Longrightarrow> kv_wf T (db_abs db) \<Longrightarrow> deadlines_pos db"
  using kv_wf_deadline[of T "db_abs db"] by (auto simp: deadlines_pos_def kv_deadline_db)

text \<open>The records of a snapshot that fit the buffer are records of mutations.\<close>

lemma snap_ops_fit:
  assumes "db_inv db" "kv_wf T (db_abs db)" "es = concat (ht_table (db_keyspace db))"
    and "\<forall>p \<in> set (snap_ops clk db n es). op_room p"
  shows "\<forall>p \<in> set (snap_ops clk db n es). op_fits p \<and> \<not> op_skipped T p"
proof
  fix p assume p: "p \<in> set (snap_ops clk db n es)"
  have "set (snap_ops clk db n es') \<subseteq> snap_op db ` set es'" for es'
    by (induction es' arbitrary: n) (fastforce split: option.splits if_splits)+
  with p obtain e where e: "e \<in> set es" "p = snap_op db e" by blast
  note ht = db_invD(1)[OF assms(1)]
  have "ht_find (db_keyspace db) (fst e) = Some (snd e)"
    using e(1) map_of_is_SomeI[OF ht_entries_distinct[OF ht], of "fst e" "snd e"]
    by (simp add: assms(3) ht_find_map[OF ht] ht_map_def)
  then have "db_abs db (fst e) = Some (snd e, ht_find (db_expires db) (fst e))" by (simp add: db_abs_Some)
  from kv_wfD[OF assms(2) this] have "wf_op T p"
    by (auto simp: e(2) snap_op_def wf_op_def op_skipped_def i64_range_def split: option.split)
  with assms(4) p show "op_fits p \<and> \<not> op_skipped T p" by (simp add: op_fits_room_iff wf_op_def)
qed

section \<open>The steps\<close>

text \<open>
  A mutation that the keyspace accepts and whose record reaches the log whole (whatever
  \<open>aof_append\<close> then returns: the flush may have failed), one the keyspace refuses; a read and
  a sweep at a time at which nothing has expired, the clock, the outcomes the system has in
  store, the periodic flush, the start of a rewrite, the run of the child (before any deadline
  of its snapshot), its death and the periodic task of the rewrite.
\<close>

inductive durable_step :: "int \<Rightarrow> sv \<Rightarrow> sv \<Rightarrow> bool" where
  mutate: "wf_op T p \<Longrightarrow> length stack = AOF_RECORD_MAX \<Longrightarrow> db_run p (sdb s) = (db', EXIT_SUCCESS) \<Longrightarrow>
     aof_append stack (op_code p) (op_key p) (op_value p) (op_expire p) (s\<lparr>sdb := db'\<rparr>) = (rc, s') \<Longrightarrow>
     fd_bytes s (aof_fd s) = Some log \<Longrightarrow> fd_bytes s' (aof_fd s) = Some (log @ op_record p) \<Longrightarrow>
     durable_step T s s'"
| refuse: "db_run p (sdb s) = (db', EXIT_FAILURE) \<Longrightarrow> durable_step T s (s\<lparr>sdb := db'\<rparr>)"
| lookup: "now \<le> T \<Longrightarrow> db' \<in> {fst (db_get (sdb s) k now), fst (db_get_ttl (sdb s) k now)} \<Longrightarrow>
     durable_step T s (s\<lparr>sdb := db'\<rparr>)"
| sweep: "now \<le> T \<Longrightarrow> db_active_sweep stale draws (sdb s) n now = Some ((db', expired), rest) \<Longrightarrow>
     durable_step T s (s\<lparr>sdb := db'\<rparr>)"
| tick: "durable_step T s (s\<lparr>snow_ms := m, now_realtime_ms := r\<rparr>)"
| outcomes: "durable_step T s (s\<lparr>os_io := io, os_ok := ok, os_alloc := al\<rparr>)"
| flush: "durable_step T s (aof_cron s)"
| start: "aof_rewrite_state s = AOF_RW_IDLE \<Longrightarrow> durable_step T s (snd (aof_rewrite_start pid s))"
| child: "os_child s = Running db \<Longrightarrow> length stack = AOF_RECORD_MAX \<Longrightarrow>
     \<forall>n. clk n \<le> T \<Longrightarrow>
     child_finishes clk created stack s = Some s' \<Longrightarrow> durable_step T s s'"
| killed: "os_child s = Running db \<Longrightarrow> durable_step T s (s\<lparr>os_child := Signaled\<rparr>)"
| cron: "durable_step T s (aof_rewrite_cron pid s)"

inductive_cases durable_stepE: "durable_step T s s'"

section \<open>The invariant\<close>

definition files_inv :: "sv \<Rightarrow> bool" where
  "files_inv s \<longleftrightarrow>
     aof_temp_filename s \<noteq> cfg_aof_filename (config s) \<and> aof_fd s < os_next_fd s \<and> 0 \<le> os_next_fd s \<and>
     (\<forall>p i. os_path s p = Some i \<longrightarrow> i < os_next_ino s) \<and>
     (\<exists>li. os_fd s (aof_fd s) = Some li \<and> os_path s (cfg_aof_filename (config s)) = Some li \<and>
           os_path s (aof_temp_filename s) \<noteq> Some li)"

text \<open>The diff buffer leads from the child's snapshot to the keyspace.\<close>

definition diff_inv :: "int \<Rightarrow> sv \<Rightarrow> bool" where
  "diff_inv T s \<longleftrightarrow>
     (case os_child s of Running db \<Rightarrow> db_inv db \<and> kv_wf T (db_abs db) | _ \<Rightarrow> True) \<and>
     (case aof_rewrite_buf s of
        None \<Rightarrow> True
      | Some diff \<Rightarrow>
          (case os_child s of
             Running db \<Rightarrow> catches_up T diff (db_abs db) (db_abs (sdb s))
           | Exited code \<Rightarrow>
               code = 0 \<longrightarrow>
                 (\<exists>bytes m. file_at s (aof_temp_filename s) = Some bytes \<and> replays_to T bytes m \<and>
                    catches_up T diff m (db_abs (sdb s)))
           | _ \<Rightarrow> True))"

definition durable_inv :: "int \<Rightarrow> sv \<Rightarrow> bool" where
  "durable_inv T s \<longleftrightarrow>
     cfg_aof_enabled (config s) \<and> db_inv (sdb s) \<and> kv_wf T (db_abs (sdb s)) \<and> files_inv s \<and> rewrite_inv s \<and>
     (\<exists>bytes. fd_bytes s (aof_fd s) = Some bytes \<and> replays_to T bytes (db_abs (sdb s))) \<and> diff_inv T s"

lemma durable_invD:
  assumes "durable_inv T s"
  shows "cfg_aof_enabled (config s)" "db_inv (sdb s)" "kv_wf T (db_abs (sdb s))" "files_inv s" "rewrite_inv s"
    "diff_inv T s"
    "\<exists>bytes. fd_bytes s (aof_fd s) = Some bytes \<and> replays_to T bytes (db_abs (sdb s))"
  using assms by (simp_all add: durable_inv_def)

text \<open>The parts of the state the invariant looks at.\<close>

definition disk :: "sv \<Rightarrow> server_config_t \<times> cstr \<times> int \<times> int \<times> nat \<times> (cstr \<Rightarrow> nat option) \<times> (int \<Rightarrow> nat option) \<times> (nat \<Rightarrow> byte list)" where
  "disk s = (config s, aof_temp_filename s, aof_fd s, os_next_fd s, os_next_ino s, os_path s, os_fd s, os_inode s)"

lemma durable_inv_cong:
  assumes "durable_inv T s" "disk s' = disk s" "rewrite_view s' = rewrite_view s" "os_child s' = os_child s"
    and "db_inv (sdb s')" "db_abs (sdb s') = db_abs (sdb s)"
  shows "durable_inv T s'"
proof -
  have same: "config s' = config s" "aof_temp_filename s' = aof_temp_filename s" "aof_fd s' = aof_fd s"
    "os_next_fd s' = os_next_fd s" "os_next_ino s' = os_next_ino s" "os_path s' = os_path s" "os_fd s' = os_fd s"
    "os_inode s' = os_inode s" using assms(2) by (simp_all add: disk_def)
  have "files_inv s'" "file_at s' = file_at s" "fd_bytes s' (aof_fd s') = fd_bytes s (aof_fd s)"
    using durable_invD(4)[OF assms(1)] by (simp_all add: files_inv_def same file_at_def[abs_def] fd_bytes_def)
  with assms rewrite_inv_view[OF assms(3)] show ?thesis
    by (auto simp: durable_inv_def diff_inv_def disk_def rewrite_view_def split: option.splits child.splits)
qed

lemma core_disk: "core s' = core s \<Longrightarrow> os_inode s' = os_inode s \<Longrightarrow> disk s' = disk s"
  using core_proj[of s' s] by (simp add: disk_def)

section \<open>Every step keeps it\<close>

lemma mutate_keeps:
  assumes inv: "durable_inv T s" and wf: "wf_op T p" "length stack = AOF_RECORD_MAX"
    and run: "db_run p (sdb s) = (db', EXIT_SUCCESS)"
    and app: "aof_append stack (op_code p) (op_key p) (op_value p) (op_expire p) (s\<lparr>sdb := db'\<rparr>) = (rc, s')"
    and logged: "fd_bytes s (aof_fd s) = Some log" "fd_bytes s' (aof_fd s) = Some (log @ op_record p)"
  shows "durable_inv T s'"
proof -
  let ?s = "s\<lparr>sdb := db'\<rparr>"
  note i = durable_invD[OF inv]
  obtain li where li: "os_fd s (aof_fd s) = Some li" "os_path s (cfg_aof_filename (config s)) = Some li"
      "os_path s (aof_temp_filename s) \<noteq> Some li"
    using i(4) by (auto simp: files_inv_def)
  have w: "length stack = AOF_RECORD_MAX" "wf_cstr (op_key p)" "wf_cstr (op_value p)" "i64_range (op_expire p)"
    and due: "\<not> op_skipped T p" using wf by (simp_all add: wf_op_def)
  have en: "cfg_aof_enabled (config ?s)" "os_fd ?s (aof_fd ?s) = Some li" using i(1) li(1) by simp_all
  from aof_append_file[OF w en app] have core: "core s' = core ?s" by blast
  note c = core_proj[OF core]
  have whole: "os_inode s' li = os_inode ?s li @ op_record p" using logged li(1) c(4) by (simp add: fd_bytes_def)
  have fits: "op_fits p" using aof_append_logged(1)[OF w en app] whole by blast
  have ino: "os_inode s' = (os_inode s)(li := os_inode s li @ op_record p)"
    using aof_append_logged(3)[OF w en app whole] by simp
  have step: "kv_apply p (db_abs (sdb s)) = Some (db_abs db')" and dbi: "db_inv db'"
    using kvdb.run_status[OF i(2), of p] kvdb.run_ok[OF i(2), of p] kvdb.run_inv[OF i(2), of p] run by auto
  have "rewrite_inv ?s" using i(5) rewrite_inv_view[of ?s s] by simp
  from aof_append_diff[OF w en app this] whole
  have d: "rewrite_inv s'" "aof_rewrite_buf s' = None \<or> (\<exists>b. aof_rewrite_buf s = Some b \<and> aof_rewrite_buf s' = Some (b @ op_record p))"
    by (auto split: option.splits)
  have files: "files_inv s'" using i(4) c by (simp add: files_inv_def)
  have log: "\<exists>bytes. fd_bytes s' (aof_fd s') = Some bytes \<and> replays_to T bytes (db_abs db')"
    using i(7) li(1) c ino replays_to_catch_up[OF _ catches_up_one[OF fits due step]] by (auto simp: fd_bytes_def)
  have temp: "file_at s' (aof_temp_filename s') = file_at s (aof_temp_filename s)"
    using li(3) c ino by (auto simp: file_at_def split: option.split intro: option.map_cong)
  have "diff_inv T s'"
  proof (cases "aof_rewrite_buf s'")
    case (Some b')
    then obtain b where b: "aof_rewrite_buf s = Some b" "b' = b @ op_record p"
      using d(2) by auto
    show ?thesis
      using i(6) Some b c temp catches_up_trans[OF _ catches_up_one[OF fits due step]]
      by (simp add: diff_inv_def split: child.splits) blast+
  qed (use i(6) c in \<open>simp add: diff_inv_def split: child.splits\<close>)
  with files log d c dbi i(1) kv_apply_wf[OF i(3) wf(1) step] show ?thesis
    by (simp add: durable_inv_def)
qed

lemma start_keeps:
  assumes inv: "durable_inv T s"
  shows "durable_inv T (snd (aof_rewrite_start pid s))"
proof -
  note i = durable_invD[OF inv]
  have fail: "durable_inv T (aof_rewrite_record_failure s1)" if "durable_inv T s1" for s1
    using that by (rule durable_inv_cong)
      (use durable_invD(2)[OF that] in \<open>simp_all add: aof_rewrite_record_failure_def Let_def disk_def rewrite_view_def\<close>)
  have a: "durable_inv T (snd (sys_alloc s))"
    using inv by (rule durable_inv_cong)
      (use i(2) core_proj[OF sys_alloc_frame(1)] in \<open>simp_all add: disk_def\<close>)
  have k: "durable_inv T (snd (sys_ok (snd (sys_alloc s))))"
    using a by (rule durable_inv_cong)
      (use durable_invD(2)[OF a] core_proj[OF sys_ok_frame(1)] in \<open>simp_all add: disk_def\<close>)
  have "durable_inv T (s1\<lparr>os_child := Running (sdb s1), aof_rewrite_pid := pid, aof_rewrite_state := AOF_RW_ACTIVE,
      aof_rewrite_buf := Some [], aof_last_rewrite_start_ms := snow_ms s1\<rparr>)" if "durable_inv T s1" for s1
    using durable_invD[OF that]
    by (auto simp: durable_inv_def files_inv_def rewrite_inv_def diff_inv_def fd_bytes_def)
  with a k fail show ?thesis by (simp add: aof_rewrite_start_def Let_def split_beta)
qed


text \<open>The child writes a snapshot that replays to the store it was forked from.\<close>

lemma snapshot_replays:
  assumes db: "db_inv db" "kv_wf T (db_abs db)" and ops: "ops = snap_ops clk db 0 (concat (ht_table (db_keyspace db)))"
    and clk: "\<forall>n. clk n \<le> T" and room: "\<forall>p \<in> set ops. op_room p"
  shows "replays_to T (aof_file_header created @ concat (map op_record ops)) (db_abs db)"
proof -
  have pos: "deadlines_pos db" by (rule kv_wf_deadlines_pos[OF db])
  have "T \<le> t" if "ht_find (db_expires db) k = Some t" for k t
    using kv_wf_deadline[OF db(2), of k t] that by (simp add: kv_deadline_db[OF db(1)])
  then have "\<forall>k t n. ht_find (db_expires db) k = Some t \<longrightarrow> (t < clk n \<longleftrightarrow> t < 0)"
    using clk pos unfolding deadlines_pos_def by (meson leD order.trans less_asym)
  from snapshot_restores_live[OF db(1) pos this]
  have "kv_apply_all ops Map.empty = Some (kv_live 0 (db_abs db))" by (simp add: ops)
  moreover have "kv_live 0 (db_abs db) = db_abs db"
    using pos unfolding deadlines_pos_def
    by (fastforce simp: kv_live_db[OF db(1)] fun_eq_iff db_expired_def split: option.splits)
  ultimately show ?thesis
    unfolding replays_to_def
    by (intro exI[of _ created] exI[of _ ops]) (use snap_ops_fit[OF db refl] room in \<open>simp add: ops\<close>)
qed

lemma child_keeps:
  assumes inv: "durable_inv T s" and run: "os_child s = Running db" and stack: "length stack = AOF_RECORD_MAX"
    and clk: "\<forall>n. clk n \<le> T"
    and fin: "child_finishes clk created stack s = Some s'"
  shows "durable_inv T s'"
proof -
  note i = durable_invD[OF inv]
  have db: "db_inv db" "kv_wf T (db_abs db)" using i(6) run by (simp_all add: diff_inv_def)
  let ?ops = "snap_ops clk db 0 (concat (ht_table (db_keyspace db)))"
  have fds: "0 \<le> os_next_fd s" "\<forall>p i. os_path s p = Some i \<longrightarrow> i < os_next_ino s"
    using i(4) by (simp_all add: files_inv_def)
  obtain code t where t: "aof_rewrite_child clk created stack db s = Some (code, t)"
    "\<forall>i. i \<noteq> temp_inode s \<longrightarrow> os_inode t i = os_inode s i"
    "\<forall>p. p \<noteq> aof_temp_filename s \<longrightarrow> os_path t p = os_path s p"
    "os_path t (aof_temp_filename s) \<in> {None, Some (temp_inode s)}"
    "\<forall>p i. os_path t p = Some i \<longrightarrow> i < os_next_ino t" "os_next_ino s \<le> os_next_ino t"
    "code = 0 \<longrightarrow> file_at t (aof_temp_filename s) = Some (aof_file_header created @ concat (map op_record ?ops)) \<and>
       (\<forall>p \<in> set ?ops. op_room p)"
    using aof_rewrite_child_gen[OF db_invD(1)[OF db(1)] stack fds refl] by blast
  let ?s = "s\<lparr>os_inode := os_inode t, os_synced := os_synced t, os_path := os_path t, os_next_ino := os_next_ino t,
      os_io := os_io t, os_ok := os_ok t, os_child := Exited code\<rparr>"
  have s': "s' = ?s" using fin run t(1) by (simp add: child_finishes_def)
  obtain li where li: "os_fd s (aof_fd s) = Some li" "os_path s (cfg_aof_filename (config s)) = Some li"
      "os_path s (aof_temp_filename s) \<noteq> Some li" and names: "aof_temp_filename s \<noteq> cfg_aof_filename (config s)"
    using i(4) by (auto simp: files_inv_def)
  have "li < os_next_ino s" using fds(2) li(2) by blast
  then have ne: "temp_inode s \<noteq> li" using li(3) by (auto simp: temp_inode_def split: option.splits)
  have files: "files_inv ?s"
    using i(4) t(3-5) li ne names by (auto simp: files_inv_def)
  have log: "fd_bytes ?s (aof_fd ?s) = fd_bytes s (aof_fd s)"
    using t(2) li(1) ne by (simp add: fd_bytes_def)
  have rw: "rewrite_inv ?s" using i(5) rewrite_inv_view[of ?s s] by (simp add: rewrite_view_def)
  have "diff_inv T ?s"
  proof (cases "aof_rewrite_buf s")
    case (Some b)
    have "catches_up T b (db_abs db) (db_abs (sdb s))" using i(6) run Some by (simp add: diff_inv_def)
    moreover have "file_at ?s (aof_temp_filename ?s) = file_at t (aof_temp_filename s)" by (simp add: file_at_def)
    ultimately show ?thesis
      using Some t(7) snapshot_replays[OF db refl clk, of created] by (auto simp: diff_inv_def)
  qed (simp add: diff_inv_def)
  then show ?thesis
    unfolding s' durable_inv_def log using i files rw by simp
qed

text \<open>Giving a rewrite up: the temporary file is removed and the state machine is idle.\<close>

lemma cleanup_keeps:
  assumes inv: "durable_inv T s"
  shows "durable_inv T (aof_rewrite_cleanup (aof_rewrite_record_failure s))"
    and "os_child s = NoChild \<Longrightarrow> durable_inv T (aof_rewrite_cleanup (aof_rewrite_record_failure (sys_unlink (aof_temp_filename s) s)))"
proof -
  have *: "durable_inv T (aof_rewrite_cleanup (aof_rewrite_record_failure s))" if "durable_inv T s" for s
    using durable_invD[OF that]
    by (auto simp: durable_inv_def files_inv_def rewrite_inv_def diff_inv_def fd_bytes_def aof_rewrite_cleanup_def
        aof_rewrite_record_failure_def Let_def)
  show "durable_inv T (aof_rewrite_cleanup (aof_rewrite_record_failure s))" by (rule *[OF inv])
  assume child: "os_child s = NoChild"
  obtain b l where ok: "sys_ok s = (b, s\<lparr>os_ok := l\<rparr>)" by (rule sys_ok_shape)
  have "durable_inv T (sys_unlink (aof_temp_filename s) s)"
    using durable_invD[OF inv] child rewrite_inv_view[of "sys_unlink (aof_temp_filename s) s" s]
    by (auto simp: sys_unlink_def ok durable_inv_def files_inv_def diff_inv_def fd_bytes_def rewrite_view_def
        split: option.splits)
  then show "durable_inv T (aof_rewrite_cleanup (aof_rewrite_record_failure (sys_unlink (aof_temp_filename s) s)))"
    by (rule *)
qed

lemma finalize_keeps:
  assumes inv: "durable_inv T (s\<lparr>os_child := Exited 0\<rparr>)" and buf: "aof_rewrite_state s = AOF_RW_ACTIVE"
  shows "durable_inv T (aof_rewrite_finalize (s\<lparr>os_child := NoChild\<rparr>))"
proof -
  let ?s = "s\<lparr>os_child := NoChild\<rparr>"
  let ?f = "aof_rewrite_finalize ?s"
  note i = durable_invD[OF inv]
  obtain diff where diff: "aof_rewrite_buf s = Some diff"
    using i(5) buf by (auto simp: rewrite_inv_def split: option.splits)
  obtain bytes m where temp: "file_at s (aof_temp_filename s) = Some bytes" "replays_to T bytes m"
      "catches_up T diff m (db_abs (sdb s))"
    using i(6) diff by (auto simp: diff_inv_def file_at_def)
  then obtain ti where ti: "os_path s (aof_temp_filename s) = Some ti" "bytes = os_inode s ti"
    by (auto simp: file_at_def)
  obtain li where li: "os_fd s (aof_fd s) = Some li" "os_path s (cfg_aof_filename (config s)) = Some li"
      "ti \<noteq> li" and f: "aof_temp_filename s \<noteq> cfg_aof_filename (config s)" "aof_fd s < os_next_fd s"
      "0 \<le> os_next_fd s" "\<forall>p i. os_path s p = Some i \<longrightarrow> i < os_next_ino s"
    using i(4) ti(1) by (auto simp: files_inv_def)
  have at: "aof_rewrite_state ?f = AOF_RW_IDLE" "aof_rewrite_buf ?f = None" "kept_files ?s ?f"
    "log_view ?f = log_view ?s \<or>
       log_view ?f = (Some ti, Some ti, Some (bytes @ diff)) \<and> os_path ?f (aof_temp_filename s) = None"
    using aof_rewrite_finalize_atomic[of ?s li ti diff] f li ti diff by (auto simp: Let_def)
  have k: "config ?f = config s" "aof_temp_filename ?f = aof_temp_filename s" "sdb ?f = sdb s"
    "os_child ?f = NoChild" "os_next_ino ?f = os_next_ino s" "os_next_fd s \<le> os_next_fd ?f"
    "aof_fd ?f < os_next_fd ?f" "ran (os_path ?f) \<subseteq> ran (os_path s)"
    "os_path ?f (aof_temp_filename s) \<in> {None, Some ti}"
    using at(3) ti(1) by (simp_all add: kept_files_def)
  have paths: "\<forall>p i. os_path ?f p = Some i \<longrightarrow> i < os_next_ino ?f"
    using k(5,8) f(4) by (fastforce simp: ran_def)
  have log: "\<exists>li. os_fd ?f (aof_fd ?f) = Some li \<and> os_path ?f (cfg_aof_filename (config s)) = Some li \<and>
      os_path ?f (aof_temp_filename s) \<noteq> Some li"
    using at(4) li k(1,9) by (auto simp: log_view_def)
  have "fd_bytes ?f (aof_fd ?f) = Some (bytes @ diff) \<or> fd_bytes ?f (aof_fd ?f) = fd_bytes s (aof_fd s)"
    using at(4) by (auto simp: log_view_def fd_bytes_def)
  then have "\<exists>bytes. fd_bytes ?f (aof_fd ?f) = Some bytes \<and> replays_to T bytes (db_abs (sdb s))"
    using i(7) replays_to_catch_up[OF temp(2,3)] by (auto simp: fd_bytes_def)
  with i(1-3) f(1,3) k paths log at show ?thesis
    by (auto simp: durable_inv_def files_inv_def rewrite_inv_def diff_inv_def)
qed


lemma cron_keeps:
  assumes inv: "durable_inv T s"
  shows "durable_inv T (aof_rewrite_cron pid s)"
proof -
  have last: "durable_inv T (s\<lparr>last_check_ms := l\<rparr>)" for l
    using inv by (rule durable_inv_cong) (use durable_invD(2)[OF inv] in \<open>simp_all add: disk_def rewrite_view_def\<close>)
  have reap: "durable_inv T (s1\<lparr>os_child := NoChild\<rparr>)" if "durable_inv T s1" for s1
    using durable_invD[OF that] rewrite_inv_view[of "s1\<lparr>os_child := NoChild\<rparr>" s1]
    by (auto simp: durable_inv_def files_inv_def diff_inv_def fd_bytes_def rewrite_view_def split: option.splits)
  have give_up: "durable_inv T (aof_rewrite_cleanup (aof_rewrite_record_failure
      (sys_unlink (aof_temp_filename s1) (s1\<lparr>os_child := NoChild\<rparr>))))" if "durable_inv T s1" for s1
    using cleanup_keeps(2)[OF reap[OF that]] by simp
  have fin: "durable_inv T (aof_rewrite_finalize (s1\<lparr>os_child := NoChild\<rparr>))"
    if "durable_inv T s1" "os_child s1 = Exited 0" "aof_rewrite_state s1 = AOF_RW_ACTIVE" for s1
  proof -
    have "s1\<lparr>os_child := Exited 0\<rparr> = s1" using that(2) by (cases s1) simp
    from finalize_keeps[of T s1, unfolded this, OF that(1,3)] show ?thesis .
  qed
  have busy: "aof_rewrite_state s1 = AOF_RW_ACTIVE"
    if "aof_rewrite_state s1 \<noteq> AOF_RW_IDLE" "aof_rewrite_state s1 \<noteq> AOF_RW_ABORTING" for s1 :: sv
    using that by (cases "aof_rewrite_state s1") simp_all
  show ?thesis
    unfolding aof_rewrite_cron_def Let_def split_beta
    using inv last start_keeps[OF last] cleanup_keeps(1)[OF last] give_up[OF last] fin[OF last] busy
    by (simp split: child.split option.split)
qed

lemma durable_inv_unexpired:
  assumes "durable_inv T s" "now \<le> T"
  shows "\<not> db_expired (sdb s) now k"
  using kv_wf_deadline[OF durable_invD(3)[OF assms(1)], of k] durable_invD(2)[OF assms(1)] assms(2)
  by (fastforce simp: db_expired_deadline)

lemma durable_step_inv:
  assumes "durable_step T s s'" "durable_inv T s"
  shows "durable_inv T s'"
  using assms
proof cases
  case (mutate p stack db' rc log)
  with assms(2) show ?thesis by (blast intro: mutate_keeps)
next
  case (child db stack clk created)
  with assms(2) show ?thesis by (blast intro: child_keeps)
next
  case (killed db)
  with durable_invD[OF assms(2)] rewrite_inv_view[of s' s] show ?thesis
    by (auto simp: durable_inv_def files_inv_def diff_inv_def fd_bytes_def rewrite_view_def split: option.splits)
next
  case (refuse p db')
  note dbi = durable_invD(2)[OF assms(2)]
  have "kv_apply p (db_abs (sdb s)) = None" using kvdb.run_status[OF dbi, of p] refuse(2) by auto
  with kvdb.run_refused[OF dbi, of p] kvdb.run_inv[OF dbi, of p] refuse show ?thesis
    by (auto intro!: durable_inv_cong[OF assms(2)] simp: disk_def)
next
  case (lookup now db' k)
  have "db' = sdb s"
    using lookup(3) durable_inv_unexpired[OF assms(2) lookup(2), of k]
    by (auto simp: db_get_fst db_get_ttl_fst db_expire_clean_cases)
  with lookup(1) assms(2) show ?thesis by simp
next
  case (sweep now stale draws n db' expired rest)
  have "db' = sdb s"
    by (rule sweep_idle[OF _ sweep(3)]) (use durable_inv_unexpired[OF assms(2) sweep(2)] in simp)
  with sweep(1) assms(2) show ?thesis by simp
next
  case (flush)
  then have "core s' = core s" "os_inode s' = os_inode s" "rewrite_view s' = rewrite_view s" by simp_all
  from core_disk[OF this(1,2)] this(3) core_proj(11)[OF this(1)] core_proj(2)[OF this(1)] show ?thesis
    by (intro durable_inv_cong[OF assms(2)]) (simp_all add: durable_invD(2)[OF assms(2)])
next
  case (tick m r)
  then show ?thesis
    by (intro durable_inv_cong[OF assms(2)])
      (simp_all add: disk_def rewrite_view_def durable_invD(2)[OF assms(2)])
next
  case (outcomes io ok al)
  then show ?thesis
    by (intro durable_inv_cong[OF assms(2)]) (simp_all add: disk_def durable_invD(2)[OF assms(2)])
next
  case (start pid)
  then show ?thesis using start_keeps[OF assms(2)] by simp
next
  case (cron pid)
  then show ?thesis using cron_keeps[OF assms(2)] by simp
qed

interpretation dur: machine "durable_step T" "durable_inv T" for T
  by unfold_locales (rule durable_step_inv)


section \<open>What a restart finds\<close>

lemma kept_all: "\<forall>p \<in> set ops. \<not> op_skipped T p \<Longrightarrow> \<forall>n. clk n \<le> T \<Longrightarrow> kept clk n ops = ops"
proof (induction ops arbitrary: n)
  case (Cons p ops)
  then have "\<not> op_skipped (clk n) p" unfolding op_skipped_def by (metis less_le_trans list.set_intros(1))
  with Cons show ?case by simp
qed simp

lemma replays_to_load:
  assumes "replays_to T bytes m" "load_works le" "\<forall>n. le_clk le n \<le> T"
  shows "\<exists>r. aof_load le (Some bytes) (db_create seed) = Some r \<and> lr_rc r = 0 \<and> db_inv (lr_db r) \<and>
           db_abs (lr_db r) = m \<and> lr_file r = Some bytes \<and> lr_quarantine r = None"
proof -
  obtain c ops where ops: "\<forall>p \<in> set ops. op_fits p \<and> \<not> op_skipped T p"
      "bytes = aof_file_header c @ concat (map op_record ops)" "kv_apply_all ops Map.empty = Some m"
    using assms(1) unfolding replays_to_def by blast
  have fit: "\<forall>p \<in> set ops. op_fits p" using ops(1) by blast
  have run: "kv_apply_all (kept (le_clk le) 0 ops) (db_abs (db_create seed)) = Some m"
    using ops(1,3) kept_all[OF _ assms(3)] by (simp add: db_create_abs)
  have "length (op_record (KDel [])) = 27" by (simp add: op_record_def length_aof_record)
  then have "strict_prefix [] (op_record (KDel []))" by (auto simp: strict_prefix_def)
  then have "stops_at le [] (length ops) m"
    by (rule stops_at_torn[rotated]) (simp add: op_fits_def aof_sizes wf_cstr_def i64_range_def)
  from aof_load_upto[OF assms(2) db_create_inv fit run this ops(2)] show ?thesis by auto
qed

text \<open>The file under the log's path in a state of the invariant.\<close>

lemma durable_inv_file:
  assumes "durable_inv T s"
  shows "\<exists>bytes. file_at s (cfg_aof_filename (config s)) = Some bytes \<and> replays_to T bytes (db_abs (sdb s))"
  using durable_invD(4,7)[OF assms] by (auto simp: files_inv_def file_at_def fd_bytes_def)

section \<open>Properties\<close>

text \<open>C1: Take any interleaving of mutations the keyspace accepts and whose record reaches the log
  whole, also when the flush behind it fails (no allocation of them fails), of refused mutations,
  reads and sweeps, flushes and the steps of log rewrites, whichever calls of a rewrite fail,
  with \<open>T\<close> a time before every deadline that is set: reads and sweeps happen and the child reads
  the clock at \<open>T\<close> or earlier, so nothing expires. Then the file under the log's path stands for
  the keyspace: a server that loads it at \<open>T\<close> or earlier, with no failing call of its own, has
  exactly the keys, values and deadlines of the one that stopped, and quarantines nothing.\<close>

theorem log_restores_keyspace:
  assumes "durable_inv T s" "(durable_step T)\<^sup>*\<^sup>* s s'" "load_works le" "\<forall>n. le_clk le n \<le> T"
  shows "\<exists>log r. file_at s' (cfg_aof_filename (config s')) = Some log \<and>
           aof_load le (Some log) (db_create seed) = Some r \<and> lr_rc r = 0 \<and> db_inv (lr_db r) \<and>
           db_abs (lr_db r) = db_abs (sdb s') \<and> lr_file r = Some log \<and> lr_quarantine r = None"
  using durable_inv_file[OF dur.reachable_inv[OF assms(2,1)]] replays_to_load[OF _ assms(3,4)]
  by blast

text \<open>A server that has created its log.\<close>

definition fresh_log :: sv where
  "fresh_log = open_log\<lparr>os_inode := (\<lambda>_. aof_file_header 5), aof_temp_filename := lit ''t''\<rparr>"

lemma fresh_log_inv: "durable_inv T fresh_log"
proof -
  have "replays_to T (aof_file_header 5) (db_abs (db_create 0))"
    unfolding replays_to_def by (intro exI[of _ 5] exI[of _ "[]"]) (simp add: db_create_abs)
  moreover have "kv_wf T (db_abs (db_create 0))" by (simp add: db_create_abs kv_wf_def)
  ultimately show ?thesis
    by (simp add: durable_inv_def files_inv_def rewrite_inv_def diff_inv_def fd_bytes_def fresh_log_def open_log_def
        server_zero_def init_server_config_def db_create_inv lit_def)
qed

theorem log_restores_keyspace_witness:
  "let (db, rc) = db_set True (sdb fresh_log) (lit ''k'') (lit ''v'');
       s = snd (aof_append (replicate AOF_RECORD_MAX 0) AOF_OP_SET (lit ''k'') (lit ''v'') 0 (fresh_log\<lparr>sdb := db\<rparr>)) in
   \<exists>log r. file_at s (cfg_aof_filename (config s)) = Some log \<and> aof_load (quiet_load 9) (Some log) (db_create 1) = Some r \<and>
     db_abs (lr_db r) = [lit ''k'' \<mapsto> (lit ''v'', None)]"
proof -
  let ?p = "KSet (lit ''k'') (lit ''v'')" and ?stack = "replicate AOF_RECORD_MAX (0 :: byte)"
  let ?db = "fst (db_run ?p (sdb fresh_log))"
  note i = durable_invD[OF fresh_log_inv[of 9]]
  have ab: "db_abs (sdb fresh_log) = Map.empty"
    by (simp add: fresh_log_def open_log_def server_zero_def db_create_abs)
  have run: "db_run ?p (sdb fresh_log) = (?db, EXIT_SUCCESS)"
    using kvdb.run_status[OF i(2), of ?p] by (cases "db_run ?p (sdb fresh_log)") simp
  have abs: "db_abs ?db = [lit ''k'' \<mapsto> (lit ''v'', None)]"
    using kvdb.run_ok[OF i(2), of ?p] by (simp add: ab kv_deadline_def)
  let ?s = "fresh_log\<lparr>sdb := ?db\<rparr>"
  let ?r = "aof_append ?stack (op_code ?p) (op_key ?p) (op_value ?p) (op_expire ?p) ?s"
  have "fst ?r = EXIT_SUCCESS"
    by (rule aof_append_succeeds[of _ _ _ 0])
      (simp_all add: op_k_fits(3) fresh_log_def open_log_def server_zero_def init_server_config_def)
  then have app: "?r = (EXIT_SUCCESS, snd ?r)" by (cases ?r) simp
  have wf: "wf_op 9 ?p" using op_k_fits(3) by (simp add: wf_op_def op_fits_def op_skipped_def)
  have st: "cfg_aof_enabled (config ?s)" "os_fd ?s (aof_fd ?s) = Some 0"
    by (simp_all add: fresh_log_def open_log_def server_zero_def init_server_config_def)
  have w: "length ?stack = AOF_RECORD_MAX" "wf_cstr (op_key ?p)" "wf_cstr (op_value ?p)" "i64_range (op_expire ?p)"
    using wf by (simp_all add: wf_op_def)
  have core: "core (snd ?r) = core ?s" using aof_append_file[OF w st app] by blast
  have logged: "fd_bytes fresh_log (aof_fd fresh_log) = Some (os_inode ?s 0)"
      "fd_bytes (snd ?r) (aof_fd fresh_log) = Some (os_inode ?s 0 @ op_record ?p)"
    using st(2) aof_append_logged(2)[OF w st app refl] core_proj(4)[OF core] by (simp_all add: fd_bytes_def)
  have "sdb (snd ?r) = ?db" using core_proj(2)[OF core] by simp
  moreover have step: "(durable_step 9)\<^sup>*\<^sup>* fresh_log (snd ?r)"
    by (rule r_into_rtranclp, rule durable_step.mutate[OF wf _ run app logged]) simp
  ultimately show ?thesis
    using log_restores_keyspace[OF fresh_log_inv _ quiet_load_works, of 9 "snd ?r" 9 1] abs run
    by (auto simp: quiet_load_def split_beta Let_def)
qed

end
