(* ===== verification/Clib.thy ===== *)
theory Clib
  imports Prelude
begin

text \<open>
  What the program uses of the C library's text functions: \<open>isspace\<close>, \<open>strcasecmp\<close>,
  \<open>strtol\<close> and \<open>strtoll\<close> in base ten (both work on 64 bits), \<open>fgets\<close>, the \<open>%255s\<close>
  conversion of \<open>sscanf\<close>, and the decimal conversions of \<open>printf\<close>, in the C locale.
\<close>

section \<open>Characters\<close>

definition isspace :: "byte \<Rightarrow> bool" where
  "isspace b \<longleftrightarrow> b = 32 \<or> 9 \<le> b \<and> b \<le> 13"

definition isdigit :: "byte \<Rightarrow> bool" where
  "isdigit b \<longleftrightarrow> 48 \<le> b \<and> b \<le> 57"

definition tolower :: "byte \<Rightarrow> byte" where
  "tolower b = (if 65 \<le> b \<and> b \<le> 90 then b + 32 else b)"

text \<open>Whether \<open>strcasecmp\<close> returns 0.\<close>

definition strcaseeq :: "cstr \<Rightarrow> cstr \<Rightarrow> bool" where
  "strcaseeq a b \<longleftrightarrow> map tolower a = map tolower b"

section \<open>Numbers\<close>

definition digits_val :: "byte list \<Rightarrow> nat" where
  "digits_val ds = foldl (\<lambda>a d. a * 10 + (unat d - 48)) 0 ds"

text \<open>\<open>strtol\<close> and \<open>strtoll\<close> with base 10: the value, the string \<open>*endptr\<close> points to and
  whether \<open>errno\<close> became \<open>ERANGE\<close>. Without a digit nothing is consumed; a value outside
  the type is replaced by the nearest one inside.\<close>

definition strtol10 :: "cstr \<Rightarrow> int \<times> cstr \<times> bool" where
  "strtol10 s =
     (let t = dropWhile isspace s;
          neg = (t \<noteq> [] \<and> hd t = 45);
          u = (if t \<noteq> [] \<and> (hd t = 43 \<or> hd t = 45) then tl t else t);
          ds = takeWhile isdigit u;
          v = (if neg then - int (digits_val ds) else int (digits_val ds)) in
      if ds = [] then (0, s, False)
      else if v < - (2 ^ 63) then (- (2 ^ 63), drop (length ds) u, True)
      else if 2 ^ 63 - 1 < v then (2 ^ 63 - 1, drop (length ds) u, True)
      else (v, drop (length ds) u, False))"

text \<open>\<open>%d\<close>, \<open>%ld\<close>, \<open>%lld\<close> and \<open>%zu\<close>.\<close>

fun dec_nat :: "nat \<Rightarrow> byte list" where
  "dec_nat n = (if n < 10 then [of_nat (48 + n)] else dec_nat (n div 10) @ [of_nat (48 + n mod 10)])"

declare dec_nat.simps [simp del]

definition dec_int :: "int \<Rightarrow> byte list" where
  "dec_int x = (if x < 0 then 45 # dec_nat (nat (- x)) else dec_nat (nat x))"

section \<open>Input\<close>

text \<open>\<open>fgets\<close> with a buffer of \<open>sz\<close> bytes: the bytes stored in front of the terminating NUL
  and what is left of the file; \<open>None\<close> at its end.\<close>

definition fgets :: "nat \<Rightarrow> byte list \<Rightarrow> (byte list \<times> byte list) option" where
  "fgets sz data =
     (if data = [] then None
      else
        (let upto = takeWhile (\<lambda>b. b \<noteq> 10) data;
             line = take (sz - 1) (if length upto < length data then upto @ [10] else upto) in
         Some (line, drop (length line) data)))"

text \<open>One \<open>%255s\<close>: white space is skipped, then at most 255 other characters are taken;
  \<open>None\<close> when there is none.\<close>

definition scan_s :: "cstr \<Rightarrow> (cstr \<times> cstr) option" where
  "scan_s s =
     (let t = dropWhile isspace s; tok = take 255 (takeWhile (\<lambda>b. \<not> isspace b) t) in
      if tok = [] then None else Some (tok, drop (length tok) t))"

section \<open>Lemmas\<close>

lemma isspace_digit: "isdigit b \<Longrightarrow> \<not> isspace b \<and> b \<noteq> 0 \<and> b \<noteq> 43 \<and> b \<noteq> 45"
  by (auto simp: isdigit_def isspace_def word_le_nat_alt)

lemma byte_digit:
  assumes "n < 10"
  shows "isdigit (of_nat (48 + n))" "unat (of_nat (48 + n) :: byte) = 48 + n"
proof -
  show u: "unat (of_nat (48 + n) :: byte) = 48 + n"
    using assms by (simp add: unat_of_nat del: of_nat_add)
  with assms show "isdigit (of_nat (48 + n))" by (simp add: isdigit_def word_le_nat_alt)
qed

lemma dec_nat_digits: "\<forall>b \<in> set (dec_nat n). isdigit b"
proof (induction n rule: dec_nat.induct)
  case (1 n)
  then show ?case by (subst dec_nat.simps) (auto simp: byte_digit(1) simp del: of_nat_add)
qed

lemma dec_nat_nonempty [simp]: "dec_nat n \<noteq> []"
  by (subst dec_nat.simps) simp

lemma digits_val_snoc: "digits_val (ds @ [d]) = digits_val ds * 10 + (unat d - 48)"
  by (simp add: digits_val_def)

lemma digits_val_dec [simp]: "digits_val (dec_nat n) = n"
proof (induction n rule: dec_nat.induct)
  case (1 n)
  show ?case
  proof (cases "n < 10")
    case True
    then show ?thesis
      using byte_digit(2)[of n] by (subst dec_nat.simps) (simp add: digits_val_def del: of_nat_add)
  next
    case False
    then show ?thesis
      using 1 byte_digit(2)[of "n mod 10"]
      by (subst dec_nat.simps) (simp add: digits_val_snoc del: of_nat_add)
  qed
qed

lemma dec_nat_takeWhile [simp]: "takeWhile isdigit (dec_nat n) = dec_nat n"
  using dec_nat_digits by (simp add: takeWhile_eq_all_conv)

lemma dec_nat_hd: "isdigit (hd (dec_nat n))"
  using dec_nat_digits hd_in_set[OF dec_nat_nonempty] by blast

lemma dec_nat_dropWhile [simp]: "dropWhile isspace (dec_nat n) = dec_nat n"
  using isspace_digit[OF dec_nat_hd[of n]] by (cases "dec_nat n") simp_all

text \<open>What \<open>printf\<close> writes, \<open>strtol\<close> reads back.\<close>

lemma strtol10_dec: "i64_range x \<Longrightarrow> strtol10 (dec_int x) = (x, [], False)"
  using isspace_digit[OF dec_nat_hd[of "nat x"]]
  by (auto simp: strtol10_def Let_def dec_int_def i64_range_def isspace_def)

lemma dec_int_chars: "\<forall>b \<in> set (dec_int x). \<not> isspace b \<and> b \<noteq> 0"
  using dec_nat_digits isspace_digit by (auto simp: dec_int_def isspace_def)

lemma dec_int_nonempty [simp]: "dec_int x \<noteq> []"
  by (simp add: dec_int_def)

lemma length_dec_nat: "0 < k \<Longrightarrow> n < 10 ^ k \<Longrightarrow> length (dec_nat n) \<le> k"
proof (induction n arbitrary: k rule: dec_nat.induct)
  case (1 n)
  show ?case
  proof (cases "n < 10")
    case True
    then show ?thesis using 1(2) by (subst dec_nat.simps) simp
  next
    case False
    then have "k \<noteq> 1" using 1(3) by auto
    then obtain j where k: "k = Suc j" "0 < j" using 1(2) by (cases k) auto
    then have "n div 10 < 10 ^ j" using 1(3) by (simp add: less_mult_imp_div_less mult.commute)
    with 1(1)[OF False k(2)] k False show ?thesis by (subst dec_nat.simps) simp
  qed
qed

lemma length_dec_int: "i64_range x \<Longrightarrow> length (dec_int x) \<le> 20"
  using length_dec_nat[of 19 "nat x"] length_dec_nat[of 19 "nat (- x)"]
  by (cases "x < 0") (simp_all add: dec_int_def i64_range_def nat_less_iff)

text \<open>Lines of a file.\<close>

lemma fgets_line:
  assumes "10 \<notin> set l" "length l + 1 < sz"
  shows "fgets sz (l @ 10 # rest) = Some (l @ [10], rest)"
proof -
  have "takeWhile (\<lambda>b. b \<noteq> 10) (l @ 10 # rest) = l"
    using assms(1) by (induction l) auto
  then show ?thesis using assms(2) by (simp add: fgets_def Let_def)
qed

lemma fgets_shrinks: "fgets sz data = Some (l, rest) \<Longrightarrow> 2 \<le> sz \<Longrightarrow> length rest < length data"
  by (auto simp: fgets_def Let_def split: if_splits)
    (auto simp: takeWhile_eq_Nil_iff neq_Nil_conv split: if_splits)

text \<open>A word followed by white space or the end.\<close>

lemma takeWhile_word:
  "\<forall>b \<in> set w. \<not> isspace b \<Longrightarrow> rest = [] \<or> isspace (hd rest) \<Longrightarrow>
   takeWhile (\<lambda>b. \<not> isspace b) (w @ rest) = w"
  by (induction w) (cases rest; auto)+

lemma scan_s_word:
  assumes "\<forall>b \<in> set w. \<not> isspace b" "w \<noteq> []" "length w \<le> 255" "rest = [] \<or> isspace (hd rest)"
  shows "scan_s (w @ rest) = Some (w, rest)" "scan_s (32 # w @ rest) = Some (w, rest)"
proof -
  have d: "dropWhile isspace (w @ rest) = w @ rest" using assms(1,2) by (cases w) auto
  moreover have "dropWhile isspace (32 # w @ rest) = w @ rest" using d by (simp add: isspace_def)
  ultimately show "scan_s (w @ rest) = Some (w, rest)" "scan_s (32 # w @ rest) = Some (w, rest)"
    using takeWhile_word[OF assms(1,4)] assms(2,3) by (simp_all add: scan_s_def Let_def)
qed

end
