(* ===== verification/Command.thy ===== *)
theory Command
  imports Durability Clib "HOL-Library.Monad_Syntax"
begin

text \<open>
  The command layer (\<open>command.c\<close>): responses in a bounded buffer, the tokenizer, the command
  table and the handlers.

  A response buffer is the list of the bytes it holds, with its capacity. What a handler is
  given besides the state are the arguments, what the record buffer of \<open>aof_append\<close> holds on
  entry and the process id a \<open>fork\<close> would return. Handlers are partial: reading past the
  arguments has no value. \<open>seconds * 1000\<close> and the sum with the clock wrap around where they
  leave \<open>int64_t\<close>.
\<close>

section \<open>Responses\<close>

record respbuf =
  rb_cap :: nat
  rb_buf :: "byte list"

definition resp_add :: "respbuf \<Rightarrow> cstr \<Rightarrow> respbuf" where
  "resp_add r s =
     (let slen = length s; avail = rb_cap r - length (rb_buf r);
          slen = (if avail < slen then avail else slen) in
      r\<lparr>rb_buf := rb_buf r @ take slen s\<rparr>)"

text \<open>\<open>resp_addf\<close>; \<open>text\<close> is what the format and its arguments expand to. \<open>vsnprintf\<close> keeps
  room for a NUL, so at most \<open>avail - 1\<close> characters are stored.\<close>

definition resp_addf :: "respbuf \<Rightarrow> cstr \<Rightarrow> respbuf" where
  "resp_addf r text =
     (let avail = rb_cap r - length (rb_buf r) in
      if avail = 0 then r
      else
        (let n = length text in
         if 0 < n then r\<lparr>rb_buf := rb_buf r @ take (if avail \<le> n then avail - 1 else n) text\<rparr> else r))"

section \<open>Arguments\<close>

definition parse_seconds :: "cstr \<Rightarrow> int option" where
  "parse_seconds s =
     (let (seconds, endp, _) = strtol10 s in
      if endp = s \<or> endp \<noteq> [] \<or> seconds \<le> 0 then None else Some seconds)"

text \<open>\<open>argv[i]\<close>, for an index the tokenizer has filled.\<close>

definition arg :: "cstr list \<Rightarrow> nat \<Rightarrow> cstr option" where
  "arg argv i = (if i < length argv then Some (argv ! i) else None)"

section \<open>Handlers\<close>

record cmd_env =
  xe_stack :: "byte list"
  xe_pid :: int

type_synonym handler = "cmd_env \<Rightarrow> cstr list \<Rightarrow> respbuf \<Rightarrow> sv \<Rightarrow> (respbuf \<times> sv) option"

definition nl :: "byte list" where "nl = [10]"

definition cmd_get :: handler where
  "cmd_get xe argv r s =
     do {
       key \<leftarrow> arg argv 1;
       let (db, val) = db_get (sdb s) key (now_realtime_ms s);
       let s = s\<lparr>sdb := db\<rparr>;
       case val of
         None \<Rightarrow> Some (resp_add r (lit ''-ERR key not found'' @ nl), s)
       | Some v \<Rightarrow> Some (resp_addf r (lit ''+'' @ v @ nl), s)
     }"

definition cmd_ttl :: handler where
  "cmd_ttl xe argv r s =
     do {
       key \<leftarrow> arg argv 1;
       let (db, ttl) = db_get_ttl (sdb s) key (now_realtime_ms s);
       let s = s\<lparr>sdb := db\<rparr>;
       if ttl = -2 then Some (resp_add r (lit ''-ERR key not found'' @ nl), s)
       else if ttl = -1 then Some (resp_add r (lit ''-ERR key does not have TTL'' @ nl), s)
       else Some (resp_addf r (lit ''+ Key - '' @ key @ nl @ lit ''TTL = '' @ dec_int ttl @ nl), s)
     }"

definition cmd_set :: handler where
  "cmd_set xe argv r s =
     do {
       key \<leftarrow> arg argv 1;
       val \<leftarrow> arg argv 2;
       let (ok, s) = sys_alloc s;
       let (db, rc) = db_set ok (sdb s) key val;
       let s = s\<lparr>sdb := db\<rparr>;
       if rc = EXIT_FAILURE then Some (resp_add r (lit ''-ERR SET COMMAND'' @ nl), s)
       else do {
         let (_, s) = aof_append (xe_stack xe) AOF_OP_SET key val 0 s;
         Some (resp_add r (lit ''+OK'' @ nl), s)
       }
     }"

definition cmd_setex :: handler where
  "cmd_setex xe argv r s =
     do {
       key \<leftarrow> arg argv 1;
       ttl_str \<leftarrow> arg argv 2;
       val \<leftarrow> arg argv 3;
       case parse_seconds ttl_str of
         None \<Rightarrow> Some (resp_add r (lit ''-ERR invalid expire time'' @ nl), s)
       | Some seconds \<Rightarrow> do {
           let expire_at = wrap64 (now_realtime_ms s + wrap64 (seconds * 1000));
           let (ok1, s) = sys_alloc s;
           let (ok2, s) = sys_alloc s;
           let (db, rc) = db_setex ok1 ok2 (sdb s) key val expire_at;
           let s = s\<lparr>sdb := db\<rparr>;
           if rc = EXIT_FAILURE then Some (resp_add r (lit ''-ERR SETEX COMMAND'' @ nl), s)
           else do {
             let (_, s) = aof_append (xe_stack xe) AOF_OP_SETEX key val expire_at s;
             Some (resp_add r (lit ''+OK'' @ nl), s)
           }
         }
     }"

definition cmd_expire :: handler where
  "cmd_expire xe argv r s =
     do {
       key \<leftarrow> arg argv 1;
       ttl_str \<leftarrow> arg argv 2;
       case parse_seconds ttl_str of
         None \<Rightarrow> Some (resp_add r (lit ''-ERR invalid expire time'' @ nl), s)
       | Some seconds \<Rightarrow> do {
           let expire_at = wrap64 (now_realtime_ms s + wrap64 (seconds * 1000));
           let (ok, s) = sys_alloc s;
           let (db, rc) = db_key_expire ok (sdb s) key expire_at;
           let s = s\<lparr>sdb := db\<rparr>;
           if rc = EXIT_FAILURE then Some (resp_add r (lit ''-ERR EXPIRE COMMAND'' @ nl), s)
           else do {
             let (_, s) = aof_append (xe_stack xe) AOF_OP_EXPIRE key [] expire_at s;
             Some (resp_add r (lit ''+OK'' @ nl), s)
           }
         }
     }"

definition cmd_persist :: handler where
  "cmd_persist xe argv r s =
     do {
       key \<leftarrow> arg argv 1;
       let (db, rc) = db_persist (sdb s) key;
       let s = s\<lparr>sdb := db\<rparr>;
       if rc = EXIT_FAILURE then Some (resp_add r (lit ''-ERR PERSIST COMMAND'' @ nl), s)
       else do {
         let (_, s) = aof_append (xe_stack xe) AOF_OP_PERSIST key [] 0 s;
         Some (resp_add r (lit ''+OK'' @ nl), s)
       }
     }"

definition cmd_del :: handler where
  "cmd_del xe argv r s =
     do {
       key \<leftarrow> arg argv 1;
       let (db, rc) = db_del (sdb s) key;
       let s = s\<lparr>sdb := db\<rparr>;
       if rc = EXIT_FAILURE then Some (resp_add r (lit ''-ERR DEL COMMAND'' @ nl), s)
       else do {
         let (_, s) = aof_append (xe_stack xe) AOF_OP_DEL key [] 0 s;
         Some (resp_add r (lit ''+OK'' @ nl), s)
       }
     }"

text \<open>The loop body of \<open>cmd_keys\<close>.\<close>

definition keys_entry :: "cstr ht_entry \<Rightarrow> respbuf \<times> nat \<Rightarrow> respbuf \<times> nat" where
  "keys_entry entry st =
     (case st of (r, count) \<Rightarrow>
        (resp_addf r (dec_nat (count + 1) @ lit '') '' @ fst entry @ nl), count + 1))"

definition cmd_keys :: handler where
  "cmd_keys xe argv r s =
     do {
       (r, count) \<leftarrow> ht_iter_loop keys_entry (ht_iter_create (db_keyspace (sdb s))) (r, 0);
       Some (r, s)
     }"

definition cmd_info :: handler where
  "cmd_info xe argv r s =
     (let uptime_s = wrap64 (snow_ms s - db_start_ms (sdb s)) sdiv 1000;
          rewrite_state =
            (case aof_rewrite_state s of
               AOF_RW_IDLE \<Rightarrow> lit ''idle'' | AOF_RW_ACTIVE \<Rightarrow> lit ''active''
             | AOF_RW_ABORTING \<Rightarrow> lit ''aborting'') in
      Some (resp_addf r
        (lit ''Uptime: '' @ dec_int uptime_s @ lit '' seconds'' @ nl @
         lit ''DB Size: '' @ dec_nat (ht_size (db_keyspace (sdb s))) @ nl @
         lit ''DB Keys Used: '' @ dec_nat (ht_used (db_keyspace (sdb s))) @ nl @
         lit ''AOF Writes: '' @ dec_int (aof_total_writes s) @ nl @
         lit ''AOF Fsyncs: '' @ dec_int (aof_total_fsyncs s) @ nl @
         lit ''AOF Rewrite State: '' @ rewrite_state @ nl @
         lit ''AOF Rewrites Completed: '' @ dec_int (aof_rewrites_completed s) @ nl @
         lit ''AOF Rewrites Failed: '' @ dec_int (aof_rewrites_failed s) @ nl @
         lit ''AOF Last Rewrite Duration: '' @ dec_int (aof_last_rewrite_duration_ms s) @ lit '' ms'' @ nl), s))"

definition cmd_bgrewriteaof :: handler where
  "cmd_bgrewriteaof xe argv r s =
     (if aof_rewrite_state s \<noteq> AOF_RW_IDLE
      then Some (resp_add r (lit ''-ERR rewrite already in progress'' @ nl), s)
      else
        (let (rc, s) = aof_rewrite_start (xe_pid xe) s in
         if rc = -1 then Some (resp_add r (lit ''-ERR failed to start rewrite'' @ nl), s)
         else Some (resp_add r (lit ''+OK background rewrite started'' @ nl), s)))"

section \<open>The command table\<close>

datatype cmd_proc_t =
  CmdGet | CmdTtl | CmdSet | CmdSetex | CmdExpire | CmdPersist | CmdDel | CmdKeys | CmdInfo | CmdBgrewriteaof

fun cmd_proc :: "cmd_proc_t \<Rightarrow> handler" where
  "cmd_proc CmdGet = cmd_get"
| "cmd_proc CmdTtl = cmd_ttl"
| "cmd_proc CmdSet = cmd_set"
| "cmd_proc CmdSetex = cmd_setex"
| "cmd_proc CmdExpire = cmd_expire"
| "cmd_proc CmdPersist = cmd_persist"
| "cmd_proc CmdDel = cmd_del"
| "cmd_proc CmdKeys = cmd_keys"
| "cmd_proc CmdInfo = cmd_info"
| "cmd_proc CmdBgrewriteaof = cmd_bgrewriteaof"

text \<open>An opcode of 0 marks a command that is not logged.\<close>

record command_entry_t =
  cmd_name :: cstr
  cmd_handler :: cmd_proc_t
  cmd_arity :: int
  cmd_aof_op :: "aof_opcode_t option"

definition command_entry :: "string \<Rightarrow> cmd_proc_t \<Rightarrow> int \<Rightarrow> aof_opcode_t option \<Rightarrow> command_entry_t" where
  "command_entry name proc arity op =
     \<lparr>cmd_name = lit name, cmd_handler = proc, cmd_arity = arity, cmd_aof_op = op\<rparr>"

definition command_table :: "command_entry_t list" where
  "command_table =
     [command_entry ''GET'' CmdGet 2 None,
      command_entry ''TTL'' CmdTtl 2 None,
      command_entry ''SET'' CmdSet (-3) (Some AOF_OP_SET),
      command_entry ''SETEX'' CmdSetex 4 (Some AOF_OP_SETEX),
      command_entry ''EXPIRE'' CmdExpire 3 (Some AOF_OP_EXPIRE),
      command_entry ''PERSIST'' CmdPersist 2 (Some AOF_OP_PERSIST),
      command_entry ''DEL'' CmdDel 2 (Some AOF_OP_DEL),
      command_entry ''KEYS'' CmdKeys 1 None,
      command_entry ''INFO'' CmdInfo 1 None,
      command_entry ''BGREWRITEAOF'' CmdBgrewriteaof 1 None]"

definition lookup_command :: "cstr \<Rightarrow> command_entry_t option" where
  "lookup_command name = find (\<lambda>e. strcaseeq name (cmd_name e)) command_table"

section \<open>The tokenizer\<close>

definition MAX_TOKENS :: nat where "MAX_TOKENS = 8"

definition is_delim :: "byte \<Rightarrow> bool" where
  "is_delim b \<longleftrightarrow> b = 32 \<or> b = 9"

text \<open>\<open>strsep(&p, " \t")\<close>: the token, \<open>NULL\<close> when \<open>p\<close> is, and the new value of \<open>p\<close>.\<close>

fun strsep :: "cstr option \<Rightarrow> cstr option \<times> cstr option" where
  "strsep None = (None, None)"
| "strsep (Some s) =
     (let tok = takeWhile (\<lambda>b. \<not> is_delim b) s in
      (Some tok, if length tok < length s then Some (drop (length tok + 1) s) else None))"

definition left_of :: "cstr option \<Rightarrow> nat" where
  "left_of p = (case p of None \<Rightarrow> 0 | Some s \<Rightarrow> Suc (length s))"

lemma strsep_shrinks: "strsep p = (Some tok, p') \<Longrightarrow> left_of p' < left_of p"
  by (cases p) (auto simp: left_of_def Let_def split: if_splits)

function tokenize_loop :: "cstr option \<Rightarrow> cstr list \<Rightarrow> nat \<Rightarrow> cstr list" where
  "tokenize_loop p argv max_tokens =
     (case strsep p of
        (None, _) \<Rightarrow> argv
      | (Some tok, p') \<Rightarrow>
          if tok \<noteq> [] then
            (let argv = argv @ [tok] in
             if max_tokens \<le> length argv then argv else tokenize_loop p' argv max_tokens)
          else tokenize_loop p' argv max_tokens)"
  by pat_completeness auto
termination
  by (relation "measure (\<lambda>(p, _, _). left_of p)") (auto dest!: strsep_shrinks[OF sym])

declare tokenize_loop.simps [simp del]

definition tokenize_command :: "cstr \<Rightarrow> nat \<Rightarrow> cstr list" where
  "tokenize_command cmd max_tokens = tokenize_loop (Some cmd) [] max_tokens"

section \<open>\<open>command_execute\<close>\<close>

definition arity_ok :: "int \<Rightarrow> nat \<Rightarrow> bool" where
  "arity_ok arity argc \<longleftrightarrow>
     \<not> (0 < arity \<and> int argc \<noteq> arity \<or> arity < 0 \<and> int argc < - arity)"

text \<open>The response and the state; \<open>None\<close> when the payload does not fit the local buffer.\<close>

definition command_execute :: "cmd_env \<Rightarrow> byte list \<Rightarrow> nat \<Rightarrow> sv \<Rightarrow> (byte list \<times> sv) option" where
  "command_execute xe payload out_cap s =
     (if MSG_MAX < length payload then None
      else
        (let argv = tokenize_command (cstr_of payload) MAX_TOKENS;
             resp = \<lparr>rb_cap = out_cap, rb_buf = []\<rparr> in
         case argv of
           [] \<Rightarrow> Some (rb_buf (resp_add resp (lit ''-ERR empty command'' @ nl)), s)
         | name # _ \<Rightarrow>
             (case lookup_command name of
                None \<Rightarrow> Some (rb_buf (resp_add resp (lit ''-ERR unknown command'' @ nl)), s)
              | Some entry \<Rightarrow>
                  if \<not> arity_ok (cmd_arity entry) (length argv)
                  then Some (rb_buf (resp_add resp (lit ''-ERR wrong number of arguments'' @ nl)), s)
                  else map_option (\<lambda>(r, s). (rb_buf r, s)) (cmd_proc (cmd_handler entry) xe argv resp s))))"


section \<open>The tokenizer and its specification\<close>

text \<open>The words of a string in one pass, \<open>w\<close> being the word that has begun.\<close>

fun words_from :: "cstr \<Rightarrow> cstr \<Rightarrow> cstr list" where
  "words_from w [] = (if w = [] then [] else [w])"
| "words_from w (b # bs) =
     (if is_delim b then (if w = [] then [] else [w]) @ words_from [] bs else words_from (w @ [b]) bs)"

lemma words_from_word: "\<forall>b \<in> set tok. \<not> is_delim b \<Longrightarrow> words_from w (tok @ s) = words_from (w @ tok) s"
  by (induction tok arbitrary: w) auto

lemma strsep_words:
  assumes "strsep (Some s) = (Some tok, p')"
  shows "words_from [] s = (if tok = [] then [] else [tok]) @ (case p' of None \<Rightarrow> [] | Some s' \<Rightarrow> words_from [] s')"
proof -
  have tok: "tok = takeWhile (\<lambda>b. \<not> is_delim b) s" and p': "p' = (if length tok < length s then Some (drop (length tok + 1) s) else None)"
    using assms by (auto simp: Let_def)
  have nd: "\<forall>b \<in> set tok. \<not> is_delim b" unfolding tok by (auto dest: set_takeWhileD)
  have s: "s = tok @ dropWhile (\<lambda>b. \<not> is_delim b) s" by (simp add: tok)
  show ?thesis
  proof (cases "dropWhile (\<lambda>b. \<not> is_delim b) s")
    case Nil
    have "s = tok" using s unfolding Nil by simp
    then show ?thesis using words_from_word[OF nd, of "[]" "[]"] p' by simp
  next
    case (Cons b r)
    then have d: "is_delim b" using dropWhile_eq_Cons_conv[of "\<lambda>b. \<not> is_delim b" s b r] by simp
    have "s = tok @ b # r" using s unfolding Cons .
    with d p' show ?thesis using words_from_word[OF nd, of "[]" "b # r"] by simp
  qed
qed

lemma tokenize_loop_words:
  "length argv < n \<Longrightarrow> tokenize_loop (Some s) argv n = argv @ take (n - length argv) (words_from [] s)"
proof (induction "Some s" argv n arbitrary: s rule: tokenize_loop.induct)
  case (1 argv n)
  obtain tok p' where sep: "strsep (Some s) = (Some tok, p')" by (simp add: Let_def)
  note w = strsep_words[OF sep]
  have none: "tokenize_loop None a n = a" for a by (subst tokenize_loop.simps) simp
  show ?case
  proof (cases "tok = []")
    case True
    have "tokenize_loop (Some s) argv n = tokenize_loop p' argv n"
      using True by (subst tokenize_loop.simps) (simp add: sep del: strsep.simps)
    also have "\<dots> = argv @ take (n - length argv) (words_from [] s)"
      using "1.hyps"(2)[OF _ refl] sep True "1.prems" w none
      by (cases p') (simp_all del: strsep.simps)
    finally show ?thesis .
  next
    case False
    show ?thesis
    proof (cases "n \<le> Suc (length argv)")
      case True
      with False "1.prems" have "n = Suc (length argv)" by simp
      moreover have "tokenize_loop (Some s) argv n = argv @ [tok]"
        using False True by (subst tokenize_loop.simps) (simp add: sep del: strsep.simps)
      ultimately show ?thesis using w False by simp
    next
      case more: False
      have "tokenize_loop (Some s) argv n = tokenize_loop p' (argv @ [tok]) n"
        using False more by (subst tokenize_loop.simps) (simp add: sep del: strsep.simps)
      also have "\<dots> = argv @ take (n - length argv) (words_from [] s)"
      proof (cases p')
        case None
        with w False more none show ?thesis by simp
      next
        case (Some s')
        have "n - length argv = Suc (n - Suc (length argv))" using more by simp
        moreover have "tokenize_loop (Some s') (argv @ [tok]) n = (argv @ [tok]) @ take (n - length (argv @ [tok])) (words_from [] s')"
          using "1.hyps"(1)[OF _ refl False refl] sep Some more by (simp del: strsep.simps)
        ultimately show ?thesis using w False Some by simp
      qed
      finally show ?thesis .
    qed
  qed
qed

lemma tokenize_command_words: "0 < n \<Longrightarrow> tokenize_command s n = take n (words_from [] s)"
  by (simp add: tokenize_command_def tokenize_loop_words)

lemma words_from_chars:
  "x \<in> set (words_from w s) \<Longrightarrow> \<forall>b \<in> set w. \<not> is_delim b \<Longrightarrow>
   x \<noteq> [] \<and> set x \<subseteq> set w \<union> set s \<and> (\<forall>b \<in> set x. \<not> is_delim b) \<and> length x \<le> length w + length s"
  by (induction w s rule: words_from.induct) (fastforce split: if_splits)+

lemma words_from_length: "sum_list (map length (words_from w s)) \<le> length w + length s"
  by (induction w s rule: words_from.induct) auto


section \<open>Responses stay within their buffer\<close>

definition rb_ok :: "nat \<Rightarrow> respbuf \<Rightarrow> bool" where
  "rb_ok cap r \<longleftrightarrow> rb_cap r = cap \<and> length (rb_buf r) \<le> cap"

lemma resp_add_ok [intro]: "rb_ok cap r \<Longrightarrow> rb_ok cap (resp_add r s)"
  by (auto simp: rb_ok_def resp_add_def Let_def)

lemma resp_addf_ok [intro]: "rb_ok cap r \<Longrightarrow> rb_ok cap (resp_addf r s)"
  by (auto simp: rb_ok_def resp_addf_def Let_def)

lemma keys_fold_ok: "rb_ok cap (fst st) \<Longrightarrow> rb_ok cap (fst (fold keys_entry es st))"
proof (induction es arbitrary: st)
  case (Cons e es)
  have "rb_ok cap (fst (keys_entry e st))" using Cons.prems by (auto simp: keys_entry_def split_beta)
  from Cons.IH[OF this] show ?case by simp
qed simp

lemma resp_add_fits: "length s \<le> cap \<Longrightarrow> resp_add \<lparr>rb_cap = cap, rb_buf = []\<rparr> s = \<lparr>rb_cap = cap, rb_buf = s\<rparr>"
  by (simp add: resp_add_def)

lemma resp_addf_fits: "length s < cap \<Longrightarrow> resp_addf \<lparr>rb_cap = cap, rb_buf = []\<rparr> s = \<lparr>rb_cap = cap, rb_buf = s\<rparr>"
  by (simp add: resp_addf_def Let_def)

section \<open>Handlers end and keep the keyspace well formed\<close>

lemma aof_append_core [simp]: "core (snd (aof_append stack op k v e s)) = core s"
  by (simp add: aof_append_def Let_def split_beta split: option.split)

lemma aof_append_sdb [simp]: "sdb (snd (aof_append stack op k v e s)) = sdb s"
  using core_proj(2)[OF aof_append_core] .

lemma sys_alloc_sdb [simp]: "sdb (snd (sys_alloc s)) = sdb s"
  using core_proj(2)[OF sys_alloc_frame(1)] .

lemma sys_ok_sdb [simp]: "sdb (snd (sys_ok s)) = sdb s"
  using core_proj(2)[OF sys_ok_frame(1)] .

lemma aof_rewrite_start_sdb [simp]: "sdb (snd (aof_rewrite_start pid s)) = sdb s"
  by (simp add: aof_rewrite_start_def aof_rewrite_record_failure_def Let_def split_beta)

text \<open>The arguments each handler reads, its name included.\<close>

fun cmd_argc :: "cmd_proc_t \<Rightarrow> nat" where
  "cmd_argc CmdSet = 3"
| "cmd_argc CmdSetex = 4"
| "cmd_argc CmdExpire = 3"
| "cmd_argc CmdKeys = 1"
| "cmd_argc CmdInfo = 1"
| "cmd_argc CmdBgrewriteaof = 1"
| "cmd_argc _ = 2"

lemma lookup_command_arity:
  assumes "lookup_command name = Some e" "arity_ok (cmd_arity e) (length argv)"
  shows "cmd_argc (cmd_handler e) \<le> length argv"
    "cmd_handler e \<noteq> CmdSet \<Longrightarrow> length argv = cmd_argc (cmd_handler e)"
proof -
  have "\<forall>e \<in> set command_table. arity_ok (cmd_arity e) (length argv) \<longrightarrow>
      cmd_argc (cmd_handler e) \<le> length argv \<and> (cmd_handler e \<noteq> CmdSet \<longrightarrow> length argv = cmd_argc (cmd_handler e))"
    by (simp add: command_table_def command_entry_def arity_ok_def)
  moreover have "e \<in> set command_table" using assms(1) by (auto simp: lookup_command_def find_Some_iff)
  ultimately show "cmd_argc (cmd_handler e) \<le> length argv"
    "cmd_handler e \<noteq> CmdSet \<Longrightarrow> length argv = cmd_argc (cmd_handler e)" using assms(2) by blast+
qed

text \<open>What every handler owes its caller.\<close>

definition handler_done :: "(db \<Rightarrow> bool) \<Rightarrow> nat \<Rightarrow> (respbuf \<times> sv) option \<Rightarrow> bool" where
  "handler_done P cap res \<longleftrightarrow> (\<exists>r s. res = Some (r, s) \<and> rb_ok cap r \<and> P (sdb s))"

lemma handler_doneI [intro!]: "rb_ok cap r \<Longrightarrow> P (sdb s) \<Longrightarrow> handler_done P cap (Some (r, s))"
  by (simp add: handler_done_def)

text \<open>Whatever the keyspace operations keep, the commands keep.\<close>

context keyspace_kept begin

lemma cmd_proc_done:
  assumes "cmd_argc p \<le> length argv" "rb_ok cap r" "P (sdb s)"
  shows "handler_done P cap (cmd_proc p xe argv r s)"
proof (cases p)
  case CmdKeys
  have "rb_ok cap (fst (fold keys_entry (concat (ht_table (db_keyspace (sdb s)))) (r, 0)))"
    by (rule keys_fold_ok) (simp add: assms(2))
  then show ?thesis
    using CmdKeys assms(3) by (auto simp: cmd_keys_def ht_iter_all[OF db_wfD(1)[OF kept_wf[OF assms(3)]]] split_beta)
next
  case CmdInfo
  then show ?thesis using assms(2,3) by (auto simp: cmd_info_def Let_def)
next
  case CmdBgrewriteaof
  then show ?thesis using assms(2,3) by (auto simp: cmd_bgrewriteaof_def split_beta Let_def)
qed (use assms in \<open>auto simp: arg_def cmd_get_def cmd_ttl_def cmd_set_def cmd_setex_def cmd_expire_def
      cmd_persist_def cmd_del_def split_beta Let_def db_get_fst db_get_ttl_fst
      intro!: kept_clean kept_set kept_setex kept_key_expire kept_persist kept_del
      split: option.split\<close>)

lemma command_execute_done:
  assumes "length payload \<le> MSG_MAX" "P (sdb s)"
  obtains resp s' where "command_execute xe payload cap s = Some (resp, s')" "length resp \<le> cap" "P (sdb s')"
proof -
  let ?argv = "tokenize_command (cstr_of payload) MAX_TOKENS" and ?r = "\<lparr>rb_cap = cap, rb_buf = []\<rparr>"
  have r: "rb_ok cap ?r" by (simp add: rb_ok_def)
  have err: "length (rb_buf (resp_add ?r m)) \<le> cap" for m using resp_add_ok[OF r, of m] by (simp add: rb_ok_def)
  show thesis
  proof (cases "\<exists>name rest e. ?argv = name # rest \<and> lookup_command name = Some e \<and> arity_ok (cmd_arity e) (length ?argv)")
    case True
    then obtain name rest e where e: "?argv = name # rest" "lookup_command name = Some e"
        "arity_ok (cmd_arity e) (length ?argv)" by blast
    from cmd_proc_done[OF lookup_command_arity(1)[OF e(2,3)] r assms(2), of xe] obtain r' s'
      where "cmd_proc (cmd_handler e) xe ?argv ?r s = Some (r', s')" "rb_ok cap r'" "P (sdb s')"
      by (auto simp: handler_done_def)
    with e assms(1) show thesis
      by (intro that[of "rb_buf r'" s']) (simp_all add: command_execute_def Let_def rb_ok_def)
  next
    case False
    then have "\<exists>m. command_execute xe payload cap s = Some (rb_buf (resp_add ?r m), s)"
      using assms(1) by (auto simp: command_execute_def Let_def split: list.split option.split)
    then show thesis using err assms(2) that by blast
  qed
qed

end

section \<open>Mutating commands\<close>

text \<open>The mutation a command stands for at time \<open>now\<close>.\<close>

definition deadline_at :: "int \<Rightarrow> int \<Rightarrow> int" where
  "deadline_at now seconds = wrap64 (now + wrap64 (seconds * 1000))"

fun cmd_op :: "int \<Rightarrow> cmd_proc_t \<Rightarrow> cstr list \<Rightarrow> kv_op option" where
  "cmd_op now CmdSet (_ # k # v # _) = Some (KSet k v)"
| "cmd_op now CmdSetex [_, k, t, v] = map_option (\<lambda>n. KSetex k v (deadline_at now n)) (parse_seconds t)"
| "cmd_op now CmdExpire [_, k, t] = map_option (\<lambda>n. KExpire k (deadline_at now n)) (parse_seconds t)"
| "cmd_op now CmdPersist [_, k] = Some (KPersist k)"
| "cmd_op now CmdDel [_, k] = Some (KDel k)"
| "cmd_op now _ _ = None"

fun cmd_error :: "cmd_proc_t \<Rightarrow> cstr" where
  "cmd_error CmdSet = lit ''-ERR SET COMMAND'' @ nl"
| "cmd_error CmdSetex = lit ''-ERR SETEX COMMAND'' @ nl"
| "cmd_error CmdExpire = lit ''-ERR EXPIRE COMMAND'' @ nl"
| "cmd_error CmdPersist = lit ''-ERR PERSIST COMMAND'' @ nl"
| "cmd_error CmdDel = lit ''-ERR DEL COMMAND'' @ nl"
| "cmd_error _ = []"

definition run_logged :: "cmd_env \<Rightarrow> kv_op \<Rightarrow> sv \<Rightarrow> int \<times> sv" where
  "run_logged xe p s =
     (let (db, rc) = db_run p (sdb s); s1 = s\<lparr>sdb := db\<rparr> in
      if rc = EXIT_FAILURE then (EXIT_FAILURE, s1)
      else (EXIT_SUCCESS, snd (aof_append (xe_stack xe) (op_code p) (op_key p) (op_value p) (op_expire p) s1)))"

lemma sys_alloc_done: "os_alloc s = [] \<Longrightarrow> sys_alloc s = (True, s)"
  by (simp add: sys_alloc_def)

text \<open>All five handlers run the mutation, log it, and report it.\<close>

lemma cmd_proc_mutates:
  assumes "cmd_op (now_realtime_ms s) c argv = Some p" "os_alloc s = []"
  shows "cmd_proc c xe argv r s =
    (let (rc, s') = run_logged xe p s in
     Some (resp_add r (if rc = EXIT_FAILURE then cmd_error c else lit ''+OK'' @ nl), s'))"
proof -
  note defs = run_logged_def arg_def deadline_at_def sys_alloc_done[OF assms(2)] split_beta Let_def
  consider (set) n k v rest where "c = CmdSet" "argv = n # k # v # rest" "p = KSet k v"
    | (setex) n k t v sec where "c = CmdSetex" "argv = [n, k, t, v]" "parse_seconds t = Some sec"
        "p = KSetex k v (deadline_at (now_realtime_ms s) sec)"
    | (expire) n k t sec where "c = CmdExpire" "argv = [n, k, t]" "parse_seconds t = Some sec"
        "p = KExpire k (deadline_at (now_realtime_ms s) sec)"
    | (persist) n k where "c = CmdPersist" "argv = [n, k]" "p = KPersist k"
    | (del) n k where "c = CmdDel" "argv = [n, k]" "p = KDel k"
    using assms(1) by (cases "(now_realtime_ms s, c, argv)" rule: cmd_op.cases) auto
  then show ?thesis
  proof cases
    case set
    then show ?thesis by (simp add: cmd_set_def defs)
  next
    case setex
    then show ?thesis by (simp add: cmd_setex_def defs)
  next
    case expire
    then show ?thesis by (simp add: cmd_expire_def defs)
  next
    case persist
    then show ?thesis by (simp add: cmd_persist_def defs)
  next
    case del
    then show ?thesis by (simp add: cmd_del_def defs)
  qed
qed

lemma run_logged_spec:
  assumes "db_inv (sdb s)"
  shows "case kv_apply p (db_abs (sdb s)) of
      Some m \<Rightarrow> fst (run_logged xe p s) = EXIT_SUCCESS \<and> db_abs (sdb (snd (run_logged xe p s))) = m
    | None \<Rightarrow> fst (run_logged xe p s) = EXIT_FAILURE \<and> db_abs (sdb (snd (run_logged xe p s))) = db_abs (sdb s) \<and>
        (\<exists>db'. snd (run_logged xe p s) = s\<lparr>sdb := db'\<rparr>)"
  using kvdb.run_ok[OF assms, of p] kvdb.run_refused[OF assms, of p]
  by (auto simp: run_logged_def split_beta Let_def split: option.split)

text \<open>A command line: its words, the entry and the arity check.\<close>

definition parses :: "byte list \<Rightarrow> cmd_proc_t \<Rightarrow> cstr list \<Rightarrow> bool" where
  "parses payload c argv \<longleftrightarrow>
     length payload \<le> MSG_MAX \<and> argv = take MAX_TOKENS (words_from [] (cstr_of payload)) \<and> argv \<noteq> [] \<and>
     (\<exists>e. lookup_command (hd argv) = Some e \<and> cmd_handler e = c \<and> arity_ok (cmd_arity e) (length argv))"

lemma command_execute_parses:
  assumes "parses payload c argv"
  shows "command_execute xe payload cap s =
    map_option (\<lambda>(r, s). (rb_buf r, s)) (cmd_proc c xe argv \<lparr>rb_cap = cap, rb_buf = []\<rparr> s)"
proof -
  obtain n rest e where e: "argv = n # rest" "lookup_command n = Some e" "cmd_handler e = c"
      "arity_ok (cmd_arity e) (length argv)" "length payload \<le> MSG_MAX"
    using assms unfolding parses_def by (metis list.exhaust list.sel(1))
  have "tokenize_command (cstr_of payload) MAX_TOKENS = argv"
    using assms by (simp add: parses_def tokenize_command_words MAX_TOKENS_def)
  with e show ?thesis by (simp add: command_execute_def)
qed

lemma parses_argc:
  "parses payload c argv \<Longrightarrow> cmd_argc c \<le> length argv"
  "parses payload c argv \<Longrightarrow> c \<noteq> CmdSet \<Longrightarrow> length argv = cmd_argc c"
  unfolding parses_def using lookup_command_arity by blast+

text \<open>The words are C strings that together are no longer than the line.\<close>

lemma parses_args:
  assumes "parses payload c argv"
  shows "\<forall>w \<in> set argv. wf_cstr w \<and> w \<noteq> []" "sum_list (map length argv) \<le> length payload"
proof -
  have argv: "argv = take MAX_TOKENS (words_from [] (cstr_of payload))" using assms by (simp add: parses_def)
  show "\<forall>w \<in> set argv. wf_cstr w \<and> w \<noteq> []"
  proof
    fix w assume "w \<in> set argv"
    then have "w \<in> set (words_from [] (cstr_of payload))" unfolding argv by (rule in_set_takeD)
    from words_from_chars[OF this] show "wf_cstr w \<and> w \<noteq> []"
      using cstr_of_wf[of payload] by (auto simp: wf_cstr_def)
  qed
  have "sum_list (map length argv) \<le> sum_list (map length (words_from [] (cstr_of payload)))"
    unfolding argv
    using sum_list_append[of "map length (take MAX_TOKENS (words_from [] (cstr_of payload)))"
        "map length (drop MAX_TOKENS (words_from [] (cstr_of payload)))"]
    by (simp flip: map_append)
  also have "\<dots> \<le> length payload"
    using words_from_length[of "[]" "cstr_of payload"] length_cstr_of[of payload] by simp
  finally show "sum_list (map length argv) \<le> length payload" .
qed


section \<open>The documented commands\<close>

text \<open>The command table of the \<open>README\<close>: the name in upper case, the handler, the number of words
  and whether there may be more.\<close>

definition upper :: "cstr \<Rightarrow> cstr" where
  "upper = map (\<lambda>b. if 97 \<le> b \<and> b \<le> 122 then b - 32 else b)"

definition documented :: "cstr \<Rightarrow> (cmd_proc_t \<times> nat \<times> bool) option" where
  "documented name =
     map_of
       [(lit ''GET'', CmdGet, 2, False), (lit ''TTL'', CmdTtl, 2, False), (lit ''SET'', CmdSet, 3, True),
        (lit ''SETEX'', CmdSetex, 4, False), (lit ''EXPIRE'', CmdExpire, 3, False), (lit ''PERSIST'', CmdPersist, 2, False),
        (lit ''DEL'', CmdDel, 2, False), (lit ''KEYS'', CmdKeys, 1, False), (lit ''INFO'', CmdInfo, 1, False),
        (lit ''BGREWRITEAOF'', CmdBgrewriteaof, 1, False)] (upper name)"

lemma tolower_upper:
  fixes b c :: byte
  assumes "65 \<le> c" "c \<le> 90"
  shows "tolower b = tolower c \<longleftrightarrow> (if 97 \<le> b \<and> b \<le> 122 then b - 32 else b) = c"
proof -
  have c: "tolower c = c + 32" using assms by (simp add: tolower_def)
  have u: "unat (c + 32) = unat c + 32" using assms by (simp add: unat_word_ariths word_le_nat_alt)
  have v: "97 \<le> b \<Longrightarrow> unat (b - 32) = unat b - 32" by (subst unat_sub) (simp_all add: word_le_nat_alt)
  show ?thesis
    unfolding c using assms u v unsigned_less[of b]
    by (auto simp: tolower_def word_le_nat_alt word_unat_eq_iff unat_word_ariths)
qed

lemma strcaseeq_upper: "\<forall>b \<in> set w. 65 \<le> b \<and> b \<le> 90 \<Longrightarrow> strcaseeq name w \<longleftrightarrow> upper name = w"
  unfolding strcaseeq_def upper_def
proof (induction name arbitrary: w)
  case (Cons b bs)
  show ?case
  proof (cases w)
    case (Cons c cs)
    have "65 \<le> c" "c \<le> 90" "\<forall>b \<in> set cs. 65 \<le> b \<and> b \<le> 90" using Cons.prems Cons by simp_all
    from tolower_upper[OF this(1,2), of b] Cons.IH[OF this(3)] Cons show ?thesis by simp
  qed simp
qed auto

lemma map_of_find: "map_of (map (\<lambda>e. (key e, f e)) es) k = map_option f (find (\<lambda>e. k = key e) es)"
  by (induction es) auto

lemma arity_ok_words: "a \<noteq> 0 \<Longrightarrow> arity_ok a argc \<longleftrightarrow> argc = nat \<bar>a\<bar> \<or> a < 0 \<and> nat \<bar>a\<bar> < argc"
  by (auto simp: arity_ok_def)

text \<open>The table of the code is the documented one.\<close>

lemma lookup_command_documented:
  "documented name = map_option (\<lambda>e. (cmd_handler e, nat \<bar>cmd_arity e\<bar>, cmd_arity e < 0)) (lookup_command name)"
  "lookup_command name = Some e \<Longrightarrow> cmd_arity e \<noteq> 0"
proof -
  have "\<forall>e \<in> set command_table. \<forall>b \<in> set (cmd_name e). 65 \<le> b \<and> b \<le> 90"
    by (simp add: command_table_def command_entry_def lit_def word_le_nat_alt)
  then have "lookup_command name = find (\<lambda>e. upper name = cmd_name e) command_table"
    unfolding lookup_command_def by (intro find_cong refl) (simp add: strcaseeq_upper)
  moreover have "documented name =
      map_of (map (\<lambda>e. (cmd_name e, (cmd_handler e, nat \<bar>cmd_arity e\<bar>, cmd_arity e < 0))) command_table) (upper name)"
    by (simp add: documented_def command_table_def command_entry_def)
  ultimately show "documented name = map_option (\<lambda>e. (cmd_handler e, nat \<bar>cmd_arity e\<bar>, cmd_arity e < 0)) (lookup_command name)"
    by (simp only: map_of_find)
  have "\<forall>e \<in> set command_table. cmd_arity e \<noteq> 0" by (simp add: command_table_def command_entry_def)
  then show "lookup_command name = Some e \<Longrightarrow> cmd_arity e \<noteq> 0" by (auto simp: lookup_command_def find_Some_iff)
qed

section \<open>Commands and the log\<close>

text \<open>No call fails from now on.\<close>

definition all_well :: "sv \<Rightarrow> bool" where
  "all_well s \<longleftrightarrow> os_io s = [] \<and> os_ok s = [] \<and> os_alloc s = []"

lemma all_well_simps [simp]:
  "all_well (s\<lparr>sdb := db'\<rparr>) = all_well s" "all_well (s\<lparr>aof_buf_dirty := d\<rparr>) = all_well s"
  "all_well (s\<lparr>aof_total_writes := i\<rparr>) = all_well s" "all_well (s\<lparr>aof_total_fsyncs := i\<rparr>) = all_well s"
  "all_well (s\<lparr>os_synced := g\<rparr>) = all_well s"
  "all_well (s\<lparr>aof_rewrite_buf := b\<rparr>) = all_well s" "all_well (s\<lparr>aof_rewrite_state := st\<rparr>) = all_well s"
  "all_well (s\<lparr>aof_rewrite_cap := c\<rparr>) = all_well s" "all_well (s\<lparr>os_pipe := p\<rparr>) = all_well s"
  by (simp_all add: all_well_def)

lemma all_well_calls:
  assumes "all_well s"
  shows "sys_ok s = (True, s)" "sys_alloc s = (True, s)" "write_all (os_io s) bs = (True, bs, [])"
  using assms by (simp_all add: all_well_def sys_ok_def sys_alloc_def write_all_def)

lemma all_well_flush: "all_well s \<Longrightarrow> all_well (snd (durable_flush fd s))"
  by (auto simp: durable_flush_def sys_flush_def count_fsync_def all_well_calls split_beta Let_def
      split: option.split aof_fsync_mode_t.split)

lemma all_well_kill: "all_well s \<Longrightarrow> all_well (sys_kill_child s)"
  by (simp add: sys_kill_child_def split: child.split option.split)

lemma all_well_append:
  assumes "all_well s"
  shows "all_well (snd (aof_append stack op k v e s))"
proof -
  have live: "all_well (snd (aof_emit_live rec s))" for rec
    using assms all_well_calls(3)[OF assms]
    by (auto simp: aof_emit_live_def sys_write_all_def all_well_def split_beta Let_def split: option.split)
  have diff: "all_well (aof_emit_diff rec s1)" if "all_well s1" for rec s1
    using that by (simp add: aof_emit_diff_def aof_abort_rewrite_def all_well_calls all_well_kill Let_def)
  have sync: "all_well (snd (aof_maybe_fsync_always s1))" if "all_well s1" for s1
    using that by (simp add: aof_maybe_fsync_always_def all_well_flush split_beta Let_def)
  show ?thesis
    using assms live by (simp add: aof_append_def split_beta Let_def diff sync split: option.split)
qed

text \<open>Lines whose record fits the log's buffer and that, executed at time \<open>now\<close>, set no deadline
  before \<open>T\<close> nor one that leaves the range of the clock.\<close>

definition lasting :: "int \<Rightarrow> int \<Rightarrow> byte list \<Rightarrow> bool" where
  "lasting T now payload \<longleftrightarrow> length payload \<le> 4069 \<and>
     (\<forall>c argv n. parses payload c argv \<and> c \<in> {CmdSetex, CmdExpire} \<and> parse_seconds (argv ! 2) = Some n \<longrightarrow>
        n < 2 ^ 52 \<and> T \<le> now + n * 1000)"

lemma parse_seconds_pos: "parse_seconds t = Some n \<Longrightarrow> 0 < n"
  by (auto simp: parse_seconds_def split_beta Let_def split: if_splits)

lemma deadline_at_exact:
  assumes "0 \<le> now" "now < 2 ^ 62" "0 < n" "n < 2 ^ 52"
  shows "deadline_at now n = now + n * 1000"
proof -
  have "i64_range (n * 1000)" "i64_range (now + n * 1000)" using assms by (simp_all add: i64_range_def)
  then show ?thesis by (simp add: deadline_at_def)
qed

lemma cmd_op_wf:
  assumes p: "parses payload c argv" and op: "cmd_op now c argv = Some p" and m: "lasting T now payload"
    and now: "0 \<le> now" "now < 2 ^ 62"
  shows "wf_op T p" "op_fits p"
proof -
  note args = parses_args[OF p]
  have late: "T \<le> deadline_at now n \<and> i64_range (deadline_at now n)"
    if "c \<in> {CmdSetex, CmdExpire}" "parse_seconds (argv ! 2) = Some n" for n
  proof -
    have "n < 2 ^ 52" "T \<le> now + n * 1000" using m p that unfolding lasting_def by blast+
    moreover have "i64_range (deadline_at now n)" by (simp add: deadline_at_def)
    ultimately show ?thesis using deadline_at_exact[OF now parse_seconds_pos[OF that(2)]] by simp
  qed
  have small: "sum_list (map length argv) \<le> 4069" using args(2) m by (simp add: lasting_def)
  have "wf_cstr (op_key p) \<and> wf_cstr (op_value p) \<and> i64_range (op_expire p) \<and> \<not> op_skipped T p \<and>
      length (op_key p) + length (op_value p) \<le> 4069"
    using op args(1) small late
    by (cases "(now, c, argv)" rule: cmd_op.cases) (auto simp: op_skipped_def i64_range_def wf_cstr_def)
  then show "wf_op T p" "op_fits p" by (auto simp: wf_op_def op_fits_def aof_sizes)
qed


text \<open>Every command is a step, or none, of the machine that keeps log and keyspace together.\<close>

definition cmd_durable :: "int \<Rightarrow> sv \<Rightarrow> (respbuf \<times> sv) option \<Rightarrow> bool" where
  "cmd_durable T s res \<longleftrightarrow>
     (\<exists>r s'. res = Some (r, s') \<and> (durable_step T)\<^sup>*\<^sup>* s s' \<and> all_well s' \<and> now_realtime_ms s' = now_realtime_ms s)"

lemma cmd_durable_same: "all_well s \<Longrightarrow> cmd_durable T s (Some (r, s))"
  by (simp add: cmd_durable_def)

lemma cmd_durable_step:
  "durable_step T s s' \<Longrightarrow> all_well s' \<Longrightarrow> now_realtime_ms s' = now_realtime_ms s \<Longrightarrow> cmd_durable T s (Some (r, s'))"
  by (auto simp: cmd_durable_def)

lemma run_logged_durable:
  assumes inv: "durable_inv T s" and ok: "all_well s" and wf: "wf_op T p" "op_fits p"
    and stack: "length (xe_stack xe) = AOF_RECORD_MAX"
  shows "durable_step T s (snd (run_logged xe p s)) \<and> all_well (snd (run_logged xe p s)) \<and>
    now_realtime_ms (snd (run_logged xe p s)) = now_realtime_ms s"
proof (cases "snd (db_run p (sdb s)) = EXIT_FAILURE")
  case True
  then have "run_logged xe p s = (EXIT_FAILURE, s\<lparr>sdb := fst (db_run p (sdb s))\<rparr>)"
    by (simp add: run_logged_def split_beta)
  moreover have "durable_step T s (s\<lparr>sdb := fst (db_run p (sdb s))\<rparr>)"
    by (rule durable_step.refuse[of p]) (simp add: True[symmetric])
  ultimately show ?thesis using ok by simp
next
  case False
  let ?db = "fst (db_run p (sdb s))"
  let ?a = "aof_append (xe_stack xe) (op_code p) (op_key p) (op_value p) (op_expire p) (s\<lparr>sdb := ?db\<rparr>)"
  note i = durable_invD[OF inv]
  obtain li where li: "os_fd s (aof_fd s) = Some li" using i(4) by (auto simp: files_inv_def)
  have run: "run_logged xe p s = (EXIT_SUCCESS, snd ?a)" using False by (simp add: run_logged_def split_beta)
  have db: "db_run p (sdb s) = (?db, EXIT_SUCCESS)"
    using False kvdb.run_status[OF i(2), of p] kvdb.run_refused[OF i(2), of p]
    by (cases "db_run p (sdb s)") (auto split: option.splits)
  have "fst ?a = EXIT_SUCCESS"
    using aof_append_succeeds[OF stack wf(2), of "s\<lparr>sdb := ?db\<rparr>" li] i(1) li ok by (simp add: all_well_def)
  then have app: "?a = (EXIT_SUCCESS, snd ?a)" by (cases ?a) simp
  have w: "wf_cstr (op_key p)" "wf_cstr (op_value p)" "i64_range (op_expire p)" using wf(1) by (simp_all add: wf_op_def)
  have st: "cfg_aof_enabled (config (s\<lparr>sdb := ?db\<rparr>))" "os_fd (s\<lparr>sdb := ?db\<rparr>) (aof_fd (s\<lparr>sdb := ?db\<rparr>)) = Some li"
    using i(1) li by simp_all
  have "core (snd ?a) = core (s\<lparr>sdb := ?db\<rparr>)" by (rule aof_append_core)
  from core_proj(4)[OF this] have "fd_bytes s (aof_fd s) = Some (os_inode s li)"
      "fd_bytes (snd ?a) (aof_fd s) = Some (os_inode s li @ op_record p)"
    using li aof_append_logged(2)[OF stack w st app refl] by (simp_all add: fd_bytes_def)
  then have "durable_step T s (snd ?a)" by (rule durable_step.mutate[OF wf(1) stack db app])
  moreover have "all_well (snd ?a)" by (rule all_well_append) (simp add: ok)
  moreover have "now_realtime_ms (snd ?a) = now_realtime_ms s"
    using core_proj(7)[OF aof_append_core[of "xe_stack xe" "op_code p" "op_key p" "op_value p" "op_expire p" "s\<lparr>sdb := ?db\<rparr>"]]
    by simp
  ultimately show ?thesis by (simp add: run)
qed

lemma start_well:
  "all_well s \<Longrightarrow> all_well (snd (aof_rewrite_start pid s)) \<and>
     now_realtime_ms (snd (aof_rewrite_start pid s)) = now_realtime_ms s"
  by (auto simp: aof_rewrite_start_def all_well_calls aof_rewrite_record_failure_def Let_def all_well_def split: if_splits)

text \<open>A command without a mutation reads a key, starts a rewrite or leaves the state alone.\<close>

lemma cmd_proc_reads:
  assumes "cmd_op (now_realtime_ms s) c argv = None" "parses payload c argv" "db_inv (sdb s)"
  obtains r where "cmd_proc c xe argv r0 s = Some (r, s)"
    | r k where "cmd_proc c xe argv r0 s = Some (r, s\<lparr>sdb := fst (db_get (sdb s) k (now_realtime_ms s))\<rparr>)"
    | r where "cmd_proc c xe argv r0 s = Some (r, snd (aof_rewrite_start (xe_pid xe) s))"
        "aof_rewrite_state s = AOF_RW_IDLE"
proof -
  note argc = parses_argc[OF assms(2)]
  consider (keys) "c = CmdKeys" | (info) "c = CmdInfo" | (rewrite) "c = CmdBgrewriteaof"
    | (get) n k where "c = CmdGet" "argv = [n, k]" | (ttl) n k where "c = CmdTtl" "argv = [n, k]"
    | (set) n k v rest where "c = CmdSet" "argv = n # k # v # rest"
    | (setex) n k t v where "c = CmdSetex" "argv = [n, k, t, v]"
    | (expire) n k t where "c = CmdExpire" "argv = [n, k, t]"
    | (persist) n k where "c = CmdPersist" "argv = [n, k]"
    | (del) n k where "c = CmdDel" "argv = [n, k]"
    using argc by (cases c) (fastforce simp: numeral_eq_Suc length_Suc_conv Suc_le_length_iff)+
  then show thesis
  proof cases
    case keys
    then show thesis
      using that(1) by (simp add: cmd_keys_def ht_iter_all[OF db_invD(1)[OF assms(3)]] split_beta)
  next
    case info
    then show thesis using that(1) by (simp add: cmd_info_def Let_def)
  next
    case rewrite
    let ?st = "aof_rewrite_start (xe_pid xe) s"
    have "aof_rewrite_state s = AOF_RW_IDLE \<Longrightarrow> cmd_proc c xe argv r0 s =
        Some (resp_add r0 (if fst ?st = -1 then lit ''-ERR failed to start rewrite'' @ nl
                           else lit ''+OK background rewrite started'' @ nl), snd ?st)"
      using rewrite by (simp add: cmd_bgrewriteaof_def split_beta)
    moreover have "aof_rewrite_state s \<noteq> AOF_RW_IDLE \<Longrightarrow> cmd_proc c xe argv r0 s =
        Some (resp_add r0 (lit ''-ERR rewrite already in progress'' @ nl), s)"
      using rewrite by (simp add: cmd_bgrewriteaof_def)
    ultimately show thesis using that(1,3) by blast
  next
    case (get n k)
    then have "\<exists>r. cmd_proc c xe argv r0 s = Some (r, s\<lparr>sdb := fst (db_get (sdb s) k (now_realtime_ms s))\<rparr>)"
      by (simp add: cmd_get_def arg_def split_beta Let_def split: option.split)
    then show thesis using that(2) by blast
  next
    case (ttl n k)
    have "fst (db_get_ttl (sdb s) k (now_realtime_ms s)) = fst (db_get (sdb s) k (now_realtime_ms s))"
      by (simp add: db_get_fst db_get_ttl_fst)
    with ttl have "\<exists>r. cmd_proc c xe argv r0 s = Some (r, s\<lparr>sdb := fst (db_get (sdb s) k (now_realtime_ms s))\<rparr>)"
      by (simp add: cmd_ttl_def arg_def split_beta Let_def)
    then show thesis using that(2) by blast
  next
    case (setex n k t v)
    with assms(1) show thesis using that(1) by (simp add: cmd_setex_def arg_def)
  next
    case (expire n k t)
    with assms(1) show thesis using that(1) by (simp add: cmd_expire_def arg_def)
  qed (use assms(1) in simp_all)
qed

lemma command_execute_durable:
  assumes inv: "durable_inv T s" "all_well s"
    and now: "0 \<le> now_realtime_ms s" "now_realtime_ms s \<le> T" "T < 2 ^ 62"
    and stack: "length (xe_stack xe) = AOF_RECORD_MAX" and m: "lasting T (now_realtime_ms s) payload"
  shows "\<exists>resp s'. command_execute xe payload cap s = Some (resp, s') \<and> (durable_step T)\<^sup>*\<^sup>* s s' \<and>
    all_well s' \<and> now_realtime_ms s' = now_realtime_ms s"
proof (cases "\<exists>c argv. parses payload c argv")
  case False
  have len: "length payload \<le> MSG_MAX" using m by (simp add: lasting_def MSG_MAX_def)
  obtain argv where argv: "argv = take MAX_TOKENS (words_from [] (cstr_of payload))" by blast
  then have "tokenize_command (cstr_of payload) MAX_TOKENS = argv"
    by (simp add: tokenize_command_words MAX_TOKENS_def)
  moreover have "\<not> arity_ok (cmd_arity e) (length argv)" if "argv \<noteq> []" "lookup_command (hd argv) = Some e" for e
    using False len argv that unfolding parses_def by blast
  ultimately have "\<exists>resp. command_execute xe payload cap s = Some (resp, s)"
    using len by (cases argv) (auto simp: command_execute_def Let_def split: option.split)
  then show ?thesis using inv by blast
next
  case True
  then obtain c argv where p: "parses payload c argv" by blast
  let ?r = "\<lparr>rb_cap = cap, rb_buf = []\<rparr>"
  have "cmd_durable T s (cmd_proc c xe argv ?r s)"
  proof (cases "cmd_op (now_realtime_ms s) c argv")
    case (Some op)
    have al: "os_alloc s = []" using inv(2) by (simp add: all_well_def)
    have "now_realtime_ms s < 2 ^ 62" using now by simp
    note wf = cmd_op_wf[OF p Some m now(1) this]
    from run_logged_durable[OF inv(1,2) wf stack] show ?thesis
      using cmd_proc_mutates[of s c argv op xe ?r] Some al by (auto simp: split_beta intro: cmd_durable_step)
  next
    case None
    have dbi: "db_inv (sdb s)" by (rule durable_invD(2)[OF inv(1)])
    show ?thesis
    proof (rule cmd_proc_reads[of s c argv payload xe ?r])
      show "cmd_op (now_realtime_ms s) c argv = None" "parses payload c argv" "db_inv (sdb s)"
        using None p dbi by simp_all
      fix r k
      show "cmd_durable T s (cmd_proc c xe argv ?r s)" if "cmd_proc c xe argv ?r s = Some (r, s)"
        using that inv(2) by (simp add: cmd_durable_same)
      show "cmd_durable T s (cmd_proc c xe argv ?r s)"
        if "cmd_proc c xe argv ?r s = Some (r, s\<lparr>sdb := fst (db_get (sdb s) k (now_realtime_ms s))\<rparr>)"
        unfolding that by (rule cmd_durable_step[OF durable_step.lookup[OF now(2)]]) (use inv in auto)
      show "cmd_durable T s (cmd_proc c xe argv ?r s)"
        if "cmd_proc c xe argv ?r s = Some (r, snd (aof_rewrite_start (xe_pid xe) s))" "aof_rewrite_state s = AOF_RW_IDLE"
        unfolding that(1) by (rule cmd_durable_step[OF durable_step.start[OF that(2)]]) (use start_well[OF inv(2)] in simp_all)
    qed
  qed
  then show ?thesis
    unfolding command_execute_parses[OF p] cmd_durable_def by auto
qed

section \<open>Properties\<close>

text \<open>C11: The tokenizer cuts a line at blanks and tabs into its non-empty words, of which it keeps
  the first \<open>max_tokens\<close>.\<close>

theorem tokenize_command_spec:
  assumes "0 < max_tokens"
  shows "tokenize_command cmd max_tokens = take max_tokens (words_from [] cmd)"
  by (rule tokenize_command_words[OF assms])

theorem tokenize_command_spec_witness:
  "tokenize_command (lit ''  SET k   a b'') 3 = [lit ''SET'', lit ''k'', lit ''a'']"
  using tokenize_command_spec[of 3 "lit ''  SET k   a b''"] by (simp add: lit_def is_delim_def)

text \<open>C8: Whatever bytes a frame carries, \<open>command_execute\<close> ends, reads no argument the tokenizer
  has not filled, writes no more than the response buffer holds and leaves the keyspace well
  formed, whatever the system calls do.\<close>

theorem command_execute_safe:
  assumes "length payload \<le> MSG_MAX" "db_inv (sdb s)"
  shows "\<exists>resp s'. command_execute xe payload cap s = Some (resp, s') \<and> length resp \<le> cap \<and> db_inv (sdb s')"
  using invk.command_execute_done[OF assms] by metis

theorem command_execute_safe_witness:
  "\<exists>resp s'. command_execute \<lparr>xe_stack = [], xe_pid = 7\<rparr> (lit ''SETEX a'') 4096 (server_zero Apple) = Some (resp, s') \<and>
     length resp \<le> 4096"
proof -
  have "length (lit ''SETEX a'') \<le> MSG_MAX" "db_inv (sdb (server_zero Apple))"
    by (simp_all add: lit_def MSG_MAX_def server_zero_def db_create_inv)
  from command_execute_safe[OF this, of "\<lparr>xe_stack = [], xe_pid = 7\<rparr>" 4096] show ?thesis by blast
qed

text \<open>C10: Which command a line runs, against the documented command table: the name is looked up
  without regard to case, the number of words, of which the first eight count, must be the
  documented one, or at least that for \<open>SET\<close>. A line without a word, with an undocumented name
  or with a wrong number of words is answered with its error and changes nothing; every other
  line is the run of the documented handler on its words.\<close>

theorem command_execute_rejects:
  assumes "length payload \<le> MSG_MAX" "31 \<le> cap"
  shows "command_execute xe payload cap s =
    (let argv = take 8 (words_from [] (cstr_of payload)) in
     if argv = [] then Some (lit ''-ERR empty command'' @ nl, s)
     else
       (case documented (hd argv) of
          None \<Rightarrow> Some (lit ''-ERR unknown command'' @ nl, s)
        | Some (proc, n, or_more) \<Rightarrow>
            if length argv = n \<or> or_more \<and> n < length argv
            then map_option (\<lambda>(r, s). (rb_buf r, s)) (cmd_proc proc xe argv \<lparr>rb_cap = cap, rb_buf = []\<rparr> s)
            else Some (lit ''-ERR wrong number of arguments'' @ nl, s)))"
proof -
  let ?argv = "take 8 (words_from [] (cstr_of payload))"
  have "tokenize_command (cstr_of payload) MAX_TOKENS = ?argv"
    by (simp add: tokenize_command_words MAX_TOKENS_def)
  moreover have "length (lit ''-ERR empty command'' @ nl) \<le> cap" "length (lit ''-ERR unknown command'' @ nl) \<le> cap"
      "length (lit ''-ERR wrong number of arguments'' @ nl) \<le> cap"
    using assms(2) by (simp_all add: lit_def nl_def)
  moreover have "documented (hd ?argv) = None \<longleftrightarrow> lookup_command (hd ?argv) = None"
    by (simp add: lookup_command_documented(1))
  moreover have "\<exists>n or_more. documented (hd ?argv) = Some (cmd_handler e, n, or_more) \<and>
      (arity_ok (cmd_arity e) (length ?argv) \<longleftrightarrow> length ?argv = n \<or> or_more \<and> n < length ?argv)"
    if "lookup_command (hd ?argv) = Some e" for e
    using that lookup_command_documented(1)[of "hd ?argv"] arity_ok_words[OF lookup_command_documented(2)[OF that]] by simp
  ultimately show ?thesis
    using assms(1) by (cases ?argv; cases "lookup_command (hd ?argv)") (auto simp: command_execute_def resp_add_fits Let_def split: if_splits)
qed

theorem command_execute_rejects_witness:
  "command_execute \<lparr>xe_stack = [], xe_pid = 7\<rparr> (lit ''FLUSHALL'') 4096 (server_zero Apple) =
     Some (lit ''-ERR unknown command'' @ nl, server_zero Apple) \<and>
   command_execute \<lparr>xe_stack = [], xe_pid = 7\<rparr> (lit ''get a b c d e f g h'') 4096 (server_zero Apple) =
     Some (lit ''-ERR wrong number of arguments'' @ nl, server_zero Apple) \<and>
   command_execute \<lparr>xe_stack = [], xe_pid = 7\<rparr> (lit ''Keys'') 4096 (server_zero Apple) = Some ([], server_zero Apple)"
proof -
  note eval = Let_def lit_def MSG_MAX_def is_delim_def cstr_of_def documented_def upper_def word_le_nat_alt
  have keys: "cmd_keys xe argv r (server_zero Apple) = Some (r, server_zero Apple)" for xe argv r
  proof -
    have z: "ht_inv (db_keyspace (sdb (server_zero Apple)))" "concat (ht_table (db_keyspace (sdb (server_zero Apple)))) = []"
      using db_invD(1)[OF db_create_inv[of 0]] by (simp_all add: server_zero_def) (simp add: db_create_def ht_create_def)
    show ?thesis unfolding cmd_keys_def ht_iter_all[OF z(1)] z(2) by simp
  qed
  show ?thesis
    using command_execute_rejects[of "lit ''FLUSHALL''" 4096 "\<lparr>xe_stack = [], xe_pid = 7\<rparr>" "server_zero Apple"]
      command_execute_rejects[of "lit ''get a b c d e f g h''" 4096 "\<lparr>xe_stack = [], xe_pid = 7\<rparr>" "server_zero Apple"]
      command_execute_rejects[of "lit ''Keys''" 4096 "\<lparr>xe_stack = [], xe_pid = 7\<rparr>" "server_zero Apple"]
    by (simp add: eval keys)
qed

text \<open>C9: \<open>GET\<close> answers with the value of a key that is live at the server's time and with an
  error otherwise; the lazy deletion behind it is not visible to a reader.\<close>

theorem command_execute_get:
  assumes "parses payload CmdGet argv" "db_inv (sdb s)" "19 \<le> cap"
    and "\<forall>v t. db_abs (sdb s) (argv ! 1) = Some (v, t) \<longrightarrow> length v + 2 < cap"
  shows "\<exists>s'. kv_live (now_realtime_ms s) (db_abs (sdb s')) = kv_live (now_realtime_ms s) (db_abs (sdb s)) \<and>
    command_execute xe payload cap s =
      Some (case kv_live (now_realtime_ms s) (db_abs (sdb s)) (argv ! 1) of
              Some (v, _) \<Rightarrow> lit ''+'' @ v @ nl | None \<Rightarrow> lit ''-ERR key not found'' @ nl, s')"
proof -
  let ?now = "now_realtime_ms s" and ?key = "argv ! 1"
  have arg: "arg argv 1 = Some ?key" using parses_argc(1)[OF assms(1)] by (simp add: arg_def)
  obtain db val where g: "db_get (sdb s) ?key ?now = (db, val)" by force
  have val: "val = map_option fst (kv_live ?now (db_abs (sdb s)) ?key)"
    using db_get_result[OF assms(2), of ?key ?now] g by simp
  have live: "kv_live ?now (db_abs db) = kv_live ?now (db_abs (sdb s))"
    using db_expire_clean_live[OF assms(2)] g db_get_fst[of "sdb s" ?key ?now] by simp
  have len: "length (lit ''+'' @ v @ nl) < cap" if "kv_live ?now (db_abs (sdb s)) ?key = Some (v, t)" for v t
    using assms(4) that by (auto simp: kv_live_def lit_def nl_def split: option.splits if_splits)
  have "length (lit ''-ERR key not found'' @ nl) \<le> cap" using assms(3) by (simp add: lit_def nl_def)
  then show ?thesis
    unfolding command_execute_parses[OF assms(1)]
    using arg g val live len
    by (intro exI[of _ "s\<lparr>sdb := db\<rparr>"])
      (auto simp: cmd_get_def resp_add_fits resp_addf_fits split: option.split)
qed

theorem command_execute_get_witness:
  "\<exists>s'. command_execute \<lparr>xe_stack = [], xe_pid = 7\<rparr> (lit ''GET k'') 4096 (server_zero Apple) =
     Some (lit ''-ERR key not found'' @ nl, s')"
proof -
  have p: "parses (lit ''GET k'') CmdGet [lit ''GET'', lit ''k'']"
    by (simp add: parses_def lit_def MSG_MAX_def MAX_TOKENS_def is_delim_def cstr_of_def lookup_command_def
        command_table_def command_entry_def strcaseeq_def arity_ok_def)
  have s: "db_inv (sdb (server_zero Apple))" "db_abs (sdb (server_zero Apple)) = Map.empty"
    by (simp_all add: server_zero_def db_create_inv db_create_abs)
  show ?thesis
    using command_execute_get[OF p s(1), of 4096 "\<lparr>xe_stack = [], xe_pid = 7\<rparr>"] s(2) by (auto simp: kv_live_def)
qed

text \<open>C7: When its allocations succeed, each mutating command carries out exactly the mutation it
  names on the abstract store: it is answered with \<open>+OK\<close> when the store accepts it and with
  the command's error, the store unchanged, when it does not. The value of \<open>SET\<close> is the third
  word alone: words behind it, which the documentation calls a part of the value, are dropped.\<close>

theorem command_execute_mutates:
  assumes "parses payload c argv" "cmd_op (now_realtime_ms s) c argv = Some p"
    and "db_inv (sdb s)" "os_alloc s = []" "25 \<le> cap"
  shows "\<exists>s'. db_inv (sdb s') \<and>
    (case kv_apply p (db_abs (sdb s)) of
       Some m \<Rightarrow> command_execute xe payload cap s = Some (lit ''+OK'' @ nl, s') \<and> db_abs (sdb s') = m
     | None \<Rightarrow> command_execute xe payload cap s = Some (cmd_error c, s') \<and> db_abs (sdb s') = db_abs (sdb s))"
proof -
  let ?r = "run_logged xe p s"
  have len: "length (cmd_error c) \<le> cap" "length (lit ''+OK'' @ nl) \<le> cap"
    using assms(5) by (cases c; simp add: lit_def nl_def)+
  have ex: "command_execute xe payload cap s =
      Some (if fst ?r = EXIT_FAILURE then cmd_error c else lit ''+OK'' @ nl, snd ?r)"
    unfolding command_execute_parses[OF assms(1)] cmd_proc_mutates[OF assms(2,4)]
    using len by (simp add: split_beta resp_add_fits)
  have "db_inv (sdb (snd ?r))"
    using kvdb.run_inv[OF assms(3), of p] by (simp add: run_logged_def split_beta Let_def)
  with run_logged_spec[OF assms(3), of xe p] ex show ?thesis
    by (intro exI[of _ "snd ?r"]) (auto split: option.splits)
qed

theorem command_execute_mutates_witness:
  "\<exists>s'. command_execute \<lparr>xe_stack = [], xe_pid = 7\<rparr> (lit ''set k v'') 4096 (server_zero Apple) = Some (lit ''+OK'' @ nl, s')
     \<and> db_abs (sdb s') = [lit ''k'' \<mapsto> (lit ''v'', None)]"
proof -
  have p: "parses (lit ''set k v'') CmdSet [lit ''set'', lit ''k'', lit ''v'']"
    by (simp add: parses_def lit_def MSG_MAX_def MAX_TOKENS_def is_delim_def cstr_of_def lookup_command_def
        command_table_def command_entry_def strcaseeq_def tolower_def arity_ok_def word_le_nat_alt)
  have s: "db_inv (sdb (server_zero Apple))" "os_alloc (server_zero Apple) = []"
      "db_abs (sdb (server_zero Apple)) = Map.empty"
    by (simp_all add: server_zero_def db_create_inv db_create_abs)
  show ?thesis
    using command_execute_mutates[OF p _ s(1,2), of "KSet (lit ''k'') (lit ''v'')" 4096 "\<lparr>xe_stack = [], xe_pid = 7\<rparr>"] s(3)
    by (auto simp: kv_deadline_def)
qed


text \<open>C12: A \<open>SET\<close> whose key and value together have more than 4069 bytes, which a frame can
  hold, is answered with \<open>+OK\<close> and visible to readers, but no byte of it reaches the log.\<close>

theorem command_ack_without_log:
  assumes "parses payload CmdSet (name # key # val # rest)" "4069 < length key + length val"
    and "db_inv (sdb s)" "os_alloc s = []" "length (xe_stack xe) = AOF_RECORD_MAX" "4 \<le> cap"
    and "cfg_aof_enabled (config s)"
  shows "\<exists>s'. command_execute xe payload cap s = Some (lit ''+OK'' @ nl, s') \<and>
    map_option fst (db_abs (sdb s') key) = Some val \<and> os_inode s' = os_inode s \<and> os_path s' = os_path s"
proof -
  let ?p = "KSet key val"
  let ?s = "s\<lparr>sdb := fst (db_run ?p (sdb s))\<rparr>"
  have wf: "wf_cstr (op_key ?p)" "wf_cstr (op_value ?p)" "i64_range (op_expire ?p)"
    using parses_args(1)[OF assms(1)] by (simp_all add: i64_range_def)
  have "\<not> op_fits ?p" using assms(2) by (simp add: op_fits_def aof_sizes)
  then have app: "aof_append (xe_stack xe) (op_code ?p) (op_key ?p) (op_value ?p) (op_expire ?p) ?s = (EXIT_FAILURE, ?s)"
    using aof_append_cases[OF assms(5) wf, of ?s] assms(7) by simp
  have db: "snd (db_run ?p (sdb s)) = EXIT_SUCCESS" "map_option fst (db_abs (fst (db_run ?p (sdb s))) key) = Some val"
    using kvdb.run_ok[OF assms(3), of ?p] by auto
  have "run_logged xe ?p s = (EXIT_SUCCESS, ?s)"
    using db(1) app unfolding run_logged_def Let_def split_beta by simp
  then have "command_execute xe payload cap s = Some (lit ''+OK'' @ nl, ?s)"
    using cmd_proc_mutates[of s CmdSet "name # key # val # rest" ?p xe "\<lparr>rb_cap = cap, rb_buf = []\<rparr>"] assms(4,6)
    unfolding command_execute_parses[OF assms(1)] by (simp add: resp_add_fits lit_def nl_def)
  with db(2) show ?thesis by (intro exI[of _ ?s]) simp
qed

lemma words_from_replicate: "\<not> is_delim b \<Longrightarrow> 0 < n \<Longrightarrow> words_from [] (replicate n b) = [replicate n b]"
  using words_from_word[of "replicate n b" "[]" "[]"] by simp

theorem command_ack_without_log_witness:
  "\<exists>s'. command_execute \<lparr>xe_stack = replicate AOF_RECORD_MAX 0, xe_pid = 7\<rparr>
      (lit ''SET k '' @ replicate 4070 118) 4096 open_log = Some (lit ''+OK'' @ nl, s') \<and>
    map_option fst (db_abs (sdb s') (lit ''k'')) = Some (replicate 4070 118) \<and> os_inode s' = os_inode open_log"
proof -
  let ?pay = "lit ''SET k '' @ replicate 4070 118"
  have "cstr_of ?pay = ?pay" by (rule cstr_of_id) (simp add: wf_cstr_def lit_def)
  moreover have "words_from [] ?pay = [lit ''SET'', lit ''k'', replicate 4070 118]"
    using words_from_replicate[of 118 4070] by (simp add: lit_def is_delim_def)
  ultimately have p: "parses ?pay CmdSet [lit ''SET'', lit ''k'', replicate 4070 118]"
    unfolding parses_def
    by (simp add: MSG_MAX_def MAX_TOKENS_def lookup_command_def command_table_def command_entry_def strcaseeq_def
        arity_ok_def lit_def tolower_def word_le_nat_alt)
  have s: "db_inv (sdb open_log)" "os_alloc open_log = []" "cfg_aof_enabled (config open_log)"
    by (simp_all add: open_log_def server_zero_def db_create_inv init_server_config_def)
  show ?thesis
    using command_ack_without_log[OF p _ s(1,2) _ _ s(3),
        of "\<lparr>xe_stack = replicate AOF_RECORD_MAX 0, xe_pid = 7\<rparr>" 4096] by auto
qed

text \<open>A series of commands, one after the other.\<close>

fun execute_all :: "cmd_env \<Rightarrow> nat \<Rightarrow> byte list list \<Rightarrow> sv \<Rightarrow> (byte list list \<times> sv) option" where
  "execute_all xe cap [] s = Some ([], s)"
| "execute_all xe cap (p # ps) s =
     do { (resp, s) \<leftarrow> command_execute xe p cap s; (resps, s) \<leftarrow> execute_all xe cap ps s; Some (resp # resps, s) }"

lemma execute_all_durable:
  assumes T: "T < 2 ^ 62" and stack: "length (xe_stack xe) = AOF_RECORD_MAX" and now: "0 \<le> now" "now \<le> T"
  shows "durable_inv T s \<Longrightarrow> all_well s \<Longrightarrow> now_realtime_ms s = now \<Longrightarrow> \<forall>p \<in> set ps. lasting T now p \<Longrightarrow>
    \<exists>resps s'. execute_all xe cap ps s = Some (resps, s') \<and> durable_inv T s' \<and> length resps = length ps"
proof (induction ps arbitrary: s)
  case (Cons p ps)
  obtain resp s1 where s1: "command_execute xe p cap s = Some (resp, s1)" "(durable_step T)\<^sup>*\<^sup>* s s1"
      "all_well s1" "now_realtime_ms s1 = now"
    using command_execute_durable[OF Cons.prems(1,2) _ _ T stack, of p cap] Cons.prems(3,4) now by auto
  have "durable_inv T s1" by (rule dur.reachable_inv[OF s1(2) Cons.prems(1)])
  from Cons.IH[OF this s1(3,4)] Cons.prems(4) s1(1) show ?case by auto
qed simp

text \<open>The same with a clock: each command with the time of the tick it is executed in.\<close>

fun execute_timed :: "cmd_env \<Rightarrow> nat \<Rightarrow> (int \<times> byte list) list \<Rightarrow> sv \<Rightarrow> (byte list list \<times> sv) option" where
  "execute_timed xe cap [] s = Some ([], s)"
| "execute_timed xe cap ((now, p) # ps) s =
     do {
       (resp, s) \<leftarrow> command_execute xe p cap (s\<lparr>now_realtime_ms := now\<rparr>);
       (resps, s) \<leftarrow> execute_timed xe cap ps s;
       Some (resp # resps, s)
     }"

lemma execute_timed_durable:
  assumes T: "T < 2 ^ 62" and stack: "length (xe_stack xe) = AOF_RECORD_MAX"
  shows "durable_inv T s \<Longrightarrow> all_well s \<Longrightarrow> \<forall>(now, p) \<in> set ps. 0 \<le> now \<and> now \<le> T \<and> lasting T now p \<Longrightarrow>
    \<exists>resps s'. execute_timed xe cap ps s = Some (resps, s') \<and> durable_inv T s' \<and> length resps = length ps"
proof (induction ps arbitrary: s)
  case (Cons np ps)
  obtain now p where np: "np = (now, p)" "0 \<le> now" "now \<le> T" "lasting T now p" using Cons.prems(3) by (cases np) simp
  let ?s = "s\<lparr>now_realtime_ms := now\<rparr>"
  have "durable_step T s (s\<lparr>snow_ms := snow_ms s, now_realtime_ms := now\<rparr>)" by (rule durable_step.tick)
  then have d: "durable_inv T ?s" using dur.step_inv[OF Cons.prems(1)] by simp
  have w: "all_well ?s" using Cons.prems(2) by (simp add: all_well_def)
  obtain resp s1 where s1: "command_execute xe p cap ?s = Some (resp, s1)" "(durable_step T)\<^sup>*\<^sup>* ?s s1" "all_well s1"
    using command_execute_durable[OF d w _ _ T stack, of p cap] np by auto
  have "durable_inv T s1" by (rule dur.reachable_inv[OF s1(2) d])
  from Cons.IH[OF this s1(3)] Cons.prems(3) s1(1) np(1) show ?case by auto
qed simp

text \<open>C6: Any series of commands, unknown and refused ones and rewrites included, each executed at its
  own time: a server that is restarted on the log holds exactly the same keys, values and
  deadlines. \<open>T\<close> is any time that is not after a deadline the commands set or the keyspace had,
  and the commands and the restart happen at \<open>T\<close> or before, so nothing expires; no system call
  and no allocation fails, and every line has at most 4069 bytes, so that its record fits the
  log's buffer.\<close>

theorem commands_survive_restart:
  assumes "durable_inv T s" "all_well s" "T < 2 ^ 62" "length (xe_stack xe) = AOF_RECORD_MAX"
    and "\<forall>(now, p) \<in> set ps. 0 \<le> now \<and> now \<le> T \<and> lasting T now p"
    and "load_works le" "\<forall>n. le_clk le n \<le> T"
  shows "\<exists>resps s' log r. execute_timed xe cap ps s = Some (resps, s') \<and> length resps = length ps \<and>
    file_at s' (cfg_aof_filename (config s')) = Some log \<and>
    aof_load le (Some log) (db_create seed) = Some r \<and> lr_rc r = 0 \<and> db_abs (lr_db r) = db_abs (sdb s')"
proof -
  obtain resps s' where "execute_timed xe cap ps s = Some (resps, s')" "durable_inv T s'" "length resps = length ps"
    using execute_timed_durable[OF assms(3,4,1,2,5)] by blast
  with durable_inv_file[of T s'] replays_to_load[OF _ assms(6,7)] show ?thesis by blast
qed

lemma lasting_lines:
  "lasting T now (lit ''SET k v'')" "lasting T now (lit ''BGREWRITEAOF'')" "lasting T now (lit ''DEL x'')"
  "T \<le> now + 9000 \<Longrightarrow> lasting T now (lit ''EXPIRE k 9'')"
proof -
  have "parse_seconds (lit ''9'') = Some 9"
    by (simp add: parse_seconds_def strtol10_def isspace_def isdigit_def digits_val_def lit_def word_le_nat_alt)
  then show "lasting T now (lit ''SET k v'')" "lasting T now (lit ''BGREWRITEAOF'')" "lasting T now (lit ''DEL x'')"
    "T \<le> now + 9000 \<Longrightarrow> lasting T now (lit ''EXPIRE k 9'')"
    by (simp_all add: lasting_def parses_def lit_def MSG_MAX_def MAX_TOKENS_def is_delim_def cstr_of_def lookup_command_def
        command_table_def command_entry_def strcaseeq_def tolower_def word_le_nat_alt)
qed

theorem commands_survive_restart_witness:
  "\<exists>resps s' log r.
     execute_timed \<lparr>xe_stack = replicate AOF_RECORD_MAX 0, xe_pid = 7\<rparr> 4096
       [(0, lit ''SET k v''), (10, lit ''BGREWRITEAOF''), (20, lit ''EXPIRE k 9''), (500, lit ''DEL x'')] fresh_log = Some (resps, s') \<and>
     length resps = 4 \<and> file_at s' (cfg_aof_filename (config s')) = Some log \<and>
     aof_load (quiet_load 9000) (Some log) (db_create 3) = Some r \<and> db_abs (lr_db r) = db_abs (sdb s')"
proof -
  let ?ps = "[(0, lit ''SET k v''), (10, lit ''BGREWRITEAOF''), (20, lit ''EXPIRE k 9''), (500, lit ''DEL x'')]"
  have "\<forall>(now, p) \<in> set ?ps. 0 \<le> now \<and> now \<le> 9020 \<and> lasting 9020 now p" by (simp add: lasting_lines)
  moreover have "all_well fresh_log"
    by (simp_all add: all_well_def fresh_log_def open_log_def server_zero_def)
  moreover have "\<forall>n. le_clk (quiet_load 9000) n \<le> 9020" by (simp add: quiet_load_def)
  ultimately show ?thesis
    using commands_survive_restart[OF fresh_log_inv[of 9020] _ _ _ _ quiet_load_works,
        of "\<lparr>xe_stack = replicate AOF_RECORD_MAX 0, xe_pid = 7\<rparr>" ?ps 9000 4096 3] by auto
qed

end
