(* ===== verification/Event_Loop.thy ===== *)
theory Event_Loop
  imports Server_State
begin

text \<open>
  The registrations of the event loop (\<open>event_loop.c\<close>): the two handler tables and the
  filters registered with the kernel queue. The loop itself, which calls into the rest of the
  server, is in the theory of the server.

  \<open>kevent\<close> with \<open>EV_ADD\<close> succeeds or fails; with \<open>EV_DELETE\<close> it removes a filter that is
  registered and reports an error, which the code ignores, for one that is not.
\<close>

section \<open>Operations\<close>

definition el_init :: "sv \<Rightarrow> int \<times> sv" where
  "el_init s =
     (let s = s\<lparr>el := (el s)\<lparr>el_read_handlers := (\<lambda>_. None), el_write_handlers := (\<lambda>_. None)\<rparr>\<rparr>;
          (ok, s) = sys_ok s in
      if \<not> ok then (-1, s)
      else (0, s\<lparr>el := (el s)\<lparr>el_poll_timeout_ms := 1000 sdiv cfg_hz (config s)\<rparr>\<rparr>))"

definition fd_in_range :: "int \<Rightarrow> bool" where
  "fd_in_range fd \<longleftrightarrow> \<not> (fd < 0 \<or> int MAX_FDS \<le> fd)"

definition el_add :: "int \<Rightarrow> el_handler_fn \<Rightarrow> sv \<Rightarrow> int \<times> sv" where
  "el_add fd handler s =
     (if \<not> fd_in_range fd then (-1, s)
      else
        (let (ok, s) = sys_ok s in
         if \<not> ok then (-1, s)
         else
           (0, s\<lparr>os_kq_read := insert (nat fd) (os_kq_read s),
                 el := (el s)\<lparr>el_read_handlers := (el_read_handlers (el s))(nat fd \<mapsto> handler)\<rparr>\<rparr>)))"

definition el_add_write :: "int \<Rightarrow> el_handler_fn \<Rightarrow> sv \<Rightarrow> int \<times> sv" where
  "el_add_write fd handler s =
     (if \<not> fd_in_range fd then (-1, s)
      else
        (let (ok, s) = sys_ok s in
         if \<not> ok then (-1, s)
         else
           (0, s\<lparr>os_kq_write := insert (nat fd) (os_kq_write s),
                 el := (el s)\<lparr>el_write_handlers := (el_write_handlers (el s))(nat fd \<mapsto> handler)\<rparr>\<rparr>)))"

definition el_remove :: "int \<Rightarrow> sv \<Rightarrow> sv" where
  "el_remove fd s =
     (if \<not> fd_in_range fd then s
      else
        s\<lparr>os_kq_read := os_kq_read s - {nat fd}, os_kq_write := os_kq_write s - {nat fd},
          el := (el s)\<lparr>el_read_handlers := (el_read_handlers (el s))(nat fd := None),
                      el_write_handlers := (el_write_handlers (el s))(nat fd := None)\<rparr>\<rparr>)"

definition el_remove_write :: "int \<Rightarrow> sv \<Rightarrow> sv" where
  "el_remove_write fd s =
     (if \<not> fd_in_range fd then s
      else
        s\<lparr>os_kq_write := os_kq_write s - {nat fd},
          el := (el s)\<lparr>el_write_handlers := (el_write_handlers (el s))(nat fd := None)\<rparr>\<rparr>)"

text \<open>\<open>el_cleanup\<close> closes the queue: no filter is left.\<close>

definition el_cleanup :: "sv \<Rightarrow> sv" where
  "el_cleanup s = s\<lparr>os_kq_read := {}, os_kq_write := {}\<rparr>"

section \<open>What is registered has a handler\<close>

text \<open>Every filter the kernel can report has a handler and lies inside the tables, every handler
  has its filter, and \<open>on_write\<close> is the handler of all writes and of nothing else.\<close>

definition el_inv :: "sv \<Rightarrow> bool" where
  "el_inv s \<longleftrightarrow>
     os_kq_read s = dom (el_read_handlers (el s)) \<and> os_kq_write s = dom (el_write_handlers (el s)) \<and>
     os_kq_read s \<union> os_kq_write s \<subseteq> {..<MAX_FDS} \<and>
     (\<forall>fd. el_read_handlers (el s) fd \<noteq> Some OnWrite \<and> el_write_handlers (el s) fd \<in> {None, Some OnWrite})"

lemma el_invD:
  assumes "el_inv s"
  shows "os_kq_read s = dom (el_read_handlers (el s))" "os_kq_write s = dom (el_write_handlers (el s))"
    "fd \<in> os_kq_read s \<Longrightarrow> fd < MAX_FDS" "fd \<in> os_kq_write s \<Longrightarrow> fd < MAX_FDS"
    "el_read_handlers (el s) fd \<noteq> Some OnWrite" "el_write_handlers (el s) fd \<in> {None, Some OnWrite}"
  using assms by (auto simp: el_inv_def)

lemma fd_in_range_nat: "fd_in_range fd \<longleftrightarrow> 0 \<le> fd \<and> nat fd < MAX_FDS"
  by (auto simp: fd_in_range_def)

lemma fd_in_range_int [simp]: "fd_in_range (int fd) \<longleftrightarrow> fd < MAX_FDS"
  by (simp add: fd_in_range_def not_le)

lemma sys_ok_el [simp]:
  "el (snd (sys_ok s)) = el s" "os_kq_read (snd (sys_ok s)) = os_kq_read s" "os_kq_write (snd (sys_ok s)) = os_kq_write s"
  by (simp_all add: sys_ok_def split: list.split)

lemma el_inv_cong:
  "el s' = el s \<Longrightarrow> os_kq_read s' = os_kq_read s \<Longrightarrow> os_kq_write s' = os_kq_write s \<Longrightarrow> el_inv s' = el_inv s"
  by (simp add: el_inv_def)

lemma el_add_inv: "el_inv s \<Longrightarrow> h \<noteq> OnWrite \<Longrightarrow> el_inv (snd (el_add fd h s))"
  by (auto simp: el_add_def el_inv_def Let_def split_beta fd_in_range_nat)

lemma el_add_write_inv: "el_inv s \<Longrightarrow> el_inv (snd (el_add_write fd OnWrite s))"
  by (auto simp: el_add_write_def el_inv_def Let_def split_beta fd_in_range_nat)

lemma el_remove_inv: "el_inv s \<Longrightarrow> el_inv (el_remove fd s)"
  by (auto simp: el_remove_def el_inv_def)

lemma el_remove_write_inv: "el_inv s \<Longrightarrow> el_inv (el_remove_write fd s)"
  by (auto simp: el_remove_write_def el_inv_def)

text \<open>The loop's registrations touch nothing else.\<close>

definition but_el :: "sv \<Rightarrow> sv" where
  "but_el s = s\<lparr>el := \<lparr>el_read_handlers = (\<lambda>_. None), el_write_handlers = (\<lambda>_. None), el_poll_timeout_ms = 0, el_stop = False\<rparr>,
                os_kq_read := {}, os_kq_write := {}, os_ok := []\<rparr>"

lemma but_el_frame [simp]:
  "but_el (snd (sys_ok s)) = but_el s"
  "but_el (snd (el_add fd h s)) = but_el s" "but_el (snd (el_add_write fd h s)) = but_el s"
  "but_el (el_remove fd s) = but_el s" "but_el (el_remove_write fd s) = but_el s"
proof -
  show ok: "but_el (snd (sys_ok s)) = but_el s" for s
    by (simp add: sys_ok_def but_el_def split: list.split)
  show "but_el (snd (el_add fd h s)) = but_el s" "but_el (snd (el_add_write fd h s)) = but_el s"
    using ok[of s] by (simp_all add: el_add_def el_add_write_def but_el_def Let_def split_beta)
  show "but_el (el_remove fd s) = but_el s" "but_el (el_remove_write fd s) = but_el s"
    by (simp_all add: el_remove_def el_remove_write_def but_el_def)
qed

lemma but_el_proj:
  assumes "but_el s' = but_el s"
  shows "clients s' = clients s" "clients_count s' = clients_count s" "os_sent s' = os_sent s" "sdb s' = sdb s"
    "config s' = config s" "snow_ms s' = snow_ms s" "now_realtime_ms s' = now_realtime_ms s" "os_io s' = os_io s"
    "os_alloc s' = os_alloc s" "os_pipe s' = os_pipe s"
  using arg_cong[OF assms, of clients] arg_cong[OF assms, of clients_count] arg_cong[OF assms, of os_sent]
    arg_cong[OF assms, of sdb] arg_cong[OF assms, of config] arg_cong[OF assms, of snow_ms]
    arg_cong[OF assms, of now_realtime_ms] arg_cong[OF assms, of os_io] arg_cong[OF assms, of os_alloc]
    arg_cong[OF assms, of os_pipe]
  by (simp_all add: but_el_def)

end
