(* ===== verification/Networking.thy ===== *)
theory Networking
  imports Command Event_Loop Framing
begin

text \<open>
  The clients (\<open>networking.c\<close>): accepting, reading, framing, answering, queued writes and
  idle timeouts.

  A client's buffers are the lists of the bytes they hold. A write to a socket takes the next
  outcome of \<open>os_io\<close>: a number of bytes that were taken (\<open>SysN\<close>), an error that leaves the
  socket usable (\<open>SysIntr\<close>, for \<open>EAGAIN\<close>, \<open>EWOULDBLOCK\<close> and \<open>EINTR\<close>), or another one; what
  a peer has been sent is \<open>os_sent\<close>. What a read or an \<open>accept\<close> finds is an argument. A
  function whose copy would leave its array has no value. Messages to the terminal are left
  out.
\<close>

section \<open>Sockets\<close>

datatype sent = Sent nat | WouldBlock | SendFailed

definition sys_send :: "nat \<Rightarrow> byte list \<Rightarrow> sv \<Rightarrow> sent \<times> sv" where
  "sys_send fd bytes s =
     (case os_io s of
        [] \<Rightarrow> (Sent (length bytes), s\<lparr>os_sent := (os_sent s)(fd := os_sent s fd @ bytes)\<rparr>)
      | SysN k # io \<Rightarrow>
          (Sent (min k (length bytes)),
           s\<lparr>os_io := io, os_sent := (os_sent s)(fd := os_sent s fd @ take k bytes)\<rparr>)
      | SysIntr # io \<Rightarrow> (WouldBlock, s\<lparr>os_io := io\<rparr>)
      | SysErr # io \<Rightarrow> (SendFailed, s\<lparr>os_io := io\<rparr>))"

text \<open>What is waiting on a socket: bytes, the end of the stream (no bytes), nothing yet, or an
  error.\<close>

datatype incoming = Incoming "byte list" | NotReady | Broken

section \<open>Removing a client\<close>

text \<open>\<open>size_t\<close> arithmetic.\<close>

definition size_dec :: "nat \<Rightarrow> nat" where
  "size_dec n = (if n = 0 then 2 ^ 64 - 1 else n - 1)"

definition set_client :: "nat \<Rightarrow> client_t \<Rightarrow> sv \<Rightarrow> sv" where
  "set_client fd c s = s\<lparr>clients := (clients s)(fd := c)\<rparr>"

definition remove_client :: "nat \<Rightarrow> sv \<Rightarrow> sv" where
  "remove_client fd s =
     (let s = sys_close (int fd) (el_remove (int fd) s);
          s = set_client fd client_zero s in
      s\<lparr>clients_count := size_dec (clients_count s)\<rparr>)"

section \<open>Answering\<close>

definition queue_write :: "nat \<Rightarrow> byte list \<Rightarrow> sv \<Rightarrow> bool \<times> sv" where
  "queue_write fd data s =
     (let c = clients s fd;
          c = (if WBUF_SIZE < length (c_wbuf c) + length data \<and> 0 < c_woff c
               then c\<lparr>c_wbuf := drop (c_woff c) (c_wbuf c), c_woff := 0\<rparr> else c);
          s = set_client fd c s in
      if WBUF_SIZE < length (c_wbuf c) + length data then (False, s)
      else
        (let buf_was_empty = (c_wbuf c = []);
             c = c\<lparr>c_wbuf := c_wbuf c @ data\<rparr>;
             s = set_client fd c s in
         if buf_was_empty then
           (case sys_send fd (drop (c_woff c) (c_wbuf c)) s of
              (SendFailed, s) \<Rightarrow> (False, remove_client fd s)
            | (WouldBlock, s) \<Rightarrow> (True, snd (el_add_write (int fd) OnWrite s))
            | (Sent n, s) \<Rightarrow>
                (let c = c\<lparr>c_woff := c_woff c + n\<rparr> in
                 if c_woff c = length (c_wbuf c)
                 then (True, set_client fd (c\<lparr>c_woff := 0, c_wbuf := []\<rparr>) s)
                 else (True, snd (el_add_write (int fd) OnWrite (set_client fd c s)))))
         else (True, snd (el_add_write (int fd) OnWrite s))))"

text \<open>\<open>send_framed\<close>; its frame buffer has room for \<open>MSG_MAX\<close> bytes of payload.\<close>

definition frame :: "byte list \<Rightarrow> byte list" where
  "frame payload = be32 (length payload) @ payload"

definition send_framed :: "nat \<Rightarrow> byte list \<Rightarrow> sv \<Rightarrow> (bool \<times> sv) option" where
  "send_framed fd payload s =
     (if MSG_MAX < length payload then None else Some (queue_write fd (frame payload) s))"

section \<open>What the command layer leaves alone\<close>

definition net_view ::
    "sv \<Rightarrow> (nat \<Rightarrow> client_t) \<times> nat \<times> event_loop_t \<times> (nat \<Rightarrow> byte list) \<times> nat set \<times> nat set \<times> server_config_t \<times> int \<times> int \<times>
      (int \<Rightarrow> nat option) \<times> int" where
  "net_view s = (clients s, clients_count s, el s, os_sent s, os_kq_read s, os_kq_write s, config s, snow_ms s,
     now_realtime_ms s, os_fd s, os_next_fd s)"

lemma net_view_proj:
  assumes "net_view s' = net_view s"
  shows "clients s' = clients s" "clients_count s' = clients_count s" "el s' = el s" "os_sent s' = os_sent s"
    "os_kq_read s' = os_kq_read s" "os_kq_write s' = os_kq_write s" "config s' = config s" "snow_ms s' = snow_ms s"
    "now_realtime_ms s' = now_realtime_ms s" "os_fd s' = os_fd s" "os_next_fd s' = os_next_fd s"
  using assms by (simp_all add: net_view_def)

lemma core_net_view:
  assumes "core s' = core s"
  shows "net_view s' = net_view s"
proof -
  have "os_kq_read s' = os_kq_read s" "os_kq_write s' = os_kq_write s"
    using arg_cong[OF assms, of os_kq_read] arg_cong[OF assms, of os_kq_write] by (simp_all add: core_def)
  then show ?thesis by (simp add: net_view_def core_proj[OF assms])
qed

lemma net_view_frame [simp]:
  "net_view (s\<lparr>sdb := db'\<rparr>) = net_view s" "net_view (snd (sys_alloc s)) = net_view s" "net_view (snd (sys_ok s)) = net_view s"
  "net_view (snd (aof_append stack op k v e s)) = net_view s"
  using core_net_view[OF sys_alloc_frame(1)] core_net_view[OF sys_ok_frame(1)] core_net_view[OF aof_append_core]
  by (simp_all add: net_view_def)

lemma net_view_start [simp]: "net_view (snd (aof_rewrite_start pid s)) = net_view s"
  using net_view_frame(2)[of s] net_view_frame(3)[of "snd (sys_alloc s)"]
  by (simp add: aof_rewrite_start_def aof_rewrite_record_failure_def Let_def split_beta net_view_def)

lemma cmd_proc_net_view: "cmd_proc p xe argv r s = Some (r', s') \<Longrightarrow> net_view s' = net_view s"
proof (cases p)
  case CmdKeys
  then show "cmd_proc p xe argv r s = Some (r', s') \<Longrightarrow> ?thesis"
    by (auto simp: cmd_keys_def bind_eq_Some_conv)
qed (auto simp: cmd_get_def cmd_ttl_def cmd_set_def cmd_setex_def cmd_expire_def cmd_persist_def cmd_del_def
    cmd_info_def cmd_bgrewriteaof_def split_beta Let_def bind_eq_Some_conv split: option.splits if_splits)

lemma command_execute_net_view: "command_execute xe payload cap s = Some (resp, s') \<Longrightarrow> net_view s' = net_view s"
  by (auto simp: command_execute_def Let_def dest: cmd_proc_net_view split: if_splits list.splits option.splits)

text \<open>Queueing an answer never lengthens what was read.\<close>

lemma queue_write_buf: "length (c_buf (clients (snd (queue_write fd data s)) fd)) \<le> length (c_buf (clients s fd))"
proof -
  have w: "clients (snd (el_add_write f h s)) = clients s" for f h s by (rule but_el_proj(1)) simp
  have r: "clients (remove_client fd s) fd = client_zero" for s by (simp add: remove_client_def set_client_def Let_def)
  have snd: "clients (snd (sys_send fd bs s)) = clients s" for bs s
    by (simp add: sys_send_def split: list.split sys.split)
  show ?thesis
    by (auto simp: queue_write_def Let_def w r snd[symmetric] set_client_def client_zero_def sys_send_def split: list.split sys.split)
qed


section \<open>Reading\<close>

text \<open>\<open>process_buffer\<close>.\<close>

function process_buffer :: "cmd_env \<Rightarrow> nat \<Rightarrow> sv \<Rightarrow> sv option" where
  "process_buffer xe fd s =
     (let buf = c_buf (clients s fd) in
      if length buf < FRAME_HDR_SIZE then Some s
      else
        (let payload_len = be_dec (take FRAME_HDR_SIZE buf) in
         if MSG_MAX < payload_len then Some (remove_client fd s)
         else if length buf < FRAME_HDR_SIZE + payload_len then Some s
         else
           (case command_execute xe (bytes_at FRAME_HDR_SIZE payload_len buf) MSG_MAX s of
              None \<Rightarrow> None
            | Some (resp, s1) \<Rightarrow>
                (case send_framed fd resp s1 of
                   None \<Rightarrow> None
                 | Some (False, s2) \<Rightarrow> Some s2
                 | Some (True, s2) \<Rightarrow>
                     (let c = clients s2 fd; frame_size = FRAME_HDR_SIZE + payload_len in
                      process_buffer xe fd (set_client fd (c\<lparr>c_buf := drop frame_size (c_buf c)\<rparr>) s2))))))"
  by pat_completeness auto
termination
proof (relation "measure (\<lambda>(xe, fd, s). length (c_buf (clients s fd)))", goal_cases)
  case 1
  then show ?case by simp
next
  case (2 xe fd s buf plen cr resp s1 qr b s2 c n)
  have "length (c_buf (clients s2 fd)) \<le> length (c_buf (clients s1 fd))"
    using 2 queue_write_buf[of fd "frame resp" s1] by (auto simp: send_framed_def split: if_splits)
  also have "clients s1 = clients s" using 2 command_execute_net_view net_view_proj(1) by metis
  finally have "length (c_buf (clients s2 fd)) \<le> length (c_buf (clients s fd))" .
  moreover have "0 < FRAME_HDR_SIZE" by (simp add: FRAME_HDR_SIZE_def)
  ultimately show ?case using 2 by (simp add: set_client_def)
qed

declare process_buffer.simps [simp del]

definition on_write :: "cmd_env \<Rightarrow> nat \<Rightarrow> sv \<Rightarrow> sv option" where
  "on_write xe fd s =
     (let c = clients s fd in
      case sys_send fd (drop (c_woff c) (c_wbuf c)) s of
        (WouldBlock, s) \<Rightarrow> Some s
      | (SendFailed, s) \<Rightarrow> Some (remove_client fd s)
      | (Sent n, s) \<Rightarrow>
          (let c = c\<lparr>c_woff := c_woff c + n\<rparr> in
           if c_woff c = length (c_wbuf c)
           then process_buffer xe fd (el_remove_write (int fd) (set_client fd (c\<lparr>c_woff := 0, c_wbuf := []\<rparr>) s))
           else Some (set_client fd c s)))"

text \<open>\<open>on_read\<close>: a \<open>read\<close> into a buffer without room returns 0.\<close>

definition RBUF_SIZE :: nat where "RBUF_SIZE = MSG_MAX + FRAME_HDR_SIZE"

definition on_read :: "cmd_env \<Rightarrow> incoming \<Rightarrow> nat \<Rightarrow> sv \<Rightarrow> sv option" where
  "on_read xe inc fd s =
     (let c = clients s fd; room = RBUF_SIZE - length (c_buf c) in
      if \<not> c_active c then Some s
      else
        (case inc of
           NotReady \<Rightarrow> Some s
         | Broken \<Rightarrow> Some (remove_client fd s)
         | Incoming bytes \<Rightarrow>
             (let got = take room bytes in
              if got = [] then Some (remove_client fd s)
              else
                process_buffer xe fd
                  (set_client fd (c\<lparr>c_last_active_ms := snow_ms s, c_buf := c_buf c @ got\<rparr>) s))))"

section \<open>Accepting\<close>

text \<open>\<open>on_accept\<close>; \<open>fd\<close> is what \<open>accept\<close> returns, and a file opened later gets another
  descriptor. \<open>set_non_blocking\<close> succeeds or fails.\<close>

definition sys_took_fd :: "int \<Rightarrow> sv \<Rightarrow> sv" where
  "sys_took_fd fd s = s\<lparr>os_next_fd := max (os_next_fd s) (fd + 1)\<rparr>"

definition on_accept :: "int \<Rightarrow> sv \<Rightarrow> sv" where
  "on_accept fd s =
     (if fd = -1 then s
      else if int MAX_FDS \<le> fd then sys_close fd (sys_took_fd fd s)
      else
        (let (ok, s) = sys_ok (sys_took_fd fd s) in
         if \<not> ok then sys_close fd s
         else
           (let s = set_client (nat fd) (client_zero\<lparr>c_active := True, c_last_active_ms := snow_ms s\<rparr>) s;
                s = s\<lparr>clients_count := clients_count s + 1\<rparr>;
                (rc, s) = el_add fd OnRead s in
            if rc = -1
            then (set_client (nat fd) client_zero (sys_close fd s))\<lparr>clients_count := size_dec (clients_count s)\<rparr>
            else s)))"

section \<open>Timeouts\<close>

text \<open>The loop of \<open>check_client_timeouts\<close> over the table.\<close>

function timeouts_loop :: "nat \<Rightarrow> nat \<Rightarrow> sv \<Rightarrow> sv" where
  "timeouts_loop i found s =
     (if i < MAX_FDS \<and> found < clients_count s then
        (if \<not> c_active (clients s i) then timeouts_loop (i + 1) found s
         else
           (let idle_s = wrap64 (snow_ms s - c_last_active_ms (clients s i)) sdiv 1000 in
            timeouts_loop (i + 1) (found + 1)
              (if cfg_client_timeout_s (config s) \<le> idle_s then remove_client i s else s)))
      else s)"
  by pat_completeness auto
termination
  by (relation "measure (\<lambda>(i, _, _). MAX_FDS - i)") auto

declare timeouts_loop.simps [simp del]

definition check_client_timeouts :: "sv \<Rightarrow> sv" where
  "check_client_timeouts s = timeouts_loop 0 0 s"

definition client_timeouts_cron :: "sv \<Rightarrow> sv" where
  "client_timeouts_cron s =
     (let interval_ms = cfg_client_timeout_check_hz (config s) * 1000 sdiv cfg_hz (config s);
          (last, due) = run_every_ms (last_timeout_check_ms s) (snow_ms s) interval_ms;
          s = s\<lparr>last_timeout_check_ms := last\<rparr> in
      if due then check_client_timeouts s else s)"

section \<open>The listening socket\<close>

definition sys_socket :: "sv \<Rightarrow> int \<times> sv" where
  "sys_socket s =
     (let (ok, s) = sys_ok s in
      if \<not> ok then (-1, s) else (os_next_fd s, s\<lparr>os_next_fd := os_next_fd s + 1\<rparr>))"

definition sys_listen :: "int \<Rightarrow> sv \<Rightarrow> bool \<times> sv" where
  "sys_listen fd s =
     (let (ok, s) = sys_ok s in (ok, if ok then s\<lparr>os_listens := os_listens s @ [fd]\<rparr> else s))"

text \<open>\<open>create_listener\<close>: \<open>setsockopt\<close>, \<open>bind\<close>, \<open>listen\<close> and \<open>set_non_blocking\<close> succeed or fail.\<close>

definition create_listener :: "sv \<Rightarrow> int \<times> sv" where
  "create_listener s =
     (let (fd, s) = sys_socket s in
      if fd = -1 then (-1, s)
      else
        (let (ok, s) = sys_ok s in
         if \<not> ok then (-1, sys_close fd s)
         else
           (let (ok, s) = sys_ok s in
            if \<not> ok then (-1, sys_close fd s)
            else
              (let (ok, s) = sys_listen fd s in
               if \<not> ok then (-1, sys_close fd s)
               else
                 (let (ok, s) = sys_ok s in
                  if \<not> ok then (-1, sys_close fd s) else (fd, s))))))"


section \<open>The invariant of the clients\<close>

definition client_ok :: "client_t \<Rightarrow> bool" where
  "client_ok c \<longleftrightarrow>
     length (c_buf c) \<le> RBUF_SIZE \<and> length (c_wbuf c) \<le> WBUF_SIZE \<and>
     (if c_wbuf c = [] then c_woff c = 0 else c_woff c < length (c_wbuf c))"

text \<open>A socket's descriptor: no file is behind it and none will be.\<close>

definition sock_fd :: "sv \<Rightarrow> int \<Rightarrow> bool" where
  "sock_fd s fd \<longleftrightarrow> os_fd s fd = None \<and> fd < os_next_fd s"

lemma sock_fd_frame [simp]:
  "sock_fd (s\<lparr>clients := c\<rparr>) = sock_fd s" "sock_fd (s\<lparr>clients_count := n\<rparr>) = sock_fd s"
  "sock_fd (s\<lparr>el := e\<rparr>) = sock_fd s" "sock_fd (s\<lparr>os_kq_read := kr\<rparr>) = sock_fd s"
  "sock_fd (s\<lparr>os_kq_write := kr\<rparr>) = sock_fd s" "sock_fd (s\<lparr>os_ok := l\<rparr>) = sock_fd s"
  "sock_fd (s\<lparr>os_io := io\<rparr>) = sock_fd s" "sock_fd (s\<lparr>os_sent := snt\<rparr>) = sock_fd s"
  by (simp_all add: sock_fd_def fun_eq_iff)

definition active_fds :: "sv \<Rightarrow> nat set" where
  "active_fds s = {fd. c_active (clients s fd)}"

text \<open>Buffers within their arrays, unused slots zero, the count exact, every client with its read
  handler and no write handler without a client.\<close>

definition net_inv :: "sv \<Rightarrow> bool" where
  "net_inv s \<longleftrightarrow>
     el_inv s \<and> active_fds s \<subseteq> {..<MAX_FDS} \<and> clients_count s = card (active_fds s) \<and>
     (\<forall>fd. if fd \<in> active_fds s
           then client_ok (clients s fd) \<and> el_read_handlers (el s) fd = Some OnRead \<and> sock_fd s (int fd)
           else clients s fd = client_zero \<and> el_write_handlers (el s) fd = None \<and>
                el_read_handlers (el s) fd \<noteq> Some OnRead)"

lemma net_invD:
  assumes "net_inv s"
  shows "el_inv s" "active_fds s \<subseteq> {..<MAX_FDS}" "clients_count s = card (active_fds s)" "finite (active_fds s)"
    "fd \<in> active_fds s \<Longrightarrow> client_ok (clients s fd) \<and> el_read_handlers (el s) fd = Some OnRead \<and> sock_fd s (int fd)"
    "fd \<notin> active_fds s \<Longrightarrow> clients s fd = client_zero \<and> el_write_handlers (el s) fd = None \<and>
       el_read_handlers (el s) fd \<noteq> Some OnRead"
proof -
  show "finite (active_fds s)" by (rule finite_subset[of _ "{..<MAX_FDS}"]) (use assms in \<open>simp_all add: net_inv_def\<close>)
  show "fd \<in> active_fds s \<Longrightarrow> client_ok (clients s fd) \<and> el_read_handlers (el s) fd = Some OnRead \<and> sock_fd s (int fd)"
    "fd \<notin> active_fds s \<Longrightarrow> clients s fd = client_zero \<and> el_write_handlers (el s) fd = None \<and>
       el_read_handlers (el s) fd \<noteq> Some OnRead"
    using assms unfolding net_inv_def by metis+
qed (use assms in \<open>simp_all add: net_inv_def\<close>)

lemma active_iff: "fd \<in> active_fds s \<longleftrightarrow> c_active (clients s fd)"
  by (simp add: active_fds_def)

text \<open>All clients are well formed, the unused slots included.\<close>

lemma client_zero_ok [simp]: "client_ok client_zero" "\<not> c_active client_zero"
  by (simp_all add: client_ok_def client_zero_def)

lemma net_inv_client_ok: "net_inv s \<Longrightarrow> client_ok (clients s fd)"
  using net_invD(5,6)[of s fd] by (cases "fd \<in> active_fds s") auto

lemma net_view_inv: "net_view s' = net_view s \<Longrightarrow> net_inv s' = net_inv s"
  by (simp add: net_view_def net_inv_def el_inv_def active_fds_def sock_fd_def)

lemma net_inv_set_client:
  assumes "net_inv s" "fd \<in> active_fds s" "client_ok c" "c_active c"
  shows "net_inv (set_client fd c s)"
proof -
  have "active_fds (set_client fd c s) = active_fds s" using assms(2,4) by (auto simp: active_fds_def set_client_def)
  then show ?thesis
    using assms(1-3) unfolding net_inv_def by (auto simp: set_client_def el_inv_def)
qed

lemma net_inv_remove:
  assumes "net_inv s" "fd \<in> active_fds s"
  shows "net_inv (remove_client fd s)" "active_fds (remove_client fd s) = active_fds s - {fd}"
    "sdb (remove_client fd s) = sdb s"
proof -
  note n = net_invD[OF assms(1)]
  have fd: "fd < MAX_FDS" using n(2) assms(2) by auto
  let ?s = "remove_client fd s"
  show act: "active_fds ?s = active_fds s - {fd}"
    using fd by (auto simp: active_fds_def remove_client_def set_client_def Let_def sys_close_def el_remove_def)
  have "0 < card (active_fds s)" using n(4) assms(2) by (auto simp: card_gt_0_iff)
  then have cnt: "clients_count ?s = card (active_fds ?s)"
    unfolding act using n(3,4) assms(2) fd
    by (auto simp: remove_client_def set_client_def Let_def sys_close_def el_remove_def size_dec_def)
  have proj: "clients ?s = (clients s)(fd := client_zero)" "\<And>f. sock_fd s f \<Longrightarrow> sock_fd ?s f"
    "el_read_handlers (el ?s) = (el_read_handlers (el s))(fd := None)"
    "el_write_handlers (el ?s) = (el_write_handlers (el s))(fd := None)"
    "sdb ?s = sdb s"
    using fd by (simp_all add: remove_client_def set_client_def Let_def sys_close_def el_remove_def sock_fd_def)
  have eli: "el_inv ?s = el_inv (el_remove (int fd) s)"
    by (rule el_inv_cong) (simp_all add: remove_client_def set_client_def Let_def sys_close_def)
  note eli = el_remove_inv[OF n(1), of "int fd", folded eli]
  show "sdb ?s = sdb s" by (simp add: proj)
  show "net_inv ?s"
    unfolding net_inv_def using proj eli cnt act n(2,5,6) by (auto simp: fun_upd_apply)
qed


section \<open>Queued writes\<close>

lemma add_write_frame [simp]:
  "clients (snd (el_add_write f h s)) = clients s" "os_sent (snd (el_add_write f h s)) = os_sent s"
  "sdb (snd (el_add_write f h s)) = sdb s" "active_fds (snd (el_add_write f h s)) = active_fds s"
  "clients_count (snd (el_add_write f h s)) = clients_count s"
  using but_el_proj(1,2,3,4)[of "snd (el_add_write f h s)" s] by (simp_all add: active_fds_def)

lemma net_inv_add_write:
  assumes "net_inv s" "fd \<in> active_fds s"
  shows "net_inv (snd (el_add_write (int fd) OnWrite s))"
proof -
  let ?s = "snd (el_add_write (int fd) OnWrite s)"
  note n = net_invD[OF assms(1)]
  have frame: "el_read_handlers (el ?s) = el_read_handlers (el s)" "sock_fd ?s = sock_fd s"
    "f \<noteq> fd \<Longrightarrow> el_write_handlers (el ?s) f = el_write_handlers (el s) f" for f
    by (simp_all add: el_add_write_def sys_ok_def sock_fd_def[abs_def] split_beta Let_def split: list.split)
  show ?thesis
    unfolding net_inv_def add_write_frame frame(1,2)
  proof (intro conjI allI)
    fix f
    show "if f \<in> active_fds s then client_ok (clients s f) \<and> el_read_handlers (el s) f = Some OnRead \<and> sock_fd s (int f)
      else clients s f = client_zero \<and> el_write_handlers (el ?s) f = None \<and> el_read_handlers (el s) f \<noteq> Some OnRead"
      using n(5,6)[of f] frame(3)[of f] assms(2) by (cases "f = fd") auto
  qed (use n el_add_write_inv[OF n(1)] in simp_all)
qed

text \<open>What a peer has been sent and what is still queued for it.\<close>

definition outstream :: "sv \<Rightarrow> nat \<Rightarrow> byte list" where
  "outstream s fd = os_sent s fd @ drop (c_woff (clients s fd)) (c_wbuf (clients s fd))"

lemma sys_send_cases:
  obtains (failed) io where "sys_send fd bs s = (SendFailed, s\<lparr>os_io := io\<rparr>)"
    | (again) io where "sys_send fd bs s = (WouldBlock, s\<lparr>os_io := io\<rparr>)"
    | (sent) n io where "sys_send fd bs s =
        (Sent n, s\<lparr>os_io := io, os_sent := (os_sent s)(fd := os_sent s fd @ take n bs)\<rparr>)" "n \<le> length bs"
proof (cases "os_io s")
  case Nil
  then have "sys_send fd bs s = (Sent (length bs), s\<lparr>os_io := os_io s, os_sent := (os_sent s)(fd := os_sent s fd @ take (length bs) bs)\<rparr>)"
    by (cases s) (simp add: sys_send_def)
  then show thesis by (rule sent) simp
next
  case (Cons x io)
  show thesis
  proof (cases x)
    case (SysN k)
    with Cons have "sys_send fd bs s =
        (Sent (min k (length bs)), s\<lparr>os_io := io, os_sent := (os_sent s)(fd := os_sent s fd @ take (min k (length bs)) bs)\<rparr>)"
      by (simp add: sys_send_def min_def)
    then show thesis by (rule sent) simp
  next
    case SysIntr
    with Cons have "sys_send fd bs s = (WouldBlock, s\<lparr>os_io := io\<rparr>)" by (simp add: sys_send_def)
    then show thesis by (rule again)
  next
    case SysErr
    with Cons have "sys_send fd bs s = (SendFailed, s\<lparr>os_io := io\<rparr>)" by (simp add: sys_send_def)
    then show thesis by (rule failed)
  qed
qed

lemma net_inv_ok [simp]: "net_inv (s\<lparr>os_ok := l\<rparr>) = net_inv s" "active_fds (s\<lparr>os_ok := l\<rparr>) = active_fds s"
  by (rule net_view_inv, simp add: net_view_def) (simp add: active_fds_def)

lemma net_inv_os [simp]:
  "net_inv (s\<lparr>os_io := io\<rparr>) = net_inv s" "net_inv (s\<lparr>os_sent := snt\<rparr>) = net_inv s"
  "active_fds (s\<lparr>os_io := io\<rparr>) = active_fds s" "active_fds (s\<lparr>os_sent := snt\<rparr>) = active_fds s"
  by (simp_all add: net_inv_def el_inv_def active_fds_def)

text \<open>What a step on one client does to the others: nothing.\<close>

definition only_client :: "nat \<Rightarrow> sv \<Rightarrow> sv \<Rightarrow> bool" where
  "only_client fd s s' \<longleftrightarrow>
     sdb s' = sdb s \<and> (\<forall>f. f \<noteq> fd \<longrightarrow> clients s' f = clients s f \<and> os_sent s' f = os_sent s f)"

definition queued :: "nat \<Rightarrow> byte list \<Rightarrow> sv \<Rightarrow> bool \<Rightarrow> sv \<Rightarrow> bool" where
  "queued fd data s ok s' \<longleftrightarrow>
     net_inv s' \<and> only_client fd s s' \<and>
     (if ok then fd \<in> active_fds s' \<and> outstream s' fd = outstream s fd @ data \<and> c_buf (clients s' fd) = c_buf (clients s fd)
      else fd \<notin> active_fds s' \<or>
        fd \<in> active_fds s' \<and> outstream s' fd = outstream s fd \<and> c_buf (clients s' fd) = c_buf (clients s fd) \<and>
        WBUF_SIZE < length (drop (c_woff (clients s fd)) (c_wbuf (clients s fd))) + length data)"

lemma queue_write_queued:
  assumes inv: "net_inv s" and act: "fd \<in> active_fds s" and len: "length data \<le> WBUF_SIZE" "data \<noteq> []"
  shows "queued fd data s (fst (queue_write fd data s)) (snd (queue_write fd data s))"
proof -
  let ?c = "clients s fd"
  define c where "c = (if WBUF_SIZE < length (c_wbuf ?c) + length data \<and> 0 < c_woff ?c
    then ?c\<lparr>c_wbuf := drop (c_woff ?c) (c_wbuf ?c), c_woff := 0\<rparr> else ?c)"
  have ok: "client_ok ?c" "c_active ?c" using net_invD(5)[OF inv act] act by (simp_all add: active_iff)
  have c: "client_ok c" "c_active c" "c_buf c = c_buf ?c" "drop (c_woff c) (c_wbuf c) = drop (c_woff ?c) (c_wbuf ?c)"
    using ok by (auto simp: c_def client_ok_def split: if_splits)
  have same: "set_client fd c' (set_client fd c'' s0) = set_client fd c' s0" for c' c'' s0
    by (simp add: set_client_def)
  show ?thesis
  proof (cases "WBUF_SIZE < length (c_wbuf c) + length data")
    case True
    then have q: "queue_write fd data s = (False, set_client fd c s)"
      by (simp add: queue_write_def c_def[symmetric] Let_def)
    have "c_woff c = 0" using True by (auto simp: c_def split: if_splits)
    then have "WBUF_SIZE < length (drop (c_woff ?c) (c_wbuf ?c)) + length data" using True c(4) by simp
    then show ?thesis
      unfolding q using net_inv_set_client[OF inv act c(1,2)] c
      by (simp add: queued_def only_client_def outstream_def set_client_def active_iff)
  next
    case room: False
    let ?d = "c\<lparr>c_wbuf := c_wbuf c @ data\<rparr>"
    let ?s = "set_client fd ?d s"
    have d: "client_ok ?d" "c_active ?d" using c room len by (auto simp: client_ok_def split: if_splits)
    note s = net_inv_set_client[OF inv act d]
    have acts: "fd \<in> active_fds ?s" using d(2) by (simp add: active_iff set_client_def)
    have out: "outstream ?s fd = outstream s fd @ data"
      using c(1,4) by (auto simp: outstream_def set_client_def client_ok_def drop_append split: if_splits)
    have later: "queued fd data s True (snd (el_add_write (int fd) OnWrite s1))"
      if "net_inv s1" "fd \<in> active_fds s1" "only_client fd s s1" "outstream s1 fd = outstream s fd @ data"
        "c_buf (clients s1 fd) = c_buf ?c" for s1
      using net_inv_add_write[OF that(1,2)] that by (simp add: queued_def only_client_def outstream_def)
    have oc: "only_client fd s ?s" "c_buf (clients ?s fd) = c_buf ?c"
      using c(3) by (simp_all add: only_client_def set_client_def)
    show ?thesis
    proof (cases "c_wbuf c = []")
      case False
      then have "queue_write fd data s = (True, snd (el_add_write (int fd) OnWrite ?s))"
        using room by (simp add: queue_write_def c_def[symmetric] Let_def same)
      then show ?thesis using later[OF s acts oc(1) out oc(2)] by simp
    next
      case True
      then have off: "c_woff c = 0" using c(1) by (simp add: client_ok_def)
      have q: "queue_write fd data s =
          (case sys_send fd data ?s of
             (SendFailed, s) \<Rightarrow> (False, remove_client fd s)
           | (WouldBlock, s) \<Rightarrow> (True, snd (el_add_write (int fd) OnWrite s))
           | (Sent n, s) \<Rightarrow>
               if n = length data then (True, set_client fd (?d\<lparr>c_woff := 0, c_wbuf := []\<rparr>) s)
               else (True, snd (el_add_write (int fd) OnWrite (set_client fd (?d\<lparr>c_woff := n\<rparr>) s))))"
        using room True off
        by (auto simp: queue_write_def c_def[symmetric] Let_def same split: prod.split sent.split)
      show ?thesis
      proof (cases rule: sys_send_cases[of fd data ?s])
        case (failed io)
        have "net_inv (?s\<lparr>os_io := io\<rparr>)" "fd \<in> active_fds (?s\<lparr>os_io := io\<rparr>)" using s acts by simp_all
        note r = net_inv_remove[OF this]
        have "only_client fd s (remove_client fd (?s\<lparr>os_io := io\<rparr>))"
          using net_invD(2)[OF s] acts
          by (auto simp: only_client_def remove_client_def set_client_def sys_close_def el_remove_def Let_def)
        then show ?thesis unfolding q failed using r by (simp add: queued_def)
      next
        case (again io)
        have "queued fd data s True (snd (el_add_write (int fd) OnWrite (?s\<lparr>os_io := io\<rparr>)))"
          by (rule later) (use s acts oc out in \<open>simp_all add: only_client_def outstream_def\<close>)
        then show ?thesis unfolding q again by simp
      next
        case (sent n io)
        let ?s1 = "?s\<lparr>os_io := io, os_sent := (os_sent ?s)(fd := os_sent ?s fd @ take n data)\<rparr>"
        have s1: "net_inv ?s1" "fd \<in> active_fds ?s1" using s acts by simp_all
        have empty: "drop (c_woff ?c) (c_wbuf ?c) = []" using c(4) True by simp
        show ?thesis
        proof (cases "n = length data")
          case True
          let ?e = "?d\<lparr>c_woff := 0, c_wbuf := []\<rparr>"
          have "net_inv (set_client fd ?e ?s1)"
            by (rule net_inv_set_client[OF s1]) (use d in \<open>simp_all add: client_ok_def\<close>)
          then show ?thesis
            unfolding q sent(1) using True empty c(3) d(2)
            by (simp add: queued_def only_client_def outstream_def set_client_def active_iff)
        next
          case False
          let ?e = "?d\<lparr>c_woff := n\<rparr>"
          have "net_inv (set_client fd ?e ?s1)"
            by (rule net_inv_set_client[OF s1]) (use d False sent(2) \<open>c_wbuf c = []\<close> in \<open>auto simp: client_ok_def\<close>)
          then have "queued fd data s True (snd (el_add_write (int fd) OnWrite (set_client fd ?e ?s1)))"
            by (rule later) (use False \<open>c_wbuf c = []\<close> empty c(3) d(2) in
                \<open>simp_all add: only_client_def outstream_def set_client_def active_iff\<close>)
          then show ?thesis unfolding q sent(1) using False by simp
        qed
      qed
    qed
  qed
qed


section \<open>Processing what was read\<close>

lemma hdr_sizes: "FRAME_HDR_SIZE = 4" "MSG_MAX = 4096" "WBUF_SIZE = 8200" "RBUF_SIZE = 4100"
  by (simp_all add: FRAME_HDR_SIZE_def MSG_MAX_def WBUF_SIZE_def RBUF_SIZE_def)

lemma frame_length [simp]: "length (frame p) = 4 + length p"
  by (simp add: frame_def be_simps)

lemma frame_nonempty [simp]: "frame p \<noteq> []"
  using frame_length[of p] by (metis add_is_0 list.size(3) zero_neq_numeral)

lemma length_bytes_at_le: "length (bytes_at off n buf) \<le> n"
  by (simp add: bytes_at_def)

lemma client_buf_drop: "client_ok c \<Longrightarrow> client_ok (c\<lparr>c_buf := drop n (c_buf c)\<rparr>)"
  by (auto simp: client_ok_def)

text \<open>The handlers keep what the keyspace operations keep.\<close>

context keyspace_kept begin

text \<open>One pass of the loop over a whole frame.\<close>

lemma process_frame:
  assumes inv: "net_inv s" "P (sdb s)" "fd \<in> active_fds s" and p: "length p \<le> MSG_MAX"
  obtains resp s1 where "command_execute xe p MSG_MAX s = Some (resp, s1)" "length resp \<le> MSG_MAX"
    "net_inv s1" "P (sdb s1)" "fd \<in> active_fds s1" "net_view s1 = net_view s"
    "send_framed fd resp s1 = Some (queue_write fd (frame resp) s1)"
    "queued fd (frame resp) s1 (fst (queue_write fd (frame resp) s1)) (snd (queue_write fd (frame resp) s1))"
proof -
  obtain resp s1 where r: "command_execute xe p MSG_MAX s = Some (resp, s1)" "length resp \<le> MSG_MAX" "P (sdb s1)"
    by (rule command_execute_done[OF p inv(2)])
  note v = command_execute_net_view[OF r(1)]
  have n: "net_inv s1" "fd \<in> active_fds s1"
    using inv net_view_inv[OF v] net_view_proj(1)[OF v] by (simp_all add: active_iff)
  have "length (frame resp) \<le> WBUF_SIZE" using r(2) by (simp add: hdr_sizes)
  from queue_write_queued[OF n this] r n v show thesis
    by (intro that) (simp_all add: send_framed_def)
qed

lemma process_buffer_ok:
  "net_inv s \<Longrightarrow> P (sdb s) \<Longrightarrow> fd \<in> active_fds s \<Longrightarrow>
   \<exists>s'. process_buffer xe fd s = Some s' \<and> net_inv s' \<and> P (sdb s')"
proof (induction xe fd s rule: process_buffer.induct)
  case (1 xe fd s)
  let ?buf = "c_buf (clients s fd)"
  let ?n = "be_dec (take FRAME_HDR_SIZE ?buf)"
  show ?case
  proof (cases "length ?buf < FRAME_HDR_SIZE \<or> MSG_MAX < ?n \<or> length ?buf < FRAME_HDR_SIZE + ?n")
    case True
    then show ?thesis
      using "1.prems" net_inv_remove[OF "1.prems"(1,3)] by (subst process_buffer.simps) (auto simp: Let_def)
  next
    case whole: False
    have len: "length (bytes_at FRAME_HDR_SIZE ?n ?buf) \<le> MSG_MAX"
      using whole length_bytes_at_le[of FRAME_HDR_SIZE ?n ?buf] by linarith
    obtain resp s1 where r: "command_execute xe (bytes_at FRAME_HDR_SIZE ?n ?buf) MSG_MAX s = Some (resp, s1)"
      "net_inv s1" "P (sdb s1)"
      "send_framed fd resp s1 = Some (queue_write fd (frame resp) s1)"
      "queued fd (frame resp) s1 (fst (queue_write fd (frame resp) s1)) (snd (queue_write fd (frame resp) s1))"
      by (rule process_frame[OF "1.prems" len])
    obtain ok s2 where q: "queue_write fd (frame resp) s1 = (ok, s2)" by force
    have s2: "net_inv s2" "sdb s2 = sdb s1" using r(5) q by (simp_all add: queued_def only_client_def)
    show ?thesis
    proof (cases ok)
      case False
      then show ?thesis
        using whole r q s2 by (subst process_buffer.simps) (simp add: Let_def)
    next
      case True
      let ?s3 = "set_client fd ((clients s2 fd)\<lparr>c_buf := drop (FRAME_HDR_SIZE + ?n) (c_buf (clients s2 fd))\<rparr>) s2"
      have act: "fd \<in> active_fds s2" using r(5) q True by (simp add: queued_def)
      then have "net_inv ?s3"
        using net_inv_set_client[OF s2(1) act] client_buf_drop[OF net_inv_client_ok[OF s2(1)]]
        by (simp add: active_iff)
      moreover have "P (sdb ?s3)" "fd \<in> active_fds ?s3"
        using s2(2) r(3) act by (simp_all add: set_client_def active_iff)
      ultimately have "\<exists>s'. process_buffer xe fd ?s3 = Some s' \<and> net_inv s' \<and> P (sdb s')"
        using "1.IH" whole r(1,4) q True by (simp add: Let_def)
      then show ?thesis
        using whole r(1,4) q True by (subst process_buffer.simps) (simp add: Let_def)
    qed
  qed
qed

lemma on_read_ok:
  assumes "net_inv s" "P (sdb s)"
  shows "\<exists>s'. on_read xe inc fd s = Some s' \<and> net_inv s' \<and> P (sdb s')"
proof (cases "\<exists>bytes. inc = Incoming bytes \<and> take (RBUF_SIZE - length (c_buf (clients s fd))) bytes \<noteq> [] \<and> fd \<in> active_fds s")
  case True
  then obtain bytes where b: "inc = Incoming bytes" "take (RBUF_SIZE - length (c_buf (clients s fd))) bytes \<noteq> []"
    and act: "fd \<in> active_fds s" by blast
  let ?c = "(clients s fd)\<lparr>c_last_active_ms := snow_ms s,
      c_buf := c_buf (clients s fd) @ take (RBUF_SIZE - length (c_buf (clients s fd))) bytes\<rparr>"
  have "client_ok ?c" using net_inv_client_ok[OF assms(1), of fd] by (auto simp: client_ok_def)
  then have "net_inv (set_client fd ?c s)"
    using net_inv_set_client[OF assms(1) act] act by (simp add: active_iff)
  moreover have "P (sdb (set_client fd ?c s))" "fd \<in> active_fds (set_client fd ?c s)"
    using assms(2) act by (simp_all add: set_client_def active_iff)
  ultimately show ?thesis
    using process_buffer_ok[of "set_client fd ?c s" fd xe] b act by (simp add: on_read_def Let_def active_iff)
next
  case False
  then show ?thesis
    using assms net_inv_remove[OF assms(1), of fd]
    by (cases inc) (auto simp: on_read_def Let_def active_iff)
qed

end

lemma net_inv_remove_write:
  assumes "net_inv s"
  shows "net_inv (el_remove_write (int fd) s)"
proof -
  note n = net_invD[OF assms]
  have c: "clients (el_remove_write (int fd) s) = clients s" "clients_count (el_remove_write (int fd) s) = clients_count s"
    using but_el_proj(1,2)[of "el_remove_write (int fd) s" s] by simp_all
  have a: "active_fds (el_remove_write (int fd) s) = active_fds s" by (simp add: active_fds_def c)
  show ?thesis
    unfolding net_inv_def a c
  proof (intro conjI allI)
    fix f
    show "if f \<in> active_fds s then client_ok (clients s f) \<and>
        el_read_handlers (el (el_remove_write (int fd) s)) f = Some OnRead \<and> sock_fd (el_remove_write (int fd) s) (int f)
      else clients s f = client_zero \<and> el_write_handlers (el (el_remove_write (int fd) s)) f = None \<and>
        el_read_handlers (el (el_remove_write (int fd) s)) f \<noteq> Some OnRead"
      using n(5,6)[of f] by (auto simp: el_remove_write_def sock_fd_def)
  qed (use n el_remove_write_inv[OF n(1)] in simp_all)
qed

context keyspace_kept begin

lemma on_write_ok:
  assumes inv: "net_inv s" "P (sdb s)" and act: "fd \<in> active_fds s"
  shows "\<exists>s'. on_write xe fd s = Some s' \<and> net_inv s' \<and> P (sdb s')"
proof -
  let ?c = "clients s fd"
  have ok: "client_ok ?c" "c_active ?c" using net_inv_client_ok[OF inv(1)] act by (simp_all add: active_iff)
  show ?thesis
  proof (cases rule: sys_send_cases[of fd "drop (c_woff ?c) (c_wbuf ?c)" s])
    case (failed io)
    have "net_inv (s\<lparr>os_io := io\<rparr>)" "fd \<in> active_fds (s\<lparr>os_io := io\<rparr>)" using inv act by simp_all
    from net_inv_remove[OF this] inv(2) failed show ?thesis by (simp add: on_write_def)
  next
    case (again io)
    with inv show ?thesis by (simp add: on_write_def)
  next
    case (sent n io)
    let ?s = "s\<lparr>os_io := io, os_sent := (os_sent s)(fd := os_sent s fd @ take n (drop (c_woff ?c) (c_wbuf ?c)))\<rparr>"
    have s: "net_inv ?s" "fd \<in> active_fds ?s" using inv(1) act by simp_all
    show ?thesis
    proof (cases "c_woff ?c + n = length (c_wbuf ?c)")
      case True
      let ?s1 = "el_remove_write (int fd) (set_client fd (?c\<lparr>c_woff := 0, c_wbuf := []\<rparr>) ?s)"
      have "net_inv (set_client fd (?c\<lparr>c_woff := 0, c_wbuf := []\<rparr>) ?s)"
        by (rule net_inv_set_client[OF s]) (use ok in \<open>simp_all add: client_ok_def\<close>)
      then have "net_inv ?s1" by (rule net_inv_remove_write)
      moreover have "clients ?s1 = (clients s)(fd := ?c\<lparr>c_woff := 0, c_wbuf := []\<rparr>)" "sdb ?s1 = sdb s"
        using but_el_proj(1,4)[OF but_el_frame(5)] by (simp_all add: set_client_def)
      ultimately show ?thesis
        using process_buffer_ok[of ?s1 fd xe] inv(2) ok(2) True sent by (simp add: on_write_def active_iff Let_def)
    next
      case False
      have "net_inv (set_client fd (?c\<lparr>c_woff := c_woff ?c + n\<rparr>) ?s)"
        by (rule net_inv_set_client[OF s]) (use ok sent(2) False in \<open>auto simp: client_ok_def split: if_splits\<close>)
      then show ?thesis using False sent inv(2) by (simp add: on_write_def set_client_def Let_def)
    qed
  qed
qed

end

text \<open>A descriptor the kernel hands out is not in use.\<close>

definition fresh_fd :: "int \<Rightarrow> sv \<Rightarrow> bool" where
  "fresh_fd fd s \<longleftrightarrow>
     fd = -1 \<or> 0 \<le> fd \<and> nat fd \<notin> active_fds s \<and> os_fd s fd = None \<and> el_read_handlers (el s) (nat fd) = None"

lemma sys_close_none: "os_fd s fd = None \<Longrightarrow> sys_close fd s = s"
  by (cases s) (simp add: sys_close_def fun_upd_idem)

lemma sys_took_fd_inv:
  assumes "net_inv s"
  shows "net_inv (sys_took_fd fd s)"
proof -
  have "sock_fd s f \<Longrightarrow> sock_fd (sys_took_fd fd s) f" for f by (simp add: sock_fd_def sys_took_fd_def less_max_iff_disj)
  then show ?thesis
    using assms by (auto simp: net_inv_def sys_took_fd_def el_inv_def active_fds_def)
qed

lemma on_accept_ok:
  assumes inv: "net_inv s" and fresh: "fresh_fd fd s"
  shows "net_inv (on_accept fd s)" "sdb (on_accept fd s) = sdb s"
proof -
  let ?t = "sys_took_fd fd s"
  obtain b l where ok: "sys_ok ?t = (b, ?t\<lparr>os_ok := l\<rparr>)" by (rule sys_ok_shape)
  have inv': "net_inv ?t" by (rule sys_took_fd_inv[OF inv])
  have same: "clients ?t = clients s" "clients_count ?t = clients_count s" "el ?t = el s" "os_fd ?t = os_fd s"
    "snow_ms ?t = snow_ms s" "sdb ?t = sdb s" "active_fds ?t = active_fds s" "os_kq_read ?t = os_kq_read s"
    by (simp_all add: sys_took_fd_def active_fds_def)
  have "net_inv (on_accept fd s) \<and> sdb (on_accept fd s) = sdb s"
  proof (cases "0 \<le> fd \<and> fd < int MAX_FDS \<and> b")
    case False
    then show ?thesis
      using inv inv' fresh ok same by (auto simp: on_accept_def fresh_fd_def sys_close_none)
  next
    case True
    define n where "n = nat fd"
    then have fd: "fd = int n" "n < MAX_FDS" using True by (simp_all add: nat_less_iff)
    let ?c = "client_zero\<lparr>c_active := True, c_last_active_ms := snow_ms s\<rparr>"
    let ?s1 = "?t\<lparr>os_ok := l, clients := (clients s)(n := ?c), clients_count := clients_count s + 1\<rparr>"
    note i = net_invD[OF inv', unfolded same]
    have new: "n \<notin> active_fds s" "os_fd s (int n) = None" "el_read_handlers (el s) n = None"
      using fresh fd by (auto simp: fresh_fd_def)
    have sock: "sock_fd ?t (int n)" using new(2) fd(1) by (simp add: sock_fd_def sys_took_fd_def)
    have zero: "clients s n = client_zero" using i(6)[OF new(1)] by simp
    obtain b2 l2 where ok2: "sys_ok ?s1 = (b2, ?s1\<lparr>os_ok := l2\<rparr>)" by (rule sys_ok_shape)
    have ac: "on_accept fd s =
        (if b2 then ?s1\<lparr>os_ok := l2, os_kq_read := insert n (os_kq_read s),
                       el := (el s)\<lparr>el_read_handlers := (el_read_handlers (el s))(n \<mapsto> OnRead)\<rparr>\<rparr>
         else ?t\<lparr>os_ok := l2\<rparr>)"
      using True fd ok ok2 new(2) zero
      by (cases s) (simp add: on_accept_def el_add_def set_client_def sys_close_def size_dec_def sys_took_fd_def fun_upd_idem)
    show ?thesis
    proof (cases b2)
      case False
      with ac inv' same show ?thesis by simp
    next
      case b2: True
      let ?s2 = "on_accept fd s"
      have act: "active_fds ?s2 = insert n (active_fds s)" using ac b2 by (auto simp: active_fds_def)
      have "clients_count ?s2 = card (active_fds ?s2)"
        unfolding act using ac b2 i(3,4) new(1) by simp
      moreover have "el_inv ?s2" using i(1) fd(2) ac b2 same by (auto simp: el_inv_def)
      moreover have "client_ok ?c" by (simp add: client_ok_def client_zero_def)
      moreover have "sock_fd ?s2 = sock_fd ?t" using ac b2 by simp
      ultimately show ?thesis
        unfolding net_inv_def act using ac b2 i(2,5,6) fd(2) sock same by auto
    qed
  qed
  then show "net_inv (on_accept fd s)" "sdb (on_accept fd s) = sdb s" by simp_all
qed

lemma remove_client_frame:
  "f \<noteq> fd \<Longrightarrow> clients (remove_client fd s) f = clients s f" "snow_ms (remove_client fd s) = snow_ms s"
  "config (remove_client fd s) = config s" "sdb (remove_client fd s) = sdb s"
  by (simp_all add: remove_client_def set_client_def sys_close_def Let_def but_el_proj(1,4,5,6)[OF but_el_frame(4)])

definition idle_out :: "sv \<Rightarrow> nat \<Rightarrow> bool" where
  "idle_out s fd \<longleftrightarrow>
     c_active (clients s fd) \<and>
     cfg_client_timeout_s (config s) \<le> wrap64 (snow_ms s - c_last_active_ms (clients s fd)) sdiv 1000"

text \<open>Only clients that have been idle for too long are removed.\<close>

lemma timeouts_loop_ok:
  "net_inv s \<Longrightarrow>
   net_inv (timeouts_loop i found s) \<and> sdb (timeouts_loop i found s) = sdb s \<and>
   (\<forall>fd. clients (timeouts_loop i found s) fd = clients s fd \<or>
         idle_out s fd \<and> clients (timeouts_loop i found s) fd = client_zero)"
proof (induction i found s rule: timeouts_loop.induct)
  case (1 i found s)
  let ?go = "i < MAX_FDS \<and> found < clients_count s"
  show ?case
  proof (cases "?go \<and> c_active (clients s i)")
    case False
    show ?thesis
    proof (cases ?go)
      case stop: False
      then have "timeouts_loop i found s = s" by (subst timeouts_loop.simps) (simp only: if_False)
      then show ?thesis using "1.prems" by simp
    next
      case go: True
      with False have "timeouts_loop i found s = timeouts_loop (i + 1) found s"
        by (subst timeouts_loop.simps) simp
      then show ?thesis using "1.IH"(1)[OF go] False go "1.prems" by simp
    qed
  next
    case True
    let ?s = "if idle_out s i then remove_client i s else s"
    have eq: "timeouts_loop i found s = timeouts_loop (i + 1) (found + 1) ?s"
      using True by (subst timeouts_loop.simps) (simp add: idle_out_def)
    have inv: "net_inv ?s"
      using "1.prems" net_inv_remove(1)[OF "1.prems", of i] True by (simp add: active_iff)
    have zero: "clients (remove_client i s) i = client_zero"
      by (simp add: remove_client_def set_client_def Let_def)
    have "net_inv (timeouts_loop (i + 1) (found + 1) ?s) \<and> sdb (timeouts_loop (i + 1) (found + 1) ?s) = sdb ?s \<and>
       (\<forall>fd. clients (timeouts_loop (i + 1) (found + 1) ?s) fd = clients ?s fd \<or>
         idle_out ?s fd \<and> clients (timeouts_loop (i + 1) (found + 1) ?s) fd = client_zero)"
      using "1.IH"(2) True inv by (simp add: idle_out_def)
    moreover have "clients ?s fd = clients s fd \<or> fd = i \<and> idle_out s i \<and> clients ?s fd = client_zero" for fd
      using zero remove_client_frame(1)[of fd i s] by auto
    moreover have "idle_out ?s fd \<Longrightarrow> idle_out s fd" for fd
      using zero remove_client_frame(1)[of fd i s] remove_client_frame(2,3)[of i s]
      by (cases "fd = i") (auto simp: idle_out_def split: if_splits)
    moreover have "sdb ?s = sdb s" by (simp add: remove_client_frame(4))
    ultimately show ?thesis unfolding eq by metis
  qed
qed


section \<open>The wire format\<close>

definition take_frame :: "byte list \<Rightarrow> (byte list \<times> byte list) option" where
  "take_frame bs =
     (let n = be_dec (take FRAME_HDR_SIZE bs) in
      if length bs < FRAME_HDR_SIZE \<or> MSG_MAX < n \<or> length bs < FRAME_HDR_SIZE + n then None
      else Some (bytes_at FRAME_HDR_SIZE n bs, drop (FRAME_HDR_SIZE + n) bs))"

lemma frame_fields:
  assumes "length p \<le> MSG_MAX"
  shows "be_dec (take FRAME_HDR_SIZE (frame p @ rest)) = length p"
    "bytes_at FRAME_HDR_SIZE (length p) (frame p @ rest) = p" "drop (FRAME_HDR_SIZE + length p) (frame p @ rest) = rest"
proof -
  have l: "length (be32 (length p)) = 4" "length p < 2 ^ 32" using assms by (simp_all add: be_simps hdr_sizes)
  then show "be_dec (take FRAME_HDR_SIZE (frame p @ rest)) = length p"
    using be_dec_be32[of "length p"] by (simp add: frame_def hdr_sizes)
  show "bytes_at FRAME_HDR_SIZE (length p) (frame p @ rest) = p" "drop (FRAME_HDR_SIZE + length p) (frame p @ rest) = rest"
    using l by (simp_all add: frame_def hdr_sizes bytes_at_def)
qed

interpretation wire: framing "\<lambda>p. length p \<le> MSG_MAX" frame take_frame
proof unfold_locales
  fix p rest torn :: "byte list"
  assume p: "length p \<le> MSG_MAX"
  show "take_frame (frame p @ rest) = Some (p, rest)"
    using frame_fields[OF p, of rest] p by (simp add: take_frame_def Let_def hdr_sizes)
  assume torn: "strict_prefix torn (frame p)"
  then obtain r where r: "frame p = torn @ r" "r \<noteq> []" by (auto simp: strict_prefix_def prefix_def)
  have less: "length torn < 4 + length p" using arg_cong[OF r(1), of length] r(2) by simp
  show "take_frame torn = None"
  proof (cases "length torn < FRAME_HDR_SIZE")
    case False
    then have "take FRAME_HDR_SIZE torn = take FRAME_HDR_SIZE (frame p @ [])" unfolding r(1) by simp
    then have "be_dec (take FRAME_HDR_SIZE torn) = length p" using frame_fields(1)[OF p, of "[]"] by simp
    with less show ?thesis by (simp add: take_frame_def hdr_sizes)
  qed (simp add: take_frame_def)
qed

section \<open>Commands do not look at the clients\<close>

definition renet :: "(nat \<Rightarrow> client_t) \<Rightarrow> (nat \<Rightarrow> byte list) \<Rightarrow> sv \<Rightarrow> sv" where
  "renet c t s = s\<lparr>clients := c, os_sent := t\<rparr>"

lemma renet_proj [simp]:
  "clients (renet c t s) = c" "os_sent (renet c t s) = t" "sdb (renet c t s) = sdb s" "config (renet c t s) = config s"
  "now_realtime_ms (renet c t s) = now_realtime_ms s" "snow_ms (renet c t s) = snow_ms s"
  "aof_rewrite_state (renet c t s) = aof_rewrite_state s" "aof_fd (renet c t s) = aof_fd s" "el (renet c t s) = el s"
  "os_io (renet c t s) = os_io s" "renet c t (renet c' t' s) = renet c t s" "renet c t (s\<lparr>sdb := db'\<rparr>) = (renet c t s)\<lparr>sdb := db'\<rparr>"
  by (simp_all add: renet_def)

lemma set_client_renet [simp]: "set_client fd c (renet cs t s) = renet (cs(fd := c)) t s"
  by (cases s) (simp add: renet_def set_client_def)

lemma renet_sys:
  "sys_ok (renet c t s) = map_prod id (renet c t) (sys_ok s)"
  "sys_alloc (renet c t s) = map_prod id (renet c t) (sys_alloc s)"
  "sys_write_all fd bs (renet c t s) = map_prod id (renet c t) (sys_write_all fd bs s)"
  "sys_kill_child (renet c t s) = renet c t (sys_kill_child s)"
  by (simp_all add: sys_ok_def sys_alloc_def sys_write_all_def sys_kill_child_def sig_shutdown_handler_def renet_def
      split: list.split option.split prod.split child.split)

lemma renet_flush: "sys_flush fd (renet c t s) = map_prod id (renet c t) (sys_flush fd s)"
  by (simp add: sys_flush_def renet_sys(1) split_beta Let_def) (simp add: renet_def split: option.split)

lemma renet_count: "count_fsync (b, renet c t s) = map_prod id (renet c t) (count_fsync (b, s))"
  by (simp add: count_fsync_def renet_def)

lemma renet_durable_flush: "durable_flush fd (renet c t s) = map_prod id (renet c t) (durable_flush fd s)"
proof -
  have p: "os_platform (renet c t s) = os_platform s" by (simp add: renet_def)
  show ?thesis
    by (simp add: durable_flush_def renet_flush p split_beta Let_def map_prod_def renet_count[simplified]
        split: aof_fsync_mode_t.split)
qed

lemma renet_emit:
  "aof_emit_live bs (renet c t s) = map_prod id (renet c t) (aof_emit_live bs s)"
  "aof_emit_diff bs (renet c t s) = renet c t (aof_emit_diff bs s)"
  "aof_maybe_fsync_always (renet c t s) = map_prod id (renet c t) (aof_maybe_fsync_always s)"
proof -
  show "aof_emit_live bs (renet c t s) = map_prod id (renet c t) (aof_emit_live bs s)"
    by (simp add: aof_emit_live_def renet_sys split_beta Let_def) (simp add: renet_def)
  have ab: "aof_abort_rewrite (renet c t s) = renet c t (aof_abort_rewrite s)" for s
    by (simp add: aof_abort_rewrite_def renet_sys) (simp add: renet_def)
  have "aof_rewrite_buf (renet c t s) = aof_rewrite_buf s" "aof_rewrite_cap (renet c t s) = aof_rewrite_cap s"
    by (simp_all add: renet_def)
  then show "aof_emit_diff bs (renet c t s) = renet c t (aof_emit_diff bs s)"
    by (simp add: aof_emit_diff_def ab renet_sys split_beta Let_def) (simp add: renet_def)
  show "aof_maybe_fsync_always (renet c t s) = map_prod id (renet c t) (aof_maybe_fsync_always s)"
    by (simp add: aof_maybe_fsync_always_def renet_durable_flush split_beta Let_def) (simp add: renet_def)
qed

lemma renet_append:
  "aof_append stack op k v e (renet c t s) = map_prod id (renet c t) (aof_append stack op k v e s)"
proof -
  have d: "(renet c t s)\<lparr>aof_buf_dirty := True\<rparr> = renet c t (s\<lparr>aof_buf_dirty := True\<rparr>)" for s by (simp add: renet_def)
  show ?thesis
    by (simp add: aof_append_def renet_emit d split_beta Let_def split: option.split)
qed

lemma renet_start: "aof_rewrite_start pid (renet c t s) = map_prod id (renet c t) (aof_rewrite_start pid s)"
  by (simp add: aof_rewrite_start_def renet_sys split_beta Let_def)
    (simp add: aof_rewrite_record_failure_def renet_def Let_def)


lemma renet_cmd_proc:
  "cmd_proc p xe argv r (renet c t s) = map_option (map_prod id (renet c t)) (cmd_proc p xe argv r s)"
proof (cases p)
  case CmdInfo
  then show ?thesis by (simp add: cmd_info_def Let_def) (simp add: renet_def)
next
  case CmdKeys
  then show ?thesis
    by (cases "ht_iter_loop keys_entry (ht_iter_create (db_keyspace (sdb s))) (r, 0)")
      (simp_all add: cmd_keys_def split_beta)
next
  case CmdBgrewriteaof
  then show ?thesis by (simp add: cmd_bgrewriteaof_def renet_start split_beta)
next
  case CmdGet
  then show ?thesis
    by (cases "arg argv 1") (simp_all add: cmd_get_def split_beta Let_def split: option.split)
next
  case CmdTtl
  then show ?thesis by (cases "arg argv 1") (simp_all add: cmd_ttl_def split_beta Let_def)
next
  case CmdPersist
  then show ?thesis
    by (cases "arg argv 1")
      (simp_all add: cmd_persist_def split_beta Let_def renet_append flip: renet_proj(12))
next
  case CmdDel
  then show ?thesis
    by (cases "arg argv 1")
      (simp_all add: cmd_del_def split_beta Let_def renet_append flip: renet_proj(12))
next
  case CmdSet
  then show ?thesis
    by (cases "arg argv 1"; cases "arg argv 2")
      (simp_all add: cmd_set_def split_beta Let_def renet_append renet_sys flip: renet_proj(12))
next
  case CmdSetex
  then show ?thesis
    by (cases "arg argv 1"; cases "arg argv 2"; cases "arg argv 3")
      (simp_all add: cmd_setex_def split_beta Let_def renet_append renet_sys flip: renet_proj(12) split: option.split)
next
  case CmdExpire
  then show ?thesis
    by (cases "arg argv 1"; cases "arg argv 2")
      (simp_all add: cmd_expire_def split_beta Let_def renet_append renet_sys flip: renet_proj(12) split: option.split)
qed

lemma renet_command_execute:
  "command_execute xe p cap (renet c t s) = map_option (map_prod id (renet c t)) (command_execute xe p cap s)"
  by (simp add: command_execute_def Let_def renet_cmd_proc option.map_comp o_def split_beta split: list.split option.split)

lemma renet_execute_all:
  "execute_all xe cap ps (renet c t s) = map_option (map_prod id (renet c t)) (execute_all xe cap ps s)"
proof (induction ps arbitrary: s)
  case (Cons p ps)
  show ?case
  proof (cases "command_execute xe p cap s")
    case (Some rs)
    obtain resp s1 where "rs = (resp, s1)" by force
    with Some Cons.IH[of s1] show ?thesis
      by (cases "execute_all xe cap ps s1") (auto simp: renet_command_execute)
  qed (simp add: renet_command_execute)
qed simp

lemma command_execute_well:
  assumes "all_well s" "command_execute xe p cap s = Some (resp, s')"
  shows "all_well s'"
proof -
  have "all_well s1" if "cmd_proc c xe argv r s = Some (r', s1)" for c argv r r' s1
  proof (cases c)
    case CmdKeys
    with that assms(1) show ?thesis by (auto simp: cmd_keys_def bind_eq_Some_conv)
  qed (use that assms(1) start_well[OF assms(1)] all_well_append in \<open>auto simp: cmd_get_def cmd_ttl_def cmd_set_def
      cmd_setex_def cmd_expire_def cmd_persist_def cmd_del_def cmd_info_def cmd_bgrewriteaof_def
      all_well_calls split_beta Let_def bind_eq_Some_conv split: option.splits if_splits\<close>)
  with assms show ?thesis
    by (auto simp: command_execute_def Let_def split: if_splits list.splits option.splits)
qed

text \<open>An answer to a client that has nothing queued goes out at once.\<close>

lemma queue_write_direct:
  assumes "os_io s = []" "c_wbuf (clients s fd) = []" "c_woff (clients s fd) = 0" "length data \<le> WBUF_SIZE"
  shows "queue_write fd data s = (True, renet (clients s) ((os_sent s)(fd := os_sent s fd @ data)) s)"
proof -
  have "(clients s fd)\<lparr>c_woff := 0, c_wbuf := []\<rparr> = clients s fd" using assms(2,3) by (cases "clients s fd") simp
  with assms show ?thesis
    by (cases s) (auto simp: queue_write_def sys_send_def set_client_def renet_def Let_def fun_upd_idem)
qed

text \<open>Frames that have arrived are executed in the order of their arrival and answered in it.\<close>

lemma process_buffer_in_order:
  assumes "all_well s" "net_inv s" "db_inv (sdb s)" "fd \<in> active_fds s" "c_wbuf (clients s fd) = []"
    and "c_buf (clients s fd) = concat (map frame ps) @ tail" "\<forall>p \<in> set ps. length p \<le> MSG_MAX"
    and "take_frame tail = None" "length tail < FRAME_HDR_SIZE \<or> be_dec (take FRAME_HDR_SIZE tail) \<le> MSG_MAX"
  shows "\<exists>resps s'. execute_all xe MSG_MAX ps s = Some (resps, s') \<and>
    process_buffer xe fd s =
      Some (renet ((clients s)(fd := (clients s fd)\<lparr>c_buf := tail\<rparr>))
                  ((os_sent s)(fd := os_sent s fd @ concat (map frame resps))) s')"
  using assms
proof (induction ps arbitrary: s)
  case Nil
  have "process_buffer xe fd s = Some s"
    using Nil.prems(6,8,9) by (subst process_buffer.simps) (auto simp: take_frame_def Let_def split: if_splits)
  moreover have "renet ((clients s)(fd := (clients s fd)\<lparr>c_buf := tail\<rparr>)) 
      ((os_sent s)(fd := os_sent s fd @ concat (map frame []))) s = s"
    using Nil.prems(6) by (cases s) (auto simp: renet_def fun_upd_idem)
  ultimately show ?case by (intro exI[of _ "[]"] exI[of _ s] conjI) (simp_all only: execute_all.simps)
next
  case (Cons p ps)
  let ?rest = "concat (map frame ps) @ tail"
  have p: "length p \<le> MSG_MAX" and buf: "c_buf (clients s fd) = frame p @ ?rest" using Cons.prems by simp_all
  note fields = frame_fields[OF p, of ?rest, folded buf]
  obtain resp s1 where r: "command_execute xe p MSG_MAX s = Some (resp, s1)" "length resp \<le> MSG_MAX"
    "net_inv s1" "db_inv (sdb s1)" "fd \<in> active_fds s1" "net_view s1 = net_view s"
    "send_framed fd resp s1 = Some (queue_write fd (frame resp) s1)"
    by (rule invk.process_frame[OF Cons.prems(2-4) p])
  note v = net_view_proj[OF r(6)]
  have well: "all_well s1" by (rule command_execute_well[OF Cons.prems(1) r(1)])
  have "client_ok (clients s fd)" by (rule net_inv_client_ok[OF Cons.prems(2)])
  then have off: "c_woff (clients s fd) = 0" using Cons.prems(5) by (simp add: client_ok_def)
  have q: "queue_write fd (frame resp) s1 = (True, renet (clients s) ((os_sent s)(fd := os_sent s fd @ frame resp)) s1)"
    using queue_write_direct[of s1 fd "frame resp"] well r(2) Cons.prems(5) off v(1,4)
    by (simp add: all_well_def hdr_sizes)
  let ?c = "(clients s fd)\<lparr>c_buf := ?rest\<rparr>"
  let ?s2 = "renet ((clients s)(fd := ?c)) ((os_sent s)(fd := os_sent s fd @ frame resp)) s1"
  have step: "process_buffer xe fd s = process_buffer xe fd ?s2"
    using r(1,7) q fields p buf
    by (subst process_buffer.simps) (simp add: Let_def hdr_sizes)
  have "net_inv (set_client fd ?c s1)"
    by (rule net_inv_set_client[OF r(3,5)])
      (use \<open>client_ok (clients s fd)\<close> buf Cons.prems(4) in \<open>simp_all add: client_ok_def active_iff\<close>)
  moreover have "?s2 = (set_client fd ?c s1)\<lparr>os_sent := (os_sent s)(fd := os_sent s fd @ frame resp)\<rparr>"
    using v(1) by (simp add: renet_def set_client_def)
  ultimately have inv2: "net_inv ?s2" by simp
  have "\<exists>resps s'. execute_all xe MSG_MAX ps ?s2 = Some (resps, s') \<and>
      process_buffer xe fd ?s2 = Some (renet ((clients ?s2)(fd := (clients ?s2 fd)\<lparr>c_buf := tail\<rparr>))
        ((os_sent ?s2)(fd := os_sent ?s2 fd @ concat (map frame resps))) s')"
    by (rule Cons.IH)
      (use well inv2 r(4) Cons.prems in \<open>simp_all add: all_well_def active_iff renet_def\<close>)
  then obtain resps s3 where "execute_all xe MSG_MAX ps s1 = Some (resps, s3)"
      "process_buffer xe fd ?s2 = Some (renet ((clients s)(fd := (clients s fd)\<lparr>c_buf := tail\<rparr>))
        ((os_sent s)(fd := os_sent s fd @ frame resp @ concat (map frame resps))) s3)"
    by (auto simp: renet_execute_all)
  with step r(1) show ?case by (intro exI[of _ "resp # resps"] exI[of _ s3]) (simp add: fun_upd_def)
qed


text \<open>When the answer does not fit the write buffer, the command has been carried out but its frame
  stays in the read buffer.\<close>

lemma queue_write_full:
  assumes "net_inv s" "fd \<in> active_fds s"
    and "WBUF_SIZE < length (drop (c_woff (clients s fd)) (c_wbuf (clients s fd))) + length data"
  obtains c where "queue_write fd data s = (False, set_client fd c s)" "c_buf c = c_buf (clients s fd)" "c_active c"
proof -
  let ?c = "clients s fd"
  let ?d = "if WBUF_SIZE < length (c_wbuf ?c) + length data \<and> 0 < c_woff ?c
    then ?c\<lparr>c_wbuf := drop (c_woff ?c) (c_wbuf ?c), c_woff := 0\<rparr> else ?c"
  have "WBUF_SIZE < length (c_wbuf ?d) + length data" using assms(3) by auto
  then have "queue_write fd data s = (False, set_client fd ?d s)" by (simp add: queue_write_def Let_def)
  then show thesis by (rule that) (use assms(2) in \<open>simp_all add: active_iff\<close>)
qed

lemma process_buffer_full:
  assumes inv: "net_inv s" "fd \<in> active_fds s" "db_inv (sdb s)" and p: "length p \<le> MSG_MAX"
    and buf: "c_buf (clients s fd) = frame p @ rest"
    and ex: "command_execute xe p MSG_MAX s = Some (resp, s1)"
    and full: "WBUF_SIZE < length (drop (c_woff (clients s fd)) (c_wbuf (clients s fd))) + length (frame resp)"
  shows "\<exists>s'. process_buffer xe fd s = Some s' \<and> c_buf (clients s' fd) = frame p @ rest \<and>
    sdb s' = sdb s1 \<and> os_sent s' = os_sent s \<and> fd \<in> active_fds s'"
proof -
  note v = net_view_proj[OF command_execute_net_view[OF ex]]
  have "net_inv s1" "fd \<in> active_fds s1"
    using inv net_view_inv[OF command_execute_net_view[OF ex]] v(1) by (simp_all add: active_iff)
  then obtain c where q: "queue_write fd (frame resp) s1 = (False, set_client fd c s1)"
      "c_buf c = c_buf (clients s fd)" "c_active c"
    using queue_write_full[of s1 fd "frame resp"] full v(1) by metis
  have "length resp \<le> MSG_MAX" using invk.command_execute_done[OF p inv(3), of xe MSG_MAX] ex by auto
  then have "process_buffer xe fd s = Some (set_client fd c s1)"
    using frame_fields[OF p, of rest, folded buf] p buf ex q(1)
    by (subst process_buffer.simps) (simp add: Let_def hdr_sizes send_framed_def)
  then show ?thesis using q buf v(4) by (simp add: set_client_def active_iff)
qed

text \<open>A read buffer without room makes the next read look like the end of the stream.\<close>

lemma on_read_full:
  "c_active (clients s fd) \<Longrightarrow> length (c_buf (clients s fd)) = RBUF_SIZE \<Longrightarrow>
   on_read xe (Incoming bytes) fd s = Some (remove_client fd s)"
  by (simp add: on_read_def Let_def)

lemma timeouts_skip:
  assumes "i \<le> j" "j \<le> MAX_FDS" "found < clients_count s" "\<forall>k. i \<le> k \<and> k < j \<longrightarrow> \<not> c_active (clients s k)"
  shows "timeouts_loop i found s = timeouts_loop j found s"
  using assms(1,4)
proof (induction i rule: inc_induct)
  case (step i)
  then have "timeouts_loop i found s = timeouts_loop (Suc i) found s"
    using assms(2,3) by (subst timeouts_loop.simps) simp
  with step show ?case by simp
qed simp

text \<open>Of two clients that have both been idle for too long, the loop reaches only the first.\<close>

lemma timeouts_miss_second:
  assumes inv: "net_inv s" and act: "active_fds s = {i, j}" "i < j" and idle: "idle_out s i" "idle_out s j"
  shows "active_fds (check_client_timeouts s) = {j}"
proof -
  note n = net_invD[OF inv]
  have i: "i < MAX_FDS" "i \<in> active_fds s" using n(2) act by auto
  have cnt: "clients_count s = 2" using n(3) act by simp
  have "timeouts_loop 0 0 s = timeouts_loop i 0 s"
    by (rule timeouts_skip) (use i cnt act in \<open>auto simp: active_iff[symmetric]\<close>)
  also have "\<dots> = timeouts_loop (i + 1) 1 (remove_client i s)"
    using i cnt idle(1) by (subst timeouts_loop.simps) (simp add: idle_out_def)
  also have "\<dots> = remove_client i s"
  proof -
    note r = net_inv_remove[OF inv i(2)]
    have "clients_count (remove_client i s) = 1" using net_invD(3)[OF r(1)] r(2) act by auto
    then show ?thesis by (subst timeouts_loop.simps) simp
  qed
  finally show ?thesis
    using net_inv_remove(2)[OF inv i(2)] act by (auto simp: check_client_timeouts_def)
qed

section \<open>Properties\<close>

text \<open>A server with one client on descriptor 5.\<close>

definition one_client :: "byte list \<Rightarrow> sv" where
  "one_client buf =
     (server_zero Apple)\<lparr>clients := (\<lambda>_. client_zero)(5 := client_zero\<lparr>c_active := True, c_buf := buf\<rparr>),
        clients_count := 1, os_kq_read := {5}, os_next_fd := 6,
        el := \<lparr>el_read_handlers = [5 \<mapsto> OnRead], el_write_handlers = Map.empty, el_poll_timeout_ms = 100,
              el_stop = False\<rparr>\<rparr>"

lemma one_client_facts:
  "length buf \<le> RBUF_SIZE \<Longrightarrow> net_inv (one_client buf)" "db_inv (sdb (one_client buf))" "active_fds (one_client buf) = {5}"
  "all_well (one_client buf)" "clients (one_client buf) 5 = client_zero\<lparr>c_active := True, c_buf := buf\<rparr>"
  "os_sent (one_client buf) 5 = []" "sdb (one_client buf) = db_create 0"
proof -
  show act: "active_fds (one_client buf) = {5}"
    by (auto simp: active_fds_def one_client_def client_zero_def)
  show "net_inv (one_client buf)" if "length buf \<le> RBUF_SIZE"
    unfolding net_inv_def act
    using that by (simp add: one_client_def el_inv_def client_ok_def client_zero_def server_zero_def net_sizes sock_fd_def)
qed (simp_all add: one_client_def server_zero_def db_create_inv all_well_def)

text \<open>C17: When no call fails and no answer is still queued for the client, the frames that have
  arrived together are executed in the order of their arrival, each once, and their answers are
  sent in that order; an incomplete frame behind them stays in the buffer. (With a full write
  buffer a command is executed again: \<open>process_buffer_full\<close>.)\<close>

theorem frames_in_order:
  assumes "all_well s" "net_inv s" "db_inv (sdb s)" "fd \<in> active_fds s" "c_wbuf (clients s fd) = []"
    and "c_buf (clients s fd) = concat (map frame ps) @ tail" "\<forall>p \<in> set (q # ps). length p \<le> MSG_MAX"
    and "strict_prefix tail (frame q)"
  shows "\<exists>resps s1 s'. execute_all xe MSG_MAX ps s = Some (resps, s1) \<and> process_buffer xe fd s = Some s' \<and>
    sdb s' = sdb s1 \<and> os_sent s' fd = os_sent s fd @ concat (map frame resps) \<and> c_buf (clients s' fd) = tail"
proof -
  have torn: "take_frame tail = None" using wire.take_torn[of q tail] assms(7,8) by simp
  have hdr: "length tail < FRAME_HDR_SIZE \<or> be_dec (take FRAME_HDR_SIZE tail) \<le> MSG_MAX"
  proof (cases "length tail < FRAME_HDR_SIZE")
    case False
    obtain r where "frame q = tail @ r" using assms(8) by (auto simp: strict_prefix_def prefix_def)
    with False have "take FRAME_HDR_SIZE tail = take FRAME_HDR_SIZE (frame q @ [])" by simp
    then show ?thesis using frame_fields(1)[of q "[]"] assms(7) by simp
  qed simp
  have "\<forall>p \<in> set ps. length p \<le> MSG_MAX" using assms(7) by simp
  from process_buffer_in_order[OF assms(1-6) this torn hdr, of xe] obtain resps s1 s'
    where r: "execute_all xe MSG_MAX ps s = Some (resps, s1)" "process_buffer xe fd s = Some s'"
      and s': "s' = renet ((clients s)(fd := (clients s fd)\<lparr>c_buf := tail\<rparr>))
         ((os_sent s)(fd := os_sent s fd @ concat (map frame resps))) s1" by blast
  have "sdb s' = sdb s1" "os_sent s' fd = os_sent s fd @ concat (map frame resps)" "c_buf (clients s' fd) = tail"
    unfolding s' by simp_all
  with r show ?thesis by blast
qed

theorem frames_in_order_witness:
  "let ps = [lit ''SET k v'', lit ''GET k'']; tail = take 2 (frame (lit ''GET x'')); s = one_client (concat (map frame ps) @ tail) in
   \<exists>resps s1 s'. execute_all \<lparr>xe_stack = [], xe_pid = 7\<rparr> MSG_MAX ps s = Some (resps, s1) \<and>
     process_buffer \<lparr>xe_stack = [], xe_pid = 7\<rparr> 5 s = Some s' \<and>
     os_sent s' 5 = concat (map frame resps) \<and> c_buf (clients s' 5) = tail"
proof -
  let ?ps = "[lit ''SET k v'', lit ''GET k'']" and ?q = "lit ''GET x''"
  let ?tail = "take 2 (frame ?q)"
  let ?s = "one_client (concat (map frame ?ps) @ ?tail)"
  have len: "\<forall>p \<in> set (?q # ?ps). length p \<le> MSG_MAX" by (simp add: hdr_sizes lit_def)
  have inv: "net_inv ?s" by (rule one_client_facts(1)) (simp add: hdr_sizes lit_def)
  have "length ?tail \<noteq> length (frame ?q)" by (simp add: lit_def)
  then have torn: "strict_prefix ?tail (frame ?q)" by (metis strict_prefix_def take_is_prefix)
  have act: "5 \<in> active_fds ?s" by (simp add: one_client_facts(3))
  have c: "c_wbuf (clients ?s 5) = []" "c_buf (clients ?s 5) = concat (map frame ?ps) @ ?tail"
    by (simp_all add: one_client_facts(5) client_zero_def)
  from frames_in_order[OF one_client_facts(4) inv one_client_facts(2) act c len torn, of "\<lparr>xe_stack = [], xe_pid = 7\<rparr>"]
  show ?thesis unfolding Let_def one_client_facts(6) append_Nil by blast
qed

text \<open>C18: An answer that was queued is appended, whole, to what the client will receive, whatever
  part of it the socket takes at once; one that does not fit behind what is pending is not
  queued at all. No other client is touched.\<close>

theorem queue_write_fifo:
  assumes "net_inv s" "fd \<in> active_fds s" "length data \<le> WBUF_SIZE" "data \<noteq> []"
    and "queue_write fd data s = (ok, s')"
  shows "net_inv s' \<and> (\<forall>f. f \<noteq> fd \<longrightarrow> clients s' f = clients s f \<and> os_sent s' f = os_sent s f) \<and>
    (if ok then outstream s' fd = outstream s fd @ data
     else fd \<notin> active_fds s' \<or>
       outstream s' fd = outstream s fd \<and>
       WBUF_SIZE < length (drop (c_woff (clients s fd)) (c_wbuf (clients s fd))) + length data)"
  using queue_write_queued[OF assms(1-4)] assms(5) by (auto simp: queued_def only_client_def)

theorem queue_write_fifo_witness:
  "\<exists>s'. queue_write 5 [1, 2, 3] ((one_client [])\<lparr>os_io := [SysN 2]\<rparr>) = (True, s') \<and> outstream s' 5 = [1, 2, 3]"
proof -
  let ?s = "(one_client [])\<lparr>os_io := [SysN 2]\<rparr>"
  have inv: "net_inv ?s" "5 \<in> active_fds ?s" using one_client_facts(1)[of "[]"] one_client_facts(3)[of "[]"] by simp_all
  have "fst (queue_write 5 [1, 2, 3] ?s)"
    by (simp add: queue_write_def one_client_def client_zero_def sys_send_def set_client_def net_sizes)
  then obtain s' where q: "queue_write 5 [1, 2, 3] ?s = (True, s')" by (cases "queue_write 5 [1, 2, 3] ?s") simp
  have "outstream ?s 5 = []" by (simp add: outstream_def one_client_def client_zero_def server_zero_def)
  with queue_write_fifo[OF inv _ _ q] q show ?thesis by (simp add: net_sizes)
qed

end
