(* ===== verification/Config.thy ===== *)
theory Config
  imports Server_State Clib
begin

text \<open>
  The configuration file (\<open>config.c\<close>): the table of keys, the conversion of values and the
  loop over the lines of the file.

  The offset of a table entry, \<open>OFFSET(field)\<close>, is the field's name; a store through the
  computed pointer is a store to that field.
\<close>

section \<open>Data\<close>

datatype config_type_t = CONFIG_TYPE_INT | CONFIG_TYPE_BOOL | CONFIG_TYPE_ENUM | CONFIG_TYPE_STRING

datatype config_field =
    F_port | F_tcp_backlog | F_hz | F_active_expire_enabled | F_active_expire_percent
  | F_active_expire_keys_per_round | F_client_timeout_s | F_client_timeout_check_hz | F_aof_check_hz
  | F_aof_filename | F_aof_enabled | F_aof_policy | F_aof_fsync_mode | F_aof_rewrite_min_size
  | F_aof_rewrite_growth | F_aof_rewrite_buf_max_size | F_aof_rewrite_backoff_base_ms
  | F_aof_rewrite_backoff_max_ms

record config_entry_t =
  ce_name :: cstr
  ce_type :: config_type_t
  ce_offset :: config_field
  ce_min :: int
  ce_max :: int
  ce_enum_values :: "cstr list"

definition aof_policy_values :: "cstr list" where
  "aof_policy_values = [lit ''no'', lit ''pertick'', lit ''always'']"

definition aof_fsync_mode_values :: "cstr list" where
  "aof_fsync_mode_values = [lit ''data'', lit ''meta'', lit ''full'']"

definition config_entry ::
    "string \<Rightarrow> config_type_t \<Rightarrow> config_field \<Rightarrow> int \<Rightarrow> int \<Rightarrow> cstr list \<Rightarrow> config_entry_t" where
  "config_entry name ty off lo hi vals =
     \<lparr>ce_name = lit name, ce_type = ty, ce_offset = off, ce_min = lo, ce_max = hi, ce_enum_values = vals\<rparr>"

definition config_table :: "config_entry_t list" where
  "config_table =
     [config_entry ''port'' CONFIG_TYPE_INT F_port 1 65535 [],
      config_entry ''tcp-backlog'' CONFIG_TYPE_INT F_tcp_backlog 1 65535 [],
      config_entry ''hz'' CONFIG_TYPE_INT F_hz 1 500 [],
      config_entry ''active-expire-enabled'' CONFIG_TYPE_BOOL F_active_expire_enabled 0 1 [],
      config_entry ''active-expire-percent'' CONFIG_TYPE_INT F_active_expire_percent 1 100 [],
      config_entry ''active-expire-keys-per-round'' CONFIG_TYPE_INT F_active_expire_keys_per_round 1 1000 [],
      config_entry ''client-timeout'' CONFIG_TYPE_INT F_client_timeout_s 0 86400 [],
      config_entry ''client-timeout-check-hz'' CONFIG_TYPE_INT F_client_timeout_check_hz 1 100 [],
      config_entry ''aof-enabled'' CONFIG_TYPE_BOOL F_aof_enabled 0 1 [],
      config_entry ''aof-check-hz'' CONFIG_TYPE_INT F_aof_check_hz 1 100 [],
      config_entry ''aof-filename'' CONFIG_TYPE_STRING F_aof_filename 0 0 [],
      config_entry ''aof-rewrite-min-size'' CONFIG_TYPE_INT F_aof_rewrite_min_size 0 2000000000 [],
      config_entry ''aof-rewrite-growth'' CONFIG_TYPE_INT F_aof_rewrite_growth 10 1000 [],
      config_entry ''aof-rewrite-buf-max-size'' CONFIG_TYPE_INT F_aof_rewrite_buf_max_size (1024 * 1024) 2000000000 [],
      config_entry ''aof-rewrite-backoff-base-ms'' CONFIG_TYPE_INT F_aof_rewrite_backoff_base_ms 100 600000 [],
      config_entry ''aof-rewrite-backoff-max-ms'' CONFIG_TYPE_INT F_aof_rewrite_backoff_max_ms 1000 3600000 [],
      config_entry ''appendfsync'' CONFIG_TYPE_ENUM F_aof_policy 0 0 aof_policy_values,
      config_entry ''aof-fsync-mode'' CONFIG_TYPE_ENUM F_aof_fsync_mode 0 0 aof_fsync_mode_values]"

section \<open>Stores through an offset\<close>

text \<open>\<open>*(int *)target = v\<close>; for an enumeration the value is the index of the string.\<close>

definition policy_of :: "int \<Rightarrow> aof_policy_t" where
  "policy_of i = (if i = 0 then AOF_POLICY_NO else if i = 1 then AOF_POLICY_PERTICK else AOF_POLICY_ALWAYS)"

definition fsync_mode_of :: "int \<Rightarrow> aof_fsync_mode_t" where
  "fsync_mode_of i = (if i = 0 then AOF_FSYNC_DATA else if i = 1 then AOF_FSYNC_META else AOF_FSYNC_FULL)"

fun store_int :: "config_field \<Rightarrow> int \<Rightarrow> server_config_t \<Rightarrow> server_config_t" where
  "store_int F_port v c = c\<lparr>cfg_port := v\<rparr>"
| "store_int F_tcp_backlog v c = c\<lparr>cfg_tcp_backlog := v\<rparr>"
| "store_int F_hz v c = c\<lparr>cfg_hz := v\<rparr>"
| "store_int F_active_expire_percent v c = c\<lparr>cfg_active_expire_percent := v\<rparr>"
| "store_int F_active_expire_keys_per_round v c = c\<lparr>cfg_active_expire_keys_per_round := v\<rparr>"
| "store_int F_client_timeout_s v c = c\<lparr>cfg_client_timeout_s := v\<rparr>"
| "store_int F_client_timeout_check_hz v c = c\<lparr>cfg_client_timeout_check_hz := v\<rparr>"
| "store_int F_aof_check_hz v c = c\<lparr>cfg_aof_check_hz := v\<rparr>"
| "store_int F_aof_rewrite_min_size v c = c\<lparr>cfg_aof_rewrite_min_size := v\<rparr>"
| "store_int F_aof_rewrite_growth v c = c\<lparr>cfg_aof_rewrite_growth := v\<rparr>"
| "store_int F_aof_rewrite_buf_max_size v c = c\<lparr>cfg_aof_rewrite_buf_max_size := v\<rparr>"
| "store_int F_aof_rewrite_backoff_base_ms v c = c\<lparr>cfg_aof_rewrite_backoff_base_ms := v\<rparr>"
| "store_int F_aof_rewrite_backoff_max_ms v c = c\<lparr>cfg_aof_rewrite_backoff_max_ms := v\<rparr>"
| "store_int F_aof_policy v c = c\<lparr>cfg_aof_policy := policy_of v\<rparr>"
| "store_int F_aof_fsync_mode v c = c\<lparr>cfg_aof_fsync_mode := fsync_mode_of v\<rparr>"
| "store_int _ v c = c"

fun store_bool :: "config_field \<Rightarrow> bool \<Rightarrow> server_config_t \<Rightarrow> server_config_t" where
  "store_bool F_active_expire_enabled b c = c\<lparr>cfg_active_expire_enabled := b\<rparr>"
| "store_bool F_aof_enabled b c = c\<lparr>cfg_aof_enabled := b\<rparr>"
| "store_bool _ b c = c"

fun store_string :: "config_field \<Rightarrow> cstr \<Rightarrow> server_config_t \<Rightarrow> server_config_t" where
  "store_string F_aof_filename v c = c\<lparr>cfg_aof_filename := v\<rparr>"
| "store_string _ v c = c"

section \<open>Operations\<close>

text \<open>\<open>find_config\<close>: the first entry of the name.\<close>

definition find_config :: "cstr \<Rightarrow> config_entry_t option" where
  "find_config name = find (\<lambda>e. ce_name e = name) config_table"

text \<open>The index of the first string that equals the value.\<close>

fun enum_index :: "cstr list \<Rightarrow> cstr \<Rightarrow> nat \<Rightarrow> nat option" where
  "enum_index [] v i = None"
| "enum_index (x # xs) v i = (if x = v then Some i else enum_index xs v (i + 1))"

definition apply_config :: "config_entry_t \<Rightarrow> cstr \<Rightarrow> sv \<Rightarrow> int \<times> sv" where
  "apply_config entry val s =
     (let store = (\<lambda>f. (0, s\<lparr>config := f (config s)\<rparr>)) in
      case ce_type entry of
        CONFIG_TYPE_INT \<Rightarrow>
          (let (v, endp, _) = strtol10 val in
           if endp \<noteq> [] then (-1, s)
           else if v < ce_min entry \<or> ce_max entry < v then (-1, s)
           else store (store_int (ce_offset entry) v))
      | CONFIG_TYPE_BOOL \<Rightarrow>
          if val = lit ''yes'' then store (store_bool (ce_offset entry) True)
          else if val = lit ''no'' then store (store_bool (ce_offset entry) False)
          else (-1, s)
      | CONFIG_TYPE_STRING \<Rightarrow>
          (let (ok, s) = sys_alloc s in
           if \<not> ok then (-1, s)
           else (0, s\<lparr>config := store_string (ce_offset entry) val (config s)\<rparr>))
      | CONFIG_TYPE_ENUM \<Rightarrow>
          (case enum_index (ce_enum_values entry) val 0 of
             Some i \<Rightarrow> store (store_int (ce_offset entry) (int i))
           | None \<Rightarrow> (-1, s)))"

text \<open>The body of the loop, on the bytes \<open>fgets\<close> stored: the number of errors it adds.\<close>

definition strip_newline :: "cstr \<Rightarrow> cstr" where
  "strip_newline line = (if line \<noteq> [] \<and> last line = 10 then butlast line else line)"

definition config_line :: "byte list \<Rightarrow> sv \<Rightarrow> nat \<times> sv" where
  "config_line buf s =
     (let line = strip_newline (cstr_of buf) in
      if line = [] \<or> hd line = 35 then (0, s)
      else
        (case scan_s line of
           None \<Rightarrow> (1, s)
         | Some (key, rest) \<Rightarrow>
             (case scan_s rest of
                None \<Rightarrow> (1, s)
              | Some (val, _) \<Rightarrow>
                  (case find_config key of
                     None \<Rightarrow> (1, s)
                   | Some entry \<Rightarrow>
                       (let (rc, s) = apply_config entry val s in
                        (if rc = -1 then 1 else 0, s))))))"

function config_loop :: "byte list \<Rightarrow> nat \<Rightarrow> sv \<Rightarrow> nat \<times> sv" where
  "config_loop data errors s =
     (case fgets 1024 data of
        None \<Rightarrow> (errors, s)
      | Some (line, rest) \<Rightarrow>
          (let (e, s) = config_line line s in config_loop rest (errors + e) s))"
  by pat_completeness auto
termination
  by (relation "measure (\<lambda>(data, _, _). length data)") (auto dest: fgets_shrinks)

declare config_loop.simps [simp del]

text \<open>\<open>load_config\<close>; the contents of the file are \<open>None\<close> when \<open>fopen\<close> fails.\<close>

definition load_config :: "byte list option \<Rightarrow> sv \<Rightarrow> int \<times> sv" where
  "load_config contents s =
     (case contents of
        None \<Rightarrow> (-1, s)
      | Some data \<Rightarrow>
          (let (errors, s) = config_loop data 0 s in
           if 0 < errors then (-1, s) else (0, s)))"


section \<open>Values within their ranges\<close>

fun load_int :: "config_field \<Rightarrow> server_config_t \<Rightarrow> int option" where
  "load_int F_port c = Some (cfg_port c)"
| "load_int F_tcp_backlog c = Some (cfg_tcp_backlog c)"
| "load_int F_hz c = Some (cfg_hz c)"
| "load_int F_active_expire_percent c = Some (cfg_active_expire_percent c)"
| "load_int F_active_expire_keys_per_round c = Some (cfg_active_expire_keys_per_round c)"
| "load_int F_client_timeout_s c = Some (cfg_client_timeout_s c)"
| "load_int F_client_timeout_check_hz c = Some (cfg_client_timeout_check_hz c)"
| "load_int F_aof_check_hz c = Some (cfg_aof_check_hz c)"
| "load_int F_aof_rewrite_min_size c = Some (cfg_aof_rewrite_min_size c)"
| "load_int F_aof_rewrite_growth c = Some (cfg_aof_rewrite_growth c)"
| "load_int F_aof_rewrite_buf_max_size c = Some (cfg_aof_rewrite_buf_max_size c)"
| "load_int F_aof_rewrite_backoff_base_ms c = Some (cfg_aof_rewrite_backoff_base_ms c)"
| "load_int F_aof_rewrite_backoff_max_ms c = Some (cfg_aof_rewrite_backoff_max_ms c)"
| "load_int _ c = None"

definition config_ok :: "server_config_t \<Rightarrow> bool" where
  "config_ok c \<longleftrightarrow>
     (\<forall>e \<in> set config_table. \<forall>v. load_int (ce_offset e) c = Some v \<longrightarrow> ce_min e \<le> v \<and> v \<le> ce_max e)"

lemma config_tableI: "\<forall>e \<in> set config_table. P e \<Longrightarrow> e \<in> set config_table \<Longrightarrow> P e"
  by blast

lemma config_table_distinct: "distinct (map ce_offset config_table)" "distinct (map ce_name config_table)"
  by (simp_all add: config_table_def config_entry_def lit_def)

lemma config_entry_unique:
  "e \<in> set config_table \<Longrightarrow> e' \<in> set config_table \<Longrightarrow> ce_offset e' = ce_offset e \<Longrightarrow> e' = e"
  using config_table_distinct(1) by (auto simp: distinct_map dest: inj_onD)

lemma load_store_int: "load_int f (store_int g v c) = (if f = g \<and> load_int f c \<noteq> None then Some v else load_int f c)"
  by (cases g; cases f; simp)

lemma load_store_other: "load_int f (store_bool g b c) = load_int f c" "load_int f (store_string g x c) = load_int f c"
  by (cases g; cases f; simp)+

lemma config_ok_store:
  assumes "config_ok c" "e \<in> set config_table" "ce_min e \<le> v" "v \<le> ce_max e"
  shows "config_ok (store_int (ce_offset e) v c)"
  unfolding config_ok_def load_store_int
proof (intro ballI allI impI)
  fix e' w
  assume e': "e' \<in> set config_table"
    and w: "(if ce_offset e' = ce_offset e \<and> load_int (ce_offset e') c \<noteq> None then Some v
      else load_int (ce_offset e') c) = Some w"
  show "ce_min e' \<le> w \<and> w \<le> ce_max e'"
  proof (cases "ce_offset e' = ce_offset e")
    case True
    then have "e' = e" by (rule config_entry_unique[OF assms(2) e'])
    with w assms show ?thesis by (auto simp: config_ok_def split: if_splits)
  qed (use w assms(1) e' in \<open>auto simp: config_ok_def\<close>)
qed

text \<open>An enumeration is not a field with a range.\<close>

lemma config_ok_store_enum:
  assumes "config_ok c" "e \<in> set config_table" "ce_type e = CONFIG_TYPE_ENUM"
  shows "config_ok (store_int (ce_offset e) v c)"
proof -
  have "load_int (ce_offset e) c = None"
    using assms(2,3) by (auto simp: config_table_def config_entry_def)
  then have "load_int f (store_int (ce_offset e) v c) = load_int f c" for f by (auto simp: load_store_int)
  with assms(1) show ?thesis by (simp add: config_ok_def)
qed

lemma config_ok_other:
  "config_ok c \<Longrightarrow> config_ok (store_bool f b c)" "config_ok c \<Longrightarrow> config_ok (store_string f x c)"
  by (simp_all add: config_ok_def load_store_other)

lemma sys_alloc_shape: obtains b l where "sys_alloc s = (b, s\<lparr>os_alloc := l\<rparr>)"
  by (cases s; cases "os_alloc s") (auto simp: sys_alloc_def)

text \<open>Everything but the configuration and the allocations' outcomes stays as it is.\<close>

definition config_frame :: "sv \<Rightarrow> sv \<Rightarrow> bool" where
  "config_frame s s' \<longleftrightarrow> s'\<lparr>config := config s, os_alloc := os_alloc s\<rparr> = s \<and> config_ok (config s')"

lemma config_frame_refl: "config_ok (config s) \<Longrightarrow> config_frame s s"
  by (cases s) (simp add: config_frame_def)

lemma config_frame_trans:
  assumes "config_frame s s1" "config_frame s1 s2"
  shows "config_frame s s2"
proof -
  have "s2\<lparr>config := config s, os_alloc := os_alloc s\<rparr> =
      (s2\<lparr>config := config s1, os_alloc := os_alloc s1\<rparr>)\<lparr>config := config s, os_alloc := os_alloc s\<rparr>" by simp
  with assms show ?thesis by (simp add: config_frame_def)
qed

lemma apply_config_frame:
  assumes "e \<in> set config_table" "config_ok (config s)"
  shows "config_frame s (snd (apply_config e v s))"
proof -
  have store: "config_frame s (s\<lparr>config := c\<rparr>)" "config_frame s (s\<lparr>os_alloc := l, config := c\<rparr>)"
      "config_frame s (s\<lparr>os_alloc := l\<rparr>)" if "config_ok c" for c l
    using that assms(2) by (cases s, simp add: config_frame_def)+
  obtain b l where al: "sys_alloc s = (b, s\<lparr>os_alloc := l\<rparr>)" by (rule sys_alloc_shape)
  note same = config_frame_refl[OF assms(2)]
  show ?thesis
  proof (cases "ce_type e")
    case CONFIG_TYPE_INT
    then show ?thesis
      using same store(1)[OF config_ok_store[OF assms(2,1)]] by (simp add: apply_config_def Let_def split_beta)
  next
    case CONFIG_TYPE_BOOL
    then show ?thesis
      using same store(1)[OF config_ok_other(1)[OF assms(2)]] by (simp add: apply_config_def Let_def)
  next
    case CONFIG_TYPE_ENUM
    then show ?thesis
      using same store(1)[OF config_ok_store_enum[OF assms(2,1)]]
      by (simp add: apply_config_def Let_def split: option.split)
  next
    case CONFIG_TYPE_STRING
    then show ?thesis
      using store(3)[OF assms(2)] store(2)[OF config_ok_other(2)[OF assms(2)]] al
      by (simp add: apply_config_def Let_def)
  qed
qed

lemma find_config_table: "find_config key = Some e \<Longrightarrow> e \<in> set config_table \<and> ce_name e = key"
  by (auto simp: find_config_def find_Some_iff)

lemma config_frame_ok: "config_frame s s' \<Longrightarrow> config_ok (config s')"
  by (auto simp: config_frame_def)

lemma config_line_frame:
  assumes "config_ok (config s)"
  shows "config_frame s (snd (config_line buf s))"
  using apply_config_frame[OF _ assms] config_frame_refl[OF assms] find_config_table
  by (auto simp: config_line_def Let_def split_beta split: option.split)

lemma config_loop_frame:
  "config_ok (config s) \<Longrightarrow> config_frame s (snd (config_loop data n s))"
proof (induction data n s rule: config_loop.induct)
  case (1 data n s)
  show ?case
  proof (cases "fgets 1024 data")
    case None
    then show ?thesis using config_frame_refl[OF 1(2)] by (simp add: config_loop.simps)
  next
    case (Some lr)
    obtain line rest where lr: "lr = (line, rest)" by force
    obtain e s1 where l: "config_line line s = (e, s1)" by force
    have f: "config_frame s s1" using config_line_frame[OF 1(2), of line] l by simp
    show ?thesis
      using 1(1)[OF Some _ refl _ config_frame_ok[OF f]] config_frame_trans[OF f] Some lr l
      by (subst config_loop.simps) simp
  qed
qed


section \<open>Files made of lines\<close>

definition conf_file :: "byte list list \<Rightarrow> byte list" where
  "conf_file ls = concat (map (\<lambda>l. l @ [10]) ls)"

definition conf_line :: "byte list \<Rightarrow> bool" where
  "conf_line l \<longleftrightarrow> 10 \<notin> set l \<and> wf_cstr l \<and> length l < 1023"

text \<open>The lines one after the other, with the number of errors.\<close>

definition config_lines :: "byte list list \<Rightarrow> nat \<times> sv \<Rightarrow> nat \<times> sv" where
  "config_lines ls = fold (\<lambda>l (n, s). let (e, s) = config_line (l @ [10]) s in (n + e, s)) ls"

lemma config_loop_lines: "\<forall>l \<in> set ls. conf_line l \<Longrightarrow> config_loop (conf_file ls) n s = config_lines ls (n, s)"
proof (induction ls arbitrary: n s)
  case Nil
  then show ?case by (subst config_loop.simps) (simp add: conf_file_def fgets_def config_lines_def)
next
  case (Cons l ls)
  have "fgets 1024 (conf_file (l # ls)) = Some (l @ [10], conf_file ls)"
    using Cons.prems fgets_line[of l 1024 "conf_file ls"] by (simp add: conf_file_def conf_line_def)
  with Cons show ?case by (subst config_loop.simps) (simp add: config_lines_def split_beta)
qed

lemma config_lines_add: "config_lines ls (n, s) = (n + fst (config_lines ls (0, s)), snd (config_lines ls (0, s)))"
proof (induction ls arbitrary: n s)
  case Nil
  then show ?case by (simp add: config_lines_def)
next
  case (Cons l ls)
  obtain e t where l: "config_line (l @ [10]) s = (e, t)" by force
  have "config_lines (l # ls) (m, s) = config_lines ls (m + e, t)" for m
    by (simp add: config_lines_def l)
  then show ?case using Cons[of "n + e" t] Cons[of e t] by simp
qed

lemma config_lines_append: "config_lines (ls @ ms) r = config_lines ms (config_lines ls r)"
  by (simp add: config_lines_def)

lemma load_config_lines:
  "\<forall>l \<in> set ls. conf_line l \<Longrightarrow>
   load_config (Some (conf_file ls)) s =
     (if fst (config_lines ls (0, s)) = 0 then 0 else -1, snd (config_lines ls (0, s)))"
  by (simp add: load_config_def config_loop_lines split_beta)

text \<open>A line with a key and a value.\<close>

definition conf_word :: "cstr \<Rightarrow> bool" where
  "conf_word w \<longleftrightarrow> w \<noteq> [] \<and> length w \<le> 255 \<and> (\<forall>b \<in> set w. \<not> isspace b \<and> b \<noteq> 0)"

lemma conf_word_chars: "conf_word w \<Longrightarrow> 10 \<notin> set w \<and> 0 \<notin> set w"
  by (fastforce simp: conf_word_def isspace_def)

lemma conf_line_words: "conf_word k \<Longrightarrow> conf_word v \<Longrightarrow> conf_line (k @ 32 # v)"
  using conf_word_chars[of k] conf_word_chars[of v]
  by (auto simp: conf_line_def wf_cstr_def conf_word_def)

lemma config_line_words:
  assumes "conf_word k" "conf_word v" "hd k \<noteq> 35"
  shows "config_line ((k @ 32 # v) @ [10]) s =
    (case find_config k of None \<Rightarrow> (1, s)
     | Some e \<Rightarrow> (let (rc, s) = apply_config e v s in (if rc = -1 then 1 else 0, s)))"
proof -
  have "wf_cstr ((k @ 32 # v) @ [10])"
    using conf_word_chars[OF assms(1)] conf_word_chars[OF assms(2)] by (auto simp: wf_cstr_def)
  then have line: "strip_newline (cstr_of ((k @ 32 # v) @ [10])) = k @ 32 # v"
    by (simp add: strip_newline_def butlast_append)
  have s1: "scan_s (k @ 32 # v) = Some (k, 32 # v)"
    using assms(1) by (intro scan_s_word(1)) (auto simp: conf_word_def isspace_def)
  have s2: "scan_s (32 # v) = Some (v, [])"
    using assms(2) scan_s_word(2)[of v "[]"] by (auto simp: conf_word_def)
  show ?thesis
    using assms(1,3) line s1 s2 by (simp add: config_line_def conf_word_def split: option.split)
qed

section \<open>Writing a configuration down\<close>

definition show_value :: "config_entry_t \<Rightarrow> server_config_t \<Rightarrow> cstr" where
  "show_value e c =
     (case ce_offset e of
        F_active_expire_enabled \<Rightarrow> if cfg_active_expire_enabled c then lit ''yes'' else lit ''no''
      | F_aof_enabled \<Rightarrow> if cfg_aof_enabled c then lit ''yes'' else lit ''no''
      | F_aof_filename \<Rightarrow> cfg_aof_filename c
      | F_aof_policy \<Rightarrow>
          (case cfg_aof_policy c of AOF_POLICY_NO \<Rightarrow> lit ''no'' | AOF_POLICY_PERTICK \<Rightarrow> lit ''pertick''
           | AOF_POLICY_ALWAYS \<Rightarrow> lit ''always'')
      | F_aof_fsync_mode \<Rightarrow>
          (case cfg_aof_fsync_mode c of AOF_FSYNC_DATA \<Rightarrow> lit ''data'' | AOF_FSYNC_META \<Rightarrow> lit ''meta''
           | AOF_FSYNC_FULL \<Rightarrow> lit ''full'')
      | f \<Rightarrow> dec_int (the (load_int f c)))"

definition show_entry :: "server_config_t \<Rightarrow> config_entry_t \<Rightarrow> byte list" where
  "show_entry c e = ce_name e @ 32 # show_value e c"

definition show_config :: "server_config_t \<Rightarrow> byte list" where
  "show_config c = conf_file (map (show_entry c) config_table)"


text \<open>One field taken over from another configuration.\<close>

definition copy_field :: "config_field \<Rightarrow> server_config_t \<Rightarrow> server_config_t \<Rightarrow> server_config_t" where
  "copy_field f c d =
     (case f of
        F_active_expire_enabled \<Rightarrow> store_bool f (cfg_active_expire_enabled c) d
      | F_aof_enabled \<Rightarrow> store_bool f (cfg_aof_enabled c) d
      | F_aof_filename \<Rightarrow> store_string f (cfg_aof_filename c) d
      | F_aof_policy \<Rightarrow> d\<lparr>cfg_aof_policy := cfg_aof_policy c\<rparr>
      | F_aof_fsync_mode \<Rightarrow> d\<lparr>cfg_aof_fsync_mode := cfg_aof_fsync_mode c\<rparr>
      | _ \<Rightarrow> store_int f (the (load_int f c)) d)"

lemma copy_all: "fold (\<lambda>e. copy_field (ce_offset e) c) config_table d = c"
  by (cases c; cases d) (simp add: config_table_def config_entry_def copy_field_def)

lemma config_int_entry:
  assumes "e \<in> set config_table" "ce_type e = CONFIG_TYPE_INT" "config_ok c"
  obtains v where "load_int (ce_offset e) c = Some v" "show_value e c = dec_int v" "i64_range v"
    "ce_min e \<le> v" "v \<le> ce_max e" "copy_field (ce_offset e) c d = store_int (ce_offset e) v d"
proof -
  have table: "\<forall>e \<in> set config_table. ce_type e = CONFIG_TYPE_INT \<longrightarrow>
      load_int (ce_offset e) c \<noteq> None \<and> show_value e c = dec_int (the (load_int (ce_offset e) c)) \<and>
      0 \<le> ce_min e \<and> ce_max e \<le> 2000000000 \<and>
      copy_field (ce_offset e) c d = store_int (ce_offset e) (the (load_int (ce_offset e) c)) d"
    by (simp add: config_table_def config_entry_def show_value_def copy_field_def)
  then have e: "load_int (ce_offset e) c \<noteq> None" "show_value e c = dec_int (the (load_int (ce_offset e) c))"
      "0 \<le> ce_min e" "ce_max e \<le> 2000000000"
      "copy_field (ce_offset e) c d = store_int (ce_offset e) (the (load_int (ce_offset e) c)) d"
    using assms(1,2) by blast+
  then obtain v where v: "load_int (ce_offset e) c = Some v" by blast
  with assms(1,3) have r: "ce_min e \<le> v" "v \<le> ce_max e" by (auto simp: config_ok_def)
  show thesis using e v r by (intro that[of v]) (simp_all add: i64_range_def)
qed

lemma config_other_entries:
  assumes "e \<in> set config_table" "ce_type e \<noteq> CONFIG_TYPE_INT"
  obtains (expire) "e = config_entry ''active-expire-enabled'' CONFIG_TYPE_BOOL F_active_expire_enabled 0 1 []"
    | (enabled) "e = config_entry ''aof-enabled'' CONFIG_TYPE_BOOL F_aof_enabled 0 1 []"
    | (filename) "e = config_entry ''aof-filename'' CONFIG_TYPE_STRING F_aof_filename 0 0 []"
    | (policy) "e = config_entry ''appendfsync'' CONFIG_TYPE_ENUM F_aof_policy 0 0 aof_policy_values"
    | (mode) "e = config_entry ''aof-fsync-mode'' CONFIG_TYPE_ENUM F_aof_fsync_mode 0 0 aof_fsync_mode_values"
proof -
  have ty: "ce_type (config_entry n ty f lo hi vs) = ty" for n ty f lo hi vs by (simp add: config_entry_def)
  have "e \<in> set (filter (\<lambda>e. ce_type e \<noteq> CONFIG_TYPE_INT) config_table)" using assms by simp
  then have "e \<in> {config_entry ''active-expire-enabled'' CONFIG_TYPE_BOOL F_active_expire_enabled 0 1 [],
      config_entry ''aof-enabled'' CONFIG_TYPE_BOOL F_aof_enabled 0 1 [],
      config_entry ''aof-filename'' CONFIG_TYPE_STRING F_aof_filename 0 0 [],
      config_entry ''appendfsync'' CONFIG_TYPE_ENUM F_aof_policy 0 0 aof_policy_values,
      config_entry ''aof-fsync-mode'' CONFIG_TYPE_ENUM F_aof_fsync_mode 0 0 aof_fsync_mode_values}"
    by (simp add: config_table_def ty)
  then show thesis using expire enabled filename policy mode by blast
qed

lemma apply_shown_value:
  assumes "e \<in> set config_table" "config_ok c" "os_alloc s = []"
  shows "apply_config e (show_value e c) s = (0, s\<lparr>config := copy_field (ce_offset e) c (config s)\<rparr>)"
proof (cases "ce_type e = CONFIG_TYPE_INT")
  case True
  obtain v where "show_value e c = dec_int v" "i64_range v" "ce_min e \<le> v" "v \<le> ce_max e"
      "copy_field (ce_offset e) c (config s) = store_int (ce_offset e) v (config s)"
    by (rule config_int_entry[OF assms(1) True assms(2)])
  with True show ?thesis by (simp add: apply_config_def strtol10_dec)
next
  case False
  with assms(1) show ?thesis
    by (cases rule: config_other_entries)
      (simp_all add: config_entry_def apply_config_def show_value_def copy_field_def sys_alloc_def assms(3)
        aof_policy_values_def aof_fsync_mode_values_def policy_of_def fsync_mode_of_def lit_def
        split: aof_policy_t.split aof_fsync_mode_t.split)
qed


lemma config_names: "\<forall>e \<in> set config_table. conf_word (ce_name e) \<and> hd (ce_name e) \<noteq> 35 \<and> find_config (ce_name e) = Some e"
  by (simp add: config_table_def config_entry_def find_config_def conf_word_def lit_def isspace_def word_le_nat_alt)

lemma shown_value_word:
  assumes "e \<in> set config_table" "config_ok c" "conf_word (cfg_aof_filename c)"
  shows "conf_word (show_value e c)"
proof (cases "ce_type e = CONFIG_TYPE_INT")
  case True
  obtain v where "show_value e c = dec_int v" "i64_range v"
    by (rule config_int_entry[OF assms(1) True assms(2)])
  then show ?thesis using length_dec_int[of v] dec_int_chars[of v] by (auto simp: conf_word_def)
next
  case False
  have words: "conf_word (lit ''yes'')" "conf_word (lit ''no'')" "conf_word (lit ''pertick'')" "conf_word (lit ''always'')"
      "conf_word (lit ''data'')" "conf_word (lit ''meta'')" "conf_word (lit ''full'')"
    by (simp_all add: conf_word_def lit_def isspace_def word_le_nat_alt)
  show ?thesis
    by (rule config_other_entries[OF assms(1) False])
      (simp_all add: words assms(3) config_entry_def show_value_def split: aof_policy_t.split aof_fsync_mode_t.split)
qed

lemma config_lines_shown:
  assumes "config_ok c" "conf_word (cfg_aof_filename c)" "set es \<subseteq> set config_table" "os_alloc s = []"
  shows "config_lines (map (show_entry c) es) (0, s) =
    (0, s\<lparr>config := fold (\<lambda>e. copy_field (ce_offset e) c) es (config s)\<rparr>)"
  using assms(3,4)
proof (induction es arbitrary: s)
  case Nil
  then show ?case by (simp add: config_lines_def)
next
  case (Cons e es)
  have e: "e \<in> set config_table" using Cons.prems(1) by simp
  note n = bspec[OF config_names e]
  have "config_line (show_entry c e @ [10]) s = (0, s\<lparr>config := copy_field (ce_offset e) c (config s)\<rparr>)"
    using config_line_words[OF _ shown_value_word[OF e assms(1,2)], of "ce_name e" s] n
      apply_shown_value[OF e assms(1) Cons.prems(2)]
    by (simp add: show_entry_def)
  moreover have "config_lines (show_entry c e # map (show_entry c) es) (0, s) =
      config_lines (map (show_entry c) es) (config_line (show_entry c e @ [10]) s)"
    by (simp add: config_lines_def split_beta)
  ultimately show ?case using Cons by simp
qed

section \<open>Properties\<close>

text \<open>C19: Whatever the configuration file holds, whether it is accepted or refused, and whatever
  its allocations do, every integer of the configuration stays in the range its table entry
  declares, as the defaults are, and nothing but the configuration changes.\<close>

theorem load_config_in_range:
  assumes "config_ok (config s)"
  shows "config_ok init_server_config \<and>
    (let s' = snd (load_config contents s) in
     config_ok (config s') \<and> s'\<lparr>config := config s, os_alloc := os_alloc s\<rparr> = s)"
proof -
  have "config_ok init_server_config"
    by (simp add: config_ok_def config_table_def config_entry_def init_server_config_def)
  moreover have "config_frame s (snd (load_config contents s))"
    using config_frame_refl[OF assms] config_loop_frame[OF assms]
    by (simp add: load_config_def split_beta split: option.split)
  ultimately show ?thesis by (simp add: config_frame_def Let_def)
qed

theorem load_config_in_range_witness:
  "let s' = snd (load_config (Some (lit ''hz 501'' @ [10])) (server_zero Linux)) in
   config_ok (config s') \<and> sdb s' = sdb (server_zero Linux)"
proof -
  let ?s = "server_zero Linux" and ?f = "Some (lit ''hz 501'' @ [10])"
  have "config_ok (config ?s)"
    by (simp add: config_ok_def config_table_def config_entry_def init_server_config_def server_zero_def)
  from load_config_in_range[OF this, of ?f]
  have ok: "config_ok (config (snd (load_config ?f ?s)))"
    and frame: "(snd (load_config ?f ?s))\<lparr>config := config ?s, os_alloc := os_alloc ?s\<rparr> = ?s"
    by (simp_all add: Let_def)
  from arg_cong[OF frame, of sdb] ok show ?thesis by (simp add: Let_def)
qed

text \<open>C20: A configuration within its ranges, written down line by line, is read back exactly,
  whatever was configured before.\<close>

theorem load_config_roundtrip:
  assumes "config_ok c" "conf_word (cfg_aof_filename c)" "os_alloc s = []"
  shows "load_config (Some (show_config c)) s = (0, s\<lparr>config := c\<rparr>)"
proof -
  have "conf_line (show_entry c e)" if "e \<in> set config_table" for e
    using conf_line_words[OF _ shown_value_word[OF that assms(1,2)]] bspec[OF config_names that]
    by (simp add: show_entry_def)
  then show ?thesis
    using config_lines_shown[OF assms(1,2) order_refl assms(3)]
    by (simp add: show_config_def load_config_lines copy_all)
qed

theorem load_config_roundtrip_witness:
  "load_config (Some (show_config (init_server_config\<lparr>cfg_hz := 500\<rparr>))) (server_zero Linux) =
     (0, (server_zero Linux)\<lparr>config := init_server_config\<lparr>cfg_hz := 500\<rparr>\<rparr>)"
  by (rule load_config_roundtrip)
    (simp_all add: config_ok_def config_table_def config_entry_def init_server_config_def server_zero_def
      conf_word_def lit_def isspace_def word_le_nat_alt)

text \<open>C21: A line with a key that is not in the table makes the load fail; apart from that it is as
  if the line were not there: the lines around it still take effect.\<close>

theorem load_config_unknown_key:
  assumes "\<forall>l \<in> set (ls @ ms). conf_line l" "conf_word key" "conf_word val" "hd key \<noteq> 35"
    and "key \<notin> ce_name ` set config_table"
  shows "load_config (Some (conf_file (ls @ (key @ 32 # val) # ms))) s =
    (-1, snd (load_config (Some (conf_file (ls @ ms))) s))"
proof -
  have "find_config key = None" using assms(5) by (auto simp: find_config_def find_None_iff)
  then have line: "config_line ((key @ 32 # val) @ [10]) s1 = (1, s1)" for s1
    using config_line_words[OF assms(2-4)] by simp
  obtain n t where r: "config_lines ls (0, s) = (n, t)" by force
  have "config_lines (ls @ (key @ 32 # val) # ms) (0, s) = config_lines ms (n + 1, t)"
    unfolding config_lines_append r using line by (simp add: config_lines_def)
  moreover have "config_lines (ls @ ms) (0, s) = config_lines ms (n, t)" by (simp add: config_lines_append r)
  ultimately show ?thesis
    using assms(1) conf_line_words[OF assms(2,3)] config_lines_add[of ms "n + 1" t] config_lines_add[of ms n t]
    by (simp add: load_config_lines)
qed

theorem load_config_unknown_key_witness:
  "load_config (Some (conf_file [lit ''fsync-mode full'', lit ''hz 20''])) (server_zero Linux) =
     (-1, snd (load_config (Some (conf_file [lit ''hz 20''])) (server_zero Linux)))"
  using load_config_unknown_key[of "[]" "[lit ''hz 20'']" "lit ''fsync-mode''" "lit ''full''" "server_zero Linux"]
  by (simp add: conf_line_def conf_word_def wf_cstr_def lit_def isspace_def word_le_nat_alt config_table_def
      config_entry_def)

end
