(* ===== verification/Server_Loop.thy ===== *)
theory Server_Loop
  imports Networking Config
begin

text \<open>
  The periodic work of the server and its event loop (\<open>server.c\<close>: \<open>active_expire_cron\<close>,
  \<open>before_sleep\<close>, \<open>on_shutdown\<close>; \<open>event_loop.c\<close>: \<open>el_run\<close>).

  What the loop finds from outside is a list of rounds: for each the readings of the clocks,
  the random draws of the sweep and what \<open>kevent\<close> returns, with what each handler will find on
  its descriptor. A loop that runs out of rounds is still running. The loop of the active
  expiry has no bound of its own, so it is a partial function of its draws.
\<close>

section \<open>Active expiry\<close>

text \<open>The clock readings and draws of one tick; \<open>tk_stale\<close> is how the key of a freed entry reads,
  which the sweep reads again to delete it from the second table. C leaves that undefined, so no
  property below rests on what it is, save where it is named as a condition.\<close>

record tick_env =
  tk_now :: int
  tk_realtime :: int
  tk_clk :: "nat \<Rightarrow> int"
  tk_draws :: "nat list"
  tk_stale :: "cstr \<Rightarrow> cstr"
  tk_pid :: int

definition below_threshold :: "nat \<Rightarrow> server_config_t \<Rightarrow> bool" where
  "below_threshold expired cfg \<longleftrightarrow>
     expired * 100 div nat (cfg_active_expire_keys_per_round cfg) < nat (cfg_active_expire_percent cfg)"

text \<open>The \<open>while\<close> loop; \<open>n\<close> counts the readings of the clock.\<close>

partial_function (option) expire_loop ::
    "(cstr \<Rightarrow> cstr) \<Rightarrow> (nat \<Rightarrow> int) \<Rightarrow> int \<Rightarrow> int \<Rightarrow> int \<Rightarrow> nat \<Rightarrow> nat list \<Rightarrow> sv \<Rightarrow> sv option" where
  "expire_loop stale clk budget_ms start current n draws s =
     (if wrap64 (current - start) < budget_ms then
        (case db_active_sweep stale draws (sdb s) (nat (cfg_active_expire_keys_per_round (config s)))
                (now_realtime_ms s) of
           None \<Rightarrow> None
         | Some ((db, expired), rest) \<Rightarrow>
             if below_threshold expired (config s) then Some (s\<lparr>sdb := db\<rparr>)
             else expire_loop stale clk budget_ms start (clk n) (n + 1) rest (s\<lparr>sdb := db\<rparr>))
      else Some s)"

definition active_expire_cron :: "tick_env \<Rightarrow> sv \<Rightarrow> sv option" where
  "active_expire_cron te s =
     (if \<not> cfg_active_expire_enabled (config s) then Some s
      else
        (let start = snow_ms s;
             budget_ms = (1000 sdiv cfg_hz (config s)) sdiv 4 in
         expire_loop (tk_stale te) (tk_clk te) budget_ms start start 0 (tk_draws te) s))"

definition before_sleep :: "tick_env \<Rightarrow> sv \<Rightarrow> sv option" where
  "before_sleep te s =
     (let s = s\<lparr>snow_ms := tk_now te, now_realtime_ms := tk_realtime te, cronloops := cronloops s + 1\<rparr> in
      case active_expire_cron te s of
        None \<Rightarrow> None
      | Some s \<Rightarrow> Some (aof_rewrite_cron (tk_pid te) (aof_cron (client_timeouts_cron s))))"

section \<open>The shutdown handler\<close>

text \<open>\<open>on_shutdown\<close>: reads of at most 16 bytes empty the pipe, then the loop is told to stop.\<close>

function drain :: "sv \<Rightarrow> sv" where
  "drain s = (if os_pipe s = [] then s else drain (s\<lparr>os_pipe := drop 16 (os_pipe s)\<rparr>))"
  by pat_completeness auto
termination
  by (relation "measure (\<lambda>s. length (os_pipe s))") auto

declare drain.simps [simp del]

definition on_shutdown :: "sv \<Rightarrow> sv" where
  "on_shutdown s = (let s = drain s in s\<lparr>el := (el s)\<lparr>el_stop := True\<rparr>\<rparr>)"

section \<open>The loop\<close>

datatype kfilter = EVFILT_READ | EVFILT_WRITE

text \<open>An event, with what its handler finds: bytes on a connection, a descriptor from
  \<open>accept\<close>.\<close>

record event =
  ev_ident :: nat
  ev_filter :: kfilter
  ev_incoming :: incoming
  ev_accepted :: int
  ev_xe :: cmd_env

fun call_handler :: "el_handler_fn \<Rightarrow> event \<Rightarrow> sv \<Rightarrow> sv option" where
  "call_handler OnAccept e s = Some (on_accept (ev_accepted e) s)"
| "call_handler OnRead e s = on_read (ev_xe e) (ev_incoming e) (ev_ident e) s"
| "call_handler OnWrite e s = on_write (ev_xe e) (ev_ident e) s"
| "call_handler OnShutdown e s = Some (on_shutdown s)"

text \<open>One pass of the \<open>for\<close> loop; an index outside the handler tables has no value.\<close>

definition dispatch :: "event \<Rightarrow> sv \<Rightarrow> sv option" where
  "dispatch e s =
     (let fd = ev_ident e in
      if MAX_FDS \<le> fd then None
      else
        (case (ev_filter e, el_read_handlers (el s) fd, el_write_handlers (el s) fd) of
           (EVFILT_READ, Some h, _) \<Rightarrow> call_handler h e s
         | (EVFILT_WRITE, _, Some h) \<Rightarrow> call_handler h e s
         | _ \<Rightarrow> Some s))"

fun dispatch_all :: "event list \<Rightarrow> sv \<Rightarrow> sv option" where
  "dispatch_all [] s = Some s"
| "dispatch_all (e # es) s = (case dispatch e s of None \<Rightarrow> None | Some s \<Rightarrow> dispatch_all es s)"

text \<open>What \<open>kevent\<close> returns: -1 with \<open>EINTR\<close>, -1 with another error, or events.\<close>

datatype polled = PollIntr | PollErr | Polled "event list"

text \<open>\<open>el_run\<close>: the return value, \<open>None\<close> when the rounds are used up and it has not returned.\<close>

fun el_run :: "(tick_env \<times> polled) list \<Rightarrow> sv \<Rightarrow> (int option \<times> sv) option" where
  "el_run [] s = Some (if el_stop (el s) then Some 0 else None, s)"
| "el_run ((te, p) # rounds) s =
     (if el_stop (el s) then Some (Some 0, s)
      else
        (case before_sleep te s of
           None \<Rightarrow> None
         | Some s \<Rightarrow>
             (case p of
                PollIntr \<Rightarrow> el_run rounds s
              | PollErr \<Rightarrow> Some (Some (-1), s)
              | Polled events \<Rightarrow>
                  (case dispatch_all (take MAX_EVENTS events) s of
                     None \<Rightarrow> None
                   | Some s \<Rightarrow> el_run rounds s))))"

section \<open>The active expiry ends\<close>

text \<open>Sampling takes each occurrence of a bucket in use as a pick, so enough occurrences are left.\<close>

lemma pick_buckets_rest:
  "pick_buckets table draws n = Some (picks, rest) \<Longrightarrow>
   set rest \<subseteq> set draws \<and> (table ! i \<noteq> [] \<longrightarrow> count_list draws i \<le> count_list rest i + n)"
proof (induction table draws n arbitrary: picks rule: pick_buckets.induct)
  case (3 table idx draws n)
  show ?case
  proof (cases "table ! idx = []")
    case True
    with 3 show ?thesis by (auto split: if_splits)
  next
    case False
    with "3.prems" obtain ps where "pick_buckets table draws n = Some (ps, rest)" by auto
    with "3.IH"(1)[OF False, of ps] False show ?thesis by auto
  qed
qed auto

lemma count_hits: "table ! i \<noteq> [] \<Longrightarrow> count_list draws i \<le> length (filter (\<lambda>d. table ! d \<noteq> []) draws)"
  by (induction draws) auto

lemma sweep_geometry:
  "exp_bucket (fst (db_expire_clean_via stale db key now)) = exp_bucket db"
  "ht_size (db_expires (fst (db_expire_clean_via stale db key now))) = ht_size (db_expires db)"
  "exp_bucket (fst (sweep_chain stale now es st)) = exp_bucket (fst st)"
  "ht_size (db_expires (fst (sweep_chain stale now es st))) = ht_size (db_expires (fst st))"
  "exp_bucket (fst (sweep_picks stale now ps st)) = exp_bucket (fst st)"
  "ht_size (db_expires (fst (sweep_picks stale now ps st))) = ht_size (db_expires (fst st))"
proof -
  have clean: "exp_bucket (fst (db_expire_clean_via stale db key now)) = exp_bucket db \<and>
      ht_size (db_expires (fst (db_expire_clean_via stale db key now))) = ht_size (db_expires db)" for db key
    by (auto simp: db_expire_clean_via_cases db_del_via_def exp_bucket_def[abs_def] ht_del_geometry Let_def split_beta)
  have chain: "exp_bucket (fst (sweep_chain stale now es st)) = exp_bucket (fst st) \<and>
      ht_size (db_expires (fst (sweep_chain stale now es st))) = ht_size (db_expires (fst st))" for es st
  proof (induction es arbitrary: st)
    case (Cons e es)
    then show ?case using clean by (cases st, cases e) (simp add: split_beta Let_def)
  qed simp
  have picks: "exp_bucket (fst (sweep_picks stale now ps st)) = exp_bucket (fst st) \<and>
      ht_size (db_expires (fst (sweep_picks stale now ps st))) = ht_size (db_expires (fst st))"
  proof (induction ps arbitrary: st)
    case (Cons p ps)
    then show ?case using chain by (cases st) simp
  qed simp
  show "exp_bucket (fst (db_expire_clean_via stale db key now)) = exp_bucket db"
    "ht_size (db_expires (fst (db_expire_clean_via stale db key now))) = ht_size (db_expires db)"
    "exp_bucket (fst (sweep_chain stale now es st)) = exp_bucket (fst st)"
    "ht_size (db_expires (fst (sweep_chain stale now es st))) = ht_size (db_expires (fst st))"
    "exp_bucket (fst (sweep_picks stale now ps st)) = exp_bucket (fst st)"
    "ht_size (db_expires (fst (sweep_picks stale now ps st))) = ht_size (db_expires (fst st))"
    using clean chain picks by auto
qed

text \<open>Every bucket of the \<open>expires\<close> table that is in use is drawn \<open>k\<close> times, and nothing outside the
  table is drawn.\<close>

definition draws_hit :: "nat \<Rightarrow> nat list \<Rightarrow> db \<Rightarrow> bool" where
  "draws_hit k draws db \<longleftrightarrow>
     (\<forall>d \<in> set draws. d < ht_size (db_expires db)) \<and>
     (\<forall>i < ht_size (db_expires db). ht_table (db_expires db) ! i \<noteq> [] \<longrightarrow> k \<le> count_list draws i)"

lemma bucket_in_use:
  assumes "ht_inv (db_expires db)" "i < ht_size (db_expires db)"
  shows "ht_table (db_expires db) ! i \<noteq> [] \<longleftrightarrow> (\<exists>k. ht_find (db_expires db) k \<noteq> None \<and> exp_bucket db k = i)"
proof -
  have "ht_table (db_expires db) ! i \<noteq> [] \<longleftrightarrow> fst ` set (ht_get_bucket (db_expires db) i) \<noteq> {}"
    by (simp add: ht_get_bucket_def)
  then show ?thesis unfolding exp_bucket_keys[OF assms] by blast
qed

text \<open>One sweep that returns, however freed keys read: the tables are well formed, the deadlines it
  reports are gone and no bucket has come into use.\<close>

lemma sweep_sound:
  assumes wf: "db_wf db" and draws: "\<forall>d \<in> set draws. d < ht_size (db_expires db)"
    and ran: "db_active_sweep stale draws db sample now = Some ((db', expired), rest)"
  shows "db_wf db'" "ht_used (db_expires db') + expired = ht_used (db_expires db)" "set rest \<subseteq> set draws"
    "ht_size (db_expires db') = ht_size (db_expires db)"
    "\<And>i. i < ht_size (db_expires db) \<Longrightarrow> ht_table (db_expires db') ! i \<noteq> [] \<Longrightarrow>
       ht_table (db_expires db) ! i \<noteq> [] \<and> count_list draws i \<le> count_list rest i + sample"
proof -
  let ?e = "db_expires db"
  show wf': "db_wf db'" "ht_used (db_expires db') + expired = ht_used ?e" by (rule sweep_tables[OF wf draws ran])+
  have "set rest \<subseteq> set draws \<and> ht_size (db_expires db') = ht_size ?e \<and>
    (\<forall>i < ht_size ?e. ht_table (db_expires db') ! i \<noteq> [] \<longrightarrow>
       ht_table ?e ! i \<noteq> [] \<and> count_list draws i \<le> count_list rest i + sample)"
  proof (cases "ht_used ?e = 0")
    case True
    with ran show ?thesis by (auto simp: db_active_sweep_def)
  next
    case False
    let ?n = "min sample (ht_used ?e)"
    obtain picks where pick: "pick_buckets (ht_table ?e) draws ?n = Some (picks, rest)"
      and sw: "sweep_picks stale now picks (db, 0) = (db', expired)"
      using ran False by (auto simp: db_active_sweep_def Let_def min_def split: option.splits if_splits)
    have bounds: "\<forall>p \<in> set picks. p < ht_size ?e" using pick_buckets_sound[OF pick] draws by blast
    note exps = sweep_picks_expires[OF db_wfD(2,1)[OF wf] bounds sw]
    have geo: "exp_bucket db' = exp_bucket db" "ht_size (db_expires db') = ht_size ?e"
      using sweep_geometry(5,6)[of stale now picks "(db, 0)"] sw by simp_all
    have used: "ht_table ?e ! i \<noteq> []" if "i < ht_size ?e" "ht_table (db_expires db') ! i \<noteq> []" for i
    proof -
      have "i < ht_size (db_expires db')" using geo(2) that(1) by simp
      from bucket_in_use[OF db_wfD(2)[OF wf'(1)] this] that(2)
      obtain key where "ht_find (db_expires db') key \<noteq> None" "exp_bucket db key = i" unfolding geo(1) by blast
      then show ?thesis
        using bucket_in_use[OF db_wfD(2)[OF wf] that(1)] exps by (metis (mono_tags, lifting))
    qed
    moreover have "count_list draws i \<le> count_list rest i + sample" if "ht_table ?e ! i \<noteq> []" for i
      using pick_buckets_rest[OF pick, of i] that by linarith
    moreover have "set rest \<subseteq> set draws" using pick_buckets_rest[OF pick] by blast
    ultimately show ?thesis using geo by simp
  qed
  then show "set rest \<subseteq> set draws" "ht_size (db_expires db') = ht_size ?e"
    "\<And>i. i < ht_size ?e \<Longrightarrow> ht_table (db_expires db') ! i \<noteq> [] \<Longrightarrow>
       ht_table ?e ! i \<noteq> [] \<and> count_list draws i \<le> count_list rest i + sample"
    by blast+
qed

text \<open>With enough draws it does return, and enough are left for the rounds to come.\<close>

lemma sweep_round:
  assumes wf: "db_wf db" and hit: "draws_hit (k + sample) draws db"
  obtains db' expired rest where "db_active_sweep stale draws db sample now = Some ((db', expired), rest)"
    "draws_hit k rest db'"
proof -
  let ?e = "db_expires db"
  note h = hit[unfolded draws_hit_def]
  have "\<exists>db' expired rest. db_active_sweep stale draws db sample now = Some ((db', expired), rest)"
  proof (cases "ht_used ?e = 0")
    case False
    let ?n = "min sample (ht_used ?e)"
    obtain i where i: "i < ht_size ?e" "ht_table ?e ! i \<noteq> []"
      using used_has_bucket[OF db_wfD(2)[OF wf]] False by auto
    have "sample \<le> length (filter (\<lambda>d. ht_table ?e ! d \<noteq> []) draws)"
      using h i count_hits[OF i(2), of draws] by fastforce
    then obtain picks rest where "pick_buckets (ht_table ?e) draws ?n = Some (picks, rest)"
      using pick_buckets_complete[of ?n "ht_table ?e" draws] min.coboundedI1 by blast
    with False show ?thesis by (simp add: db_active_sweep_def min_def Let_def split: if_splits)
  qed (simp add: db_active_sweep_def)
  then obtain db' expired rest where ran: "db_active_sweep stale draws db sample now = Some ((db', expired), rest)"
    by blast
  note s = sweep_sound[OF wf _ ran]
  have "draws_hit k rest db'"
    unfolding draws_hit_def using h s(3,4,5) by fastforce
  with ran show thesis by (rule that)
qed

text \<open>What a run of the active expiry leaves: well-formed tables in any case, the same view for every
  reader if a freed key still reads as the key, and the very same state if nothing has expired.\<close>

definition swept :: "(cstr \<Rightarrow> cstr) \<Rightarrow> sv \<Rightarrow> sv \<Rightarrow> bool" where
  "swept stale s s' \<longleftrightarrow>
     s' = s\<lparr>sdb := sdb s'\<rparr> \<and> db_wf (sdb s') \<and>
     (stale = (\<lambda>k. k) \<and> db_inv (sdb s) \<longrightarrow>
        db_inv (sdb s') \<and>
        (\<forall>now \<ge> now_realtime_ms s. kv_live now (db_abs (sdb s')) = kv_live now (db_abs (sdb s)))) \<and>
     ((\<forall>k. \<not> db_expired (sdb s) (now_realtime_ms s) k) \<longrightarrow> sdb s' = sdb s)"

lemma swept_refl: "db_wf (sdb s) \<Longrightarrow> swept stale s s"
  by (simp add: swept_def)

lemma swept_trans:
  "swept stale s (s\<lparr>sdb := db\<rparr>) \<Longrightarrow> swept stale (s\<lparr>sdb := db\<rparr>) s' \<Longrightarrow> swept stale s s'"
  by (auto simp: swept_def)

lemma sweep_swept:
  assumes "db_wf (sdb s)" "\<forall>d \<in> set draws. d < ht_size (db_expires (sdb s))"
    and "db_active_sweep stale draws (sdb s) sample (now_realtime_ms s) = Some ((db, expired), rest)"
  shows "swept stale s (s\<lparr>sdb := db\<rparr>)"
  using sweep_sound(1)[OF assms] sweep_values[OF _ assms(2)] sweep_idle[OF _ assms(3)] assms(3)
  unfolding swept_def by (intro conjI impI) auto

lemma expire_loop_swept:
  assumes "expire_loop stale clk budget start current n draws s = Some s'"
    "db_wf (sdb s)" "\<forall>d \<in> set draws. d < ht_size (db_expires (sdb s))"
  shows "swept stale s s'"
proof -
  have "db_wf (sdb s) \<longrightarrow> (\<forall>d \<in> set draws. d < ht_size (db_expires (sdb s))) \<longrightarrow> swept stale s s'"
  proof (induction rule: expire_loop.raw_induct[OF _ assms(1)])
    case (1 loop stale clk budget start current n draws s s')
    show ?case
    proof (intro impI)
      assume a: "db_wf (sdb s)" "\<forall>d \<in> set draws. d < ht_size (db_expires (sdb s))"
      show "swept stale s s'"
      proof (cases "wrap64 (current - start) < budget")
        case False
        with "1"(2) a(1) show ?thesis by (simp add: swept_refl)
      next
        case True
        with "1"(2) obtain db e rest where r: "db_active_sweep stale draws (sdb s)
            (nat (cfg_active_expire_keys_per_round (config s))) (now_realtime_ms s) = Some ((db, e), rest)"
          "(if below_threshold e (config s) then Some (s\<lparr>sdb := db\<rparr>)
            else loop stale clk budget start (clk n) (n + 1) rest (s\<lparr>sdb := db\<rparr>)) = Some s'"
          by (auto split: option.splits)
        note one = sweep_swept[OF a r(1)] and s = sweep_sound[OF a r(1)]
        show ?thesis
        proof (cases "below_threshold e (config s)")
          case False
          then have "loop stale clk budget start (clk n) (n + 1) rest (s\<lparr>sdb := db\<rparr>) = Some s'" using r(2) by simp
          from "1"(1)[OF this] s(1,3,4) a(2) have "swept stale (s\<lparr>sdb := db\<rparr>) s'" by auto
          with one show ?thesis by (rule swept_trans)
        qed (use one r(2) in simp)
      qed
    qed
  qed
  with assms show ?thesis by blast
qed

lemma expire_loop_ends:
  assumes cfg: "1 \<le> cfg_active_expire_percent cfg" "1 \<le> cfg_active_expire_keys_per_round cfg"
  shows "config s = cfg \<Longrightarrow> db_wf (sdb s) \<Longrightarrow> ht_used (db_expires (sdb s)) \<le> m \<Longrightarrow>
    draws_hit ((m + 1) * nat (cfg_active_expire_keys_per_round cfg)) draws (sdb s) \<Longrightarrow>
    \<exists>s'. expire_loop stale clk budget start current n draws s = Some s'"
proof (induction m arbitrary: s current n draws rule: less_induct)
  case (less m s current n draws)
  let ?k = "nat (cfg_active_expire_keys_per_round cfg)"
  have hit: "draws_hit (m * ?k + ?k) draws (sdb s)" using less.prems(4) by (simp add: algebra_simps)
  obtain db e rest where r: "db_active_sweep stale draws (sdb s) ?k (now_realtime_ms s) = Some ((db, e), rest)"
      "draws_hit (m * ?k) rest db"
    by (rule sweep_round[OF less.prems(2) hit])
  have range: "\<forall>d \<in> set draws. d < ht_size (db_expires (sdb s))" using hit by (simp add: draws_hit_def)
  note s = sweep_sound[OF less.prems(2) range r(1)]
  show ?case
  proof (cases "below_threshold e cfg")
    case True
    with r(1) less.prems(1) show ?thesis by (subst expire_loop.simps) simp
  next
    case False
    then have "e \<noteq> 0" using cfg by (cases "e = 0") (simp_all add: below_threshold_def)
    then obtain j where j: "m = Suc j" "ht_used (db_expires db) \<le> j" using s(2) less.prems(3) by (cases m) simp_all
    have "draws_hit ((j + 1) * ?k) rest db" using r(2) j(1) by simp
    then have "\<exists>s'. expire_loop stale clk budget start (clk n) (n + 1) rest (s\<lparr>sdb := db\<rparr>) = Some s'"
      by (intro less.IH[of j]) (use s(1) j less.prems(1) in simp_all)
    with r(1) False less.prems(1) show ?thesis by (subst expire_loop.simps) simp
  qed
qed

text \<open>Draws that are enough for a whole tick: one round more than there are deadlines.\<close>

definition tick_ok :: "tick_env \<Rightarrow> sv \<Rightarrow> bool" where
  "tick_ok te s \<longleftrightarrow>
     draws_hit ((ht_used (db_expires (sdb s)) + 1) * nat (cfg_active_expire_keys_per_round (config s)))
       (tk_draws te) (sdb s)"

lemma config_expiry: "config_ok c \<Longrightarrow> 1 \<le> cfg_active_expire_percent c \<and> 1 \<le> cfg_active_expire_keys_per_round c"
  by (simp add: config_ok_def config_table_def config_entry_def)

lemma active_expire_cron_ok:
  assumes "tick_ok te s" "config_ok (config s)" "db_wf (sdb s)"
  shows "\<exists>s'. active_expire_cron te s = Some s' \<and> swept (tk_stale te) s s'"
proof (cases "cfg_active_expire_enabled (config s)")
  case True
  note t = assms(1)[unfolded tick_ok_def]
  let ?b = "(1000 sdiv cfg_hz (config s)) sdiv 4"
  obtain s' where s': "expire_loop (tk_stale te) (tk_clk te) ?b (snow_ms s) (snow_ms s) 0 (tk_draws te) s = Some s'"
    using expire_loop_ends[of "config s" s "ht_used (db_expires (sdb s))" "tk_draws te"] t assms(2,3)
      config_expiry[OF assms(2)] by blast
  moreover have "swept (tk_stale te) s s'"
    by (rule expire_loop_swept[OF s' assms(3)]) (use t in \<open>simp add: draws_hit_def\<close>)
  ultimately show ?thesis using True by (simp add: active_expire_cron_def)
qed (use assms(3) in \<open>simp add: active_expire_cron_def swept_refl\<close>)

text \<open>Above 250 ticks a second the budget is no millisecond at all and nothing is swept.\<close>

lemma active_expire_no_budget:
  assumes "250 < cfg_hz (config s)"
  shows "active_expire_cron te s = Some s"
proof -
  let ?q = "1000 div cfg_hz (config s)"
  have "0 \<le> ?q" using assms by (simp add: pos_imp_zdiv_nonneg_iff)
  moreover have "?q < 4"
  proof -
    have "?q \<le> 1000 div 251" using assms by (intro zdiv_mono2) simp_all
    then show ?thesis by simp
  qed
  ultimately have "(1000 sdiv cfg_hz (config s)) sdiv 4 = 0"
    using assms by (auto simp: signed_divide_int_def sgn_if)
  then show ?thesis by (simp add: active_expire_cron_def expire_loop.simps i64_range_def)
qed

section \<open>What the log's tasks leave of the clients\<close>

text \<open>Clients, registrations, keyspace and configuration are the same and sockets stay sockets.\<close>

definition net_same :: "sv \<Rightarrow> sv \<Rightarrow> bool" where
  "net_same s s' \<longleftrightarrow>
     clients s' = clients s \<and> clients_count s' = clients_count s \<and> el s' = el s \<and> os_kq_read s' = os_kq_read s \<and>
     os_kq_write s' = os_kq_write s \<and> sdb s' = sdb s \<and> config s' = config s \<and>
     (\<forall>fd. sock_fd s fd \<longrightarrow> sock_fd s' fd)"

lemma net_same_refl [simp]: "net_same s s"
  by (simp add: net_same_def)

lemma net_same_trans: "net_same s t \<Longrightarrow> net_same t u \<Longrightarrow> net_same s u"
  by (simp add: net_same_def)

lemma net_same_inv:
  assumes "net_same s s'" "net_inv s"
  shows "net_inv s'"
proof -
  have "active_fds s' = active_fds s" "el_inv s' = el_inv s"
    using assms(1) by (simp_all add: net_same_def active_fds_def el_inv_def)
  with assms show ?thesis by (auto simp: net_inv_def net_same_def)
qed

lemma net_view_same: "net_view s' = net_view s \<Longrightarrow> sdb s' = sdb s \<Longrightarrow> net_same s s'"
  by (simp add: net_view_def net_same_def sock_fd_def)

lemma core_same: "core s' = core s \<Longrightarrow> net_same s s'"
  by (rule net_view_same[OF core_net_view core_proj(2)])

lemma net_same_field [simp]:
  "net_same s (t\<lparr>aof_fd := a\<rparr>) = net_same s t" "net_same s (t\<lparr>aof_rewrite_last_size := z\<rparr>) = net_same s t"
  "net_same s (t\<lparr>os_child := c\<rparr>) = net_same s t" "net_same s (t\<lparr>last_check_ms := z\<rparr>) = net_same s t"
  "net_same s (aof_rewrite_cleanup t) = net_same s t" "net_same s (aof_rewrite_record_failure t) = net_same s t"
  "net_same s (t\<lparr>aof_rewrites_completed := z, aof_rewrite_failed_streak := z1, aof_rewrite_next_attempt_ms := z2,
     aof_last_rewrite_duration_ms := z3\<rparr>) = net_same s t"
  by (simp_all add: net_same_def sock_fd_def aof_rewrite_cleanup_def aof_rewrite_record_failure_def Let_def)

lemma net_same_bind: "net_same s t \<Longrightarrow> net_same s (snd (sys_bind_fd ino t))"
  by (rule net_same_trans, assumption) (auto simp: net_same_def sock_fd_def sys_bind_fd_def)

lemma net_same_calls [simp]:
  assumes "net_same s t"
  shows "net_same s (snd (sys_ok t))" "net_same s (snd (sys_alloc t))" "net_same s (sys_close fd t)"
    "net_same s (snd (sys_write_all fd bs t))" "net_same s (snd (durable_flush fd t))"
    "net_same s (snd (sys_open_existing path t))" "net_same s (snd (open_aof path t))"
    "net_same s (snd (sys_rename from to t))" "net_same s (sys_unlink path t)"
proof -
  have ok: "net_same s (snd (sys_ok u))" if "net_same s u" for u
    using that core_same[OF sys_ok_frame(1)] by (rule net_same_trans)
  show "net_same s (snd (sys_ok t))" by (rule ok[OF assms])
  show "net_same s (snd (sys_alloc t))" using assms core_same[OF sys_alloc_frame(1)] by (rule net_same_trans)
  show "net_same s (sys_close fd t)"
    using assms by (rule net_same_trans) (auto simp: net_same_def sock_fd_def sys_close_def)
  show "net_same s (snd (sys_write_all fd bs t))"
    using assms by (rule net_same_trans) (auto simp: net_same_def sock_fd_def sys_write_all_def split: option.split prod.split)
  obtain b l g n where "durable_flush fd t = (b, t\<lparr>os_ok := l, os_synced := g, aof_total_fsyncs := n\<rparr>)"
    by (rule durable_flush_shape)
  then show "net_same s (snd (durable_flush fd t))"
    using assms by (simp add: net_same_def sock_fd_def)
  have new: "net_same s (snd (sys_new_file path u))" if "net_same s u" for u
    using that by (rule net_same_trans) (auto simp: net_same_def sock_fd_def sys_new_file_def Let_def)
  show "net_same s (snd (sys_open_existing path t))" "net_same s (snd (open_aof path t))"
    using ok[OF assms] net_same_bind[OF ok[OF assms]] net_same_bind[OF new[OF ok[OF assms]]]
    by (auto simp: sys_open_existing_def open_aof_def sys_open_create_def split_beta Let_def split: option.split)
  have path: "net_same s (u\<lparr>os_path := p\<rparr>) = net_same s u" for u p by (simp add: net_same_def sock_fd_def)
  show "net_same s (snd (sys_rename from to t))" "net_same s (sys_unlink path t)"
    using ok[OF assms] by (auto simp: sys_rename_def sys_unlink_def split_beta Let_def path split: option.split)
qed

lemma finalize_same: "net_same s t \<Longrightarrow> net_same s (aof_rewrite_finalize t)"
  by (simp add: aof_rewrite_finalize_def finalize_fail_def Let_def split_beta split: option.split)

lemma aof_rewrite_start_same: "net_same s t \<Longrightarrow> net_same s (snd (aof_rewrite_start pid t))"
  by (rule net_same_trans, assumption, rule net_view_same) simp_all

lemma rewrite_cron_same: "net_same s (aof_rewrite_cron pid s)"
  by (simp add: aof_rewrite_cron_def Let_def split_beta finalize_same aof_rewrite_start_same
      split: option.split child.split)

lemma cron_same: "net_same s (aof_cron s)"
  by (rule core_same) simp

section \<open>The configuration does not change\<close>

lemma remove_client_config [simp]: "config (remove_client fd s) = config s"
  by (rule remove_client_frame(3))

lemma el_add_write_config [simp]: "config (snd (el_add_write fd h s)) = config s"
  by (rule but_el_proj(5)) simp

lemma queue_write_config: "config (snd (queue_write fd data s)) = config s"
proof -
  have send: "config (snd (sys_send fd bs u)) = config u" for bs u
    by (cases rule: sys_send_cases[of fd bs u]) simp_all
  show ?thesis
    by (simp add: queue_write_def set_client_def Let_def split_beta send split: sent.split)
qed

lemma process_buffer_keeps_config: "process_buffer xe fd s = None \<or> map_option config (process_buffer xe fd s) = Some (config s)"
proof (induction xe fd s rule: process_buffer.induct)
  case (1 xe fd s)
  let ?buf = "c_buf (clients s fd)"
  let ?n = "be_dec (take FRAME_HDR_SIZE ?buf)"
  let ?ex = "command_execute xe (bytes_at FRAME_HDR_SIZE ?n ?buf) MSG_MAX s"
  show ?case
  proof (cases "length ?buf < FRAME_HDR_SIZE \<or> MSG_MAX < ?n \<or> length ?buf < FRAME_HDR_SIZE + ?n")
    case True
    then show ?thesis by (subst (1 2) process_buffer.simps) (auto simp: Let_def)
  next
    case whole: False
    show ?thesis
    proof (cases "\<exists>resp s1 ok s2. ?ex = Some (resp, s1) \<and> send_framed fd resp s1 = Some (ok, s2)")
      case False
      with whole have "process_buffer xe fd s = None"
        by (subst process_buffer.simps) (auto simp: Let_def split: option.split)
      then show ?thesis ..
    next
      case True
      then obtain resp s1 ok s2 where ex: "?ex = Some (resp, s1)" and q: "send_framed fd resp s1 = Some (ok, s2)" by blast
      have "config s1 = config s" by (rule net_view_proj(7)[OF command_execute_net_view[OF ex]])
      then have cfg: "config s2 = config s"
        using q queue_write_config[of fd "frame resp" s1] by (auto simp: send_framed_def split: if_splits)
      show ?thesis
      proof (cases ok)
        case False
        with whole ex q cfg show ?thesis by (subst (1 2) process_buffer.simps) (simp add: Let_def)
      next
        case True
        let ?s3 = "set_client fd ((clients s2 fd)\<lparr>c_buf := drop (FRAME_HDR_SIZE + ?n) (c_buf (clients s2 fd))\<rparr>) s2"
        have "process_buffer xe fd s = process_buffer xe fd ?s3"
          using whole ex q True by (subst process_buffer.simps) (simp add: Let_def)
        moreover have "process_buffer xe fd ?s3 = None \<or> map_option config (process_buffer xe fd ?s3) = Some (config ?s3)"
          using "1.IH" whole ex q True by (simp add: Let_def)
        ultimately show ?thesis using cfg by (simp add: set_client_def)
      qed
    qed
  qed
qed

lemma process_buffer_config: "process_buffer xe fd s = Some s' \<Longrightarrow> config s' = config s"
  using process_buffer_keeps_config[of xe fd s] by simp

lemma on_read_config: "on_read xe inc fd s = Some s' \<Longrightarrow> config s' = config s"
  by (auto simp: on_read_def Let_def set_client_def dest: process_buffer_config split: if_splits incoming.splits)

lemma on_write_config:
  assumes "on_write xe fd s = Some s'"
  shows "config s' = config s"
proof -
  let ?bs = "drop (c_woff (clients s fd)) (c_wbuf (clients s fd))"
  have rm: "config (el_remove_write f u) = config u" for f u by (rule but_el_proj(5)) simp
  show ?thesis
    by (cases rule: sys_send_cases[of fd ?bs s])
      (use assms in \<open>auto simp: on_write_def Let_def set_client_def rm dest: process_buffer_config split: if_splits\<close>)
qed

lemma on_accept_config: "config (on_accept fd s) = config s"
proof -
  have add: "config (snd (el_add f h u)) = config u" for f h u by (rule but_el_proj(5)) simp
  have ok: "config (snd (sys_ok u)) = config u" for u by (rule core_proj(1)) simp
  show ?thesis
    by (simp add: on_accept_def sys_took_fd_def sys_close_def set_client_def Let_def split_beta add ok)
qed

section \<open>Timeouts and the files\<close>

text \<open>What the log depends on: its files, the rewrite and the child.\<close>

definition log_side :: "sv \<Rightarrow> sv \<Rightarrow> bool" where
  "log_side s s' \<longleftrightarrow> disk s' = disk s \<and> rewrite_view s' = rewrite_view s \<and> os_child s' = os_child s"

lemma log_side_refl: "log_side s s" and log_side_trans: "log_side s t \<Longrightarrow> log_side t u \<Longrightarrow> log_side s u"
  by (simp_all add: log_side_def)

lemma log_side_durable:
  "durable_inv T s \<Longrightarrow> log_side s s' \<Longrightarrow> db_inv (sdb s') \<Longrightarrow> db_abs (sdb s') = db_abs (sdb s) \<Longrightarrow> durable_inv T s'"
  unfolding log_side_def by (blast intro: durable_inv_cong)

lemma remove_client_log_side:
  assumes "net_inv s" "fd \<in> active_fds s"
  shows "log_side s (remove_client fd s)"
proof -
  have "os_fd s (int fd) = None" "fd < MAX_FDS"
    using net_invD(5)[OF assms] net_invD(2)[OF assms(1)] assms(2) by (auto simp: sock_fd_def)
  then show ?thesis
    by (simp add: log_side_def disk_def rewrite_view_def remove_client_def set_client_def sys_close_def el_remove_def
        Let_def fun_upd_idem)
qed

text \<open>What removing one client does, the loop over all of them does.\<close>

lemma timeouts_loop_rel:
  assumes refl: "\<And>s. R s s" and trans: "\<And>s t u. R s t \<Longrightarrow> R t u \<Longrightarrow> R s u"
    and one: "\<And>s fd. net_inv s \<Longrightarrow> fd \<in> active_fds s \<Longrightarrow> R s (remove_client fd s)"
  shows "net_inv s \<Longrightarrow> R s (timeouts_loop i found s)"
proof (induction i found s rule: timeouts_loop.induct)
  case (1 i found s)
  let ?s = "if idle_out s i then remove_client i s else s"
  let ?go = "i < MAX_FDS \<and> found < clients_count s"
  show ?case
  proof (cases ?go)
    case False
    then have "timeouts_loop i found s = s" by (subst timeouts_loop.simps) (simp only: if_False)
    then show ?thesis by (simp add: refl)
  next
    case go: True
    show ?thesis
    proof (cases "c_active (clients s i)")
      case False
      with go have "timeouts_loop i found s = timeouts_loop (i + 1) found s" by (subst timeouts_loop.simps) simp
      with "1.IH"(1)[OF go False "1.prems"] show ?thesis by simp
    next
      case True
      then have act: "i \<in> active_fds s" by (simp add: active_iff)
      have eq: "timeouts_loop i found s = timeouts_loop (i + 1) (found + 1) ?s"
        using go True by (subst timeouts_loop.simps) (simp add: idle_out_def)
      have s: "net_inv ?s" "R s ?s"
        using "1.prems" net_inv_remove(1)[OF "1.prems" act] one[OF "1.prems" act] refl by simp_all
      have "R ?s (timeouts_loop (i + 1) (found + 1) ?s)"
        using "1.IH"(2) go True s(1) by (simp add: idle_out_def)
      with s(2) show ?thesis unfolding eq by (rule trans)
    qed
  qed
qed

lemma timeouts_log_side: "net_inv s \<Longrightarrow> log_side s (timeouts_loop i found s)"
  by (rule timeouts_loop_rel) (blast intro: log_side_refl log_side_trans remove_client_log_side)+

text \<open>The handler of the shutdown pipe and the flag that ends the loop.\<close>

definition stop_side :: "sv \<Rightarrow> sv \<Rightarrow> bool" where
  "stop_side s s' \<longleftrightarrow>
     el_stop (el s') = el_stop (el s) \<and>
     (\<forall>fd. el_read_handlers (el s) fd = Some OnShutdown \<longrightarrow> el_read_handlers (el s') fd = Some OnShutdown)"

lemma stop_side_refl: "stop_side s s" and stop_side_trans: "stop_side s t \<Longrightarrow> stop_side t u \<Longrightarrow> stop_side s u"
  by (simp_all add: stop_side_def)

lemma remove_client_stop_side: "net_inv s \<Longrightarrow> fd \<in> active_fds s \<Longrightarrow> stop_side s (remove_client fd s)"
  using net_invD(5)[of s fd]
  by (auto simp: stop_side_def remove_client_def set_client_def sys_close_def el_remove_def Let_def)

lemma timeouts_stop_side: "net_inv s \<Longrightarrow> stop_side s (timeouts_loop i found s)"
  by (rule timeouts_loop_rel) (blast intro: stop_side_refl stop_side_trans remove_client_stop_side)+

lemma client_timeouts_cron_ok:
  assumes "net_inv s"
  shows "net_inv (client_timeouts_cron s)" "sdb (client_timeouts_cron s) = sdb s" "log_side s (client_timeouts_cron s)"
    "config (client_timeouts_cron s) = config s" "stop_side s (client_timeouts_cron s)"
proof -
  have t: "net_inv (s\<lparr>last_timeout_check_ms := z\<rparr>)" "log_side s (s\<lparr>last_timeout_check_ms := z\<rparr>)" for z
    using assms by (auto simp: log_side_def disk_def rewrite_view_def intro: net_same_inv[rotated] simp: net_same_def sock_fd_def)
  note loop = timeouts_loop_ok[OF t(1)] timeouts_log_side[OF t(1)]
  show "net_inv (client_timeouts_cron s)" "sdb (client_timeouts_cron s) = sdb s"
    using t loop by (simp_all add: client_timeouts_cron_def check_client_timeouts_def Let_def split_beta)
  show l: "log_side s (client_timeouts_cron s)"
    using t(2) log_side_trans[OF t(2) timeouts_log_side[OF t(1)]]
    by (simp add: client_timeouts_cron_def check_client_timeouts_def Let_def split_beta)
  then show "config (client_timeouts_cron s) = config s" by (simp add: log_side_def disk_def)
  show "stop_side s (client_timeouts_cron s)"
    using timeouts_stop_side[OF t(1)] by (simp add: client_timeouts_cron_def check_client_timeouts_def stop_side_def Let_def split_beta)
qed

section \<open>The invariant of the server\<close>

text \<open>The clients and the registrations, the two tables of the keyspace, the ranges of the
  configuration.\<close>

definition srv_inv :: "sv \<Rightarrow> bool" where
  "srv_inv s \<longleftrightarrow> net_inv s \<and> db_wf (sdb s) \<and> config_ok (config s)"

lemma before_sleep_inv:
  assumes "srv_inv s" "tick_ok te s"
  shows "\<exists>s'. before_sleep te s = Some s' \<and> srv_inv s' \<and> stop_side s s'"
proof -
  let ?s = "s\<lparr>snow_ms := tk_now te, now_realtime_ms := tk_realtime te, cronloops := cronloops s + 1\<rparr>"
  have n: "net_inv ?s" "db_wf (sdb ?s)" "config_ok (config ?s)"
    using assms(1) net_same_inv[of s ?s] by (simp_all add: srv_inv_def net_same_def sock_fd_def)
  have "tick_ok te ?s" using assms(2) by (simp add: tick_ok_def)
  from active_expire_cron_ok[OF this n(3,2)] obtain s1 where s1: "active_expire_cron te ?s = Some s1" "swept (tk_stale te) ?s s1" by blast
  have eq: "s1 = ?s\<lparr>sdb := sdb s1\<rparr>" and db: "db_wf (sdb s1)" using s1(2) unfolding swept_def by blast+
  have "net_view s1 = net_view ?s" using arg_cong[OF eq, of net_view] by (simp add: net_view_def)
  from net_view_inv[OF this] net_view_proj(7)[OF this] n(1)
  have n1: "net_inv s1" "config s1 = config s" by simp_all
  note c = client_timeouts_cron_ok[OF n1(1)]
  let ?s2 = "client_timeouts_cron s1"
  have "net_same ?s2 (aof_rewrite_cron (tk_pid te) (aof_cron ?s2))"
    using cron_same rewrite_cron_same by (rule net_same_trans)
  then have "srv_inv (aof_rewrite_cron (tk_pid te) (aof_cron ?s2))"
    using net_same_inv[OF _ c(1)] c(2,4) n1(2) db n(3) by (simp add: srv_inv_def net_same_def)
  moreover have "stop_side s (aof_rewrite_cron (tk_pid te) (aof_cron ?s2))"
  proof -
    have "el s1 = el s" using arg_cong[OF eq, of el] by simp
    then show ?thesis
      using c(5) \<open>net_same ?s2 (aof_rewrite_cron (tk_pid te) (aof_cron ?s2))\<close> by (simp add: stop_side_def net_same_def)
  qed
  ultimately show ?thesis using s1(1) by (simp add: before_sleep_def)
qed

text \<open>What the kernel promises: \<open>kevent\<close> reports a filter that is registered when it is called,
  and \<open>accept\<close> returns a descriptor that is not in use when its handler runs.\<close>

definition reported :: "sv \<Rightarrow> event \<Rightarrow> bool" where
  "reported s e \<longleftrightarrow>
     (case ev_filter e of EVFILT_READ \<Rightarrow> ev_ident e \<in> os_kq_read s | EVFILT_WRITE \<Rightarrow> ev_ident e \<in> os_kq_write s)"

definition accept_ok :: "event \<Rightarrow> sv \<Rightarrow> bool" where
  "accept_ok e s \<longleftrightarrow>
     (ev_filter e = EVFILT_READ \<and> el_read_handlers (el s) (ev_ident e) = Some OnAccept \<longrightarrow> fresh_fd (ev_accepted e) s)"

text \<open>Only descriptors inside the tables are ever registered.\<close>

lemma reported_range:
  assumes "srv_inv s" "reported s e"
  shows "ev_ident e < MAX_FDS"
proof -
  have "el_inv s" using assms(1) by (simp add: srv_inv_def net_inv_def)
  from el_invD(3,4)[OF this] assms(2) show ?thesis by (auto simp: reported_def split: kfilter.splits)
qed

lemma drain_shape: "drain s = s\<lparr>os_pipe := []\<rparr>"
proof (induction s rule: drain.induct)
  case (1 s)
  show ?case
  proof (cases "os_pipe s = []")
    case True
    then show ?thesis by (cases s) (simp add: drain.simps)
  next
    case False
    with 1 show ?thesis by (simp add: drain.simps[of s])
  qed
qed

lemma on_shutdown_shape: "on_shutdown s = s\<lparr>os_pipe := [], el := (el s)\<lparr>el_stop := True\<rparr>\<rparr>"
  by (simp add: on_shutdown_def drain_shape)

lemma on_shutdown_inv:
  assumes "net_inv s"
  shows "net_inv (on_shutdown s)"
proof -
  have "sock_fd (on_shutdown s) = sock_fd s" "active_fds (on_shutdown s) = active_fds s" "el_inv (on_shutdown s) = el_inv s"
    by (simp_all add: on_shutdown_shape sock_fd_def[abs_def] active_fds_def el_inv_def)
  with assms show ?thesis unfolding net_inv_def by (simp add: on_shutdown_shape)
qed

lemma dispatch_inv:
  assumes inv: "srv_inv s" and fd: "ev_ident e < MAX_FDS" and ok: "accept_ok e s"
  shows "\<exists>s'. dispatch e s = Some s' \<and> srv_inv s'"
proof -
  have i: "net_inv s" "db_wf (sdb s)" "config_ok (config s)" using inv by (simp_all add: srv_inv_def)
  let ?fd = "ev_ident e"
  note h = el_invD(5,6)[OF net_invD(1)[OF i(1)], of ?fd]
  have rd: "\<exists>s'. call_handler OnRead e s = Some s' \<and> srv_inv s'"
    using wfk.on_read_ok[OF i(1,2), of "ev_xe e" "ev_incoming e" ?fd] on_read_config i(3) by (fastforce simp: srv_inv_def)
  have sh: "srv_inv (on_shutdown s)" using inv on_shutdown_inv by (simp add: srv_inv_def on_shutdown_shape)
  show ?thesis
  proof (cases "ev_filter e")
    case EVFILT_READ
    show ?thesis
    proof (cases "el_read_handlers (el s) ?fd")
      case (Some hd)
      with h(1) show ?thesis
      proof (cases hd)
        case OnAccept
        then have "fresh_fd (ev_accepted e) s" using ok EVFILT_READ Some by (simp add: accept_ok_def)
        with on_accept_ok[OF i(1)] i on_accept_config OnAccept EVFILT_READ Some fd show ?thesis
          by (simp add: dispatch_def srv_inv_def)
      qed (use rd sh fd EVFILT_READ Some in \<open>simp_all add: dispatch_def\<close>)
    qed (use inv fd EVFILT_READ in \<open>simp add: dispatch_def\<close>)
  next
    case EVFILT_WRITE
    show ?thesis
    proof (cases "el_write_handlers (el s) ?fd")
      case (Some hd)
      then have "hd = OnWrite" "?fd \<in> active_fds s" using h(2) net_invD(6)[OF i(1), of ?fd] by auto
      with wfk.on_write_ok[OF i(1,2), of ?fd "ev_xe e"] on_write_config i(3) fd EVFILT_WRITE Some show ?thesis
        by (fastforce simp: dispatch_def srv_inv_def split: option.split)
    qed (use inv fd EVFILT_WRITE in \<open>simp add: dispatch_def split: option.split\<close>)
  qed
qed

section \<open>Runs of the loop\<close>

fun accepts_ok :: "event list \<Rightarrow> sv \<Rightarrow> bool" where
  "accepts_ok [] s \<longleftrightarrow> True"
| "accepts_ok (e # es) s \<longleftrightarrow> accept_ok e s \<and> (case dispatch e s of Some s \<Rightarrow> accepts_ok es s | None \<Rightarrow> True)"

text \<open>Every tick has the draws it needs, the events were reported when \<open>kevent\<close> was called, and
  \<open>accept\<close> keeps its promise when the handler calls it.\<close>

fun rounds_ok :: "(tick_env \<times> polled) list \<Rightarrow> sv \<Rightarrow> bool" where
  "rounds_ok [] s \<longleftrightarrow> True"
| "rounds_ok ((te, p) # rounds) s \<longleftrightarrow>
     el_stop (el s) \<or>
     tick_ok te s \<and>
     (case before_sleep te s of
        None \<Rightarrow> True
      | Some s \<Rightarrow>
          (case p of
             PollIntr \<Rightarrow> rounds_ok rounds s
           | PollErr \<Rightarrow> True
           | Polled events \<Rightarrow>
               (\<forall>e \<in> set events. reported s e) \<and> accepts_ok (take MAX_EVENTS events) s \<and>
               (case dispatch_all (take MAX_EVENTS events) s of None \<Rightarrow> True | Some s \<Rightarrow> rounds_ok rounds s)))"

lemma dispatch_all_inv:
  "srv_inv s \<Longrightarrow> \<forall>e \<in> set es. ev_ident e < MAX_FDS \<Longrightarrow> accepts_ok es s \<Longrightarrow> \<exists>s'. dispatch_all es s = Some s' \<and> srv_inv s'"
proof (induction es arbitrary: s)
  case (Cons e es)
  then obtain t where "dispatch e s = Some t" "srv_inv t" using dispatch_inv[of s e] by auto
  with Cons show ?case by auto
qed simp

lemma el_run_inv:
  "srv_inv s \<Longrightarrow> rounds_ok rounds s \<Longrightarrow>
   \<exists>rc s'. el_run rounds s = Some (rc, s') \<and> srv_inv s' \<and>
     (rc = None \<or> rc = Some 0 \<and> el_stop (el s') \<or> rc = Some (-1) \<and> PollErr \<in> snd ` set rounds)"
proof (induction rounds s rule: el_run.induct)
  case (2 te p rounds s)
  show ?case
  proof (cases "el_stop (el s)")
    case False
    have tick: "tick_ok te s" using "2.prems"(2) False by simp
    obtain s1 where s1: "before_sleep te s = Some s1" "srv_inv s1" using before_sleep_inv[OF "2.prems"(1) tick] by blast
    show ?thesis
    proof (cases p)
      case PollIntr
      with "2.IH"(1)[OF False s1(1) PollIntr s1(2)] "2.prems"(2) False s1(1) show ?thesis by auto
    next
      case PollErr
      with False s1 show ?thesis by auto
    next
      case (Polled events)
      let ?es = "take MAX_EVENTS events"
      have rep: "\<forall>e \<in> set events. reported s1 e" and acc: "accepts_ok ?es s1"
        using "2.prems"(2) False s1(1) Polled by simp_all
      have "\<forall>e \<in> set ?es. ev_ident e < MAX_FDS" using reported_range[OF s1(2)] rep by (meson in_set_takeD)
      from dispatch_all_inv[OF s1(2) this acc] obtain s2 where s2: "dispatch_all ?es s1 = Some s2" "srv_inv s2" by blast
      from "2.IH"(2)[OF False s1(1) Polled s2(1,2)] "2.prems"(2) False s1(1) s2(1) Polled show ?thesis by auto
    qed
  qed (use "2.prems" in simp)
qed auto

section \<open>Steps of the server\<close>

text \<open>The state with the events of the last \<open>kevent\<close> that are still to be handled. The work before
  a sleep and the poll, the next event, a signal, the end of the rewrite child and what the
  system has in store come in any order, so a signal or the end of the child may fall between
  two events of one poll.\<close>

inductive server_step :: "sv \<times> event list \<Rightarrow> sv \<times> event list \<Rightarrow> bool" where
  sleep: "tick_ok te s \<Longrightarrow> before_sleep te s = Some s' \<Longrightarrow> server_step (s, []) (s', [])"
| poll: "\<forall>e \<in> set es. reported s e \<Longrightarrow> server_step (s, []) (s, es)"
| event: "accept_ok e s \<Longrightarrow> dispatch e s = Some s' \<Longrightarrow> server_step (s, e # es) (s', es)"
| signal: "sig_shutdown_handler sig s = Some s' \<Longrightarrow> server_step (s, es) (s', es)"
| child: "child_finishes clk created stack s = Some s' \<Longrightarrow> server_step (s, es) (s', es)"
| killed: "os_child s = Running db \<Longrightarrow> server_step (s, es) (s\<lparr>os_child := Signaled\<rparr>, es)"
| outcomes: "server_step (s, es) (s\<lparr>os_io := io, os_ok := ok, os_alloc := al\<rparr>, es)"

inductive_cases server_stepE: "server_step p p'"

definition serve_inv :: "sv \<times> event list \<Rightarrow> bool" where
  "serve_inv p \<longleftrightarrow> srv_inv (fst p) \<and> (\<forall>e \<in> set (snd p). ev_ident e < MAX_FDS)"

lemma srv_inv_same: "srv_inv s \<Longrightarrow> net_same s s' \<Longrightarrow> srv_inv s'"
  using net_same_inv[of s s'] by (simp add: srv_inv_def net_same_def)

interpretation srv: machine server_step serve_inv
proof unfold_locales
  fix p p' assume inv: "serve_inv p" and step: "server_step p p'"
  have same: "serve_inv (s', es)" if "p = (s, es)" "net_same s s'" for s es s'
    using inv that srv_inv_same[of s s'] by (simp add: serve_inv_def)
  from step show "serve_inv p'"
  proof cases
    case (sleep te s s')
    with inv before_sleep_inv[of s te] show ?thesis by (auto simp: serve_inv_def)
  next
    case (poll es s)
    with inv reported_range[of s] show ?thesis by (auto simp: serve_inv_def)
  next
    case (event e s s' es)
    with inv dispatch_inv[of s e] show ?thesis by (auto simp: serve_inv_def)
  next
    case (signal sig s s' es)
    then have "net_same s s'" by (auto simp: sig_shutdown_handler_def net_same_def sock_fd_def split: if_splits)
    with signal same show ?thesis by blast
  next
    case (child clk created stack s s' es)
    then have "net_same s s'" by (auto simp: child_finishes_def net_same_def sock_fd_def split: child.splits)
    with child same show ?thesis by blast
  next
    case (killed s db es)
    then show ?thesis using same[of s es "s\<lparr>os_child := Signaled\<rparr>"] by simp
  next
    case (outcomes s es al ok io)
    then show ?thesis using same[of s es "s\<lparr>os_io := io, os_ok := ok, os_alloc := al\<rparr>"] by (simp add: net_same_def sock_fd_def)
  qed
qed

text \<open>An event on the shutdown pipe ends the loop.\<close>

lemma shutdown_round_stops:
  assumes "srv_inv s" "tick_ok te s" "el_read_handlers (el s) fd = Some OnShutdown" "ev_ident e = fd" "ev_filter e = EVFILT_READ"
  shows "\<exists>s'. el_run ((te, Polled [e]) # rounds) s = Some (Some 0, s')"
    and "rounds_ok [(te, Polled [e])] s"
proof -
  obtain s1 where s1: "before_sleep te s = Some s1" "srv_inv s1" "stop_side s s1"
    using before_sleep_inv[OF assms(1,2)] by blast
  have h: "el_read_handlers (el s1) fd = Some OnShutdown" using s1(3) assms(3) by (simp add: stop_side_def)
  have el: "el_inv s1" using s1(2) by (simp add: srv_inv_def net_inv_def)
  have fd: "fd \<in> os_kq_read s1" using el_invD(1)[OF el] h by auto
  have d: "dispatch e s1 = Some (on_shutdown s1)"
    using assms(4,5) h el_invD(3)[OF el fd] by (simp add: dispatch_def)
  moreover have "el_run rounds (on_shutdown s1) = Some (Some 0, on_shutdown s1)"
    by (cases "(rounds, on_shutdown s1)" rule: el_run.cases) (auto simp: on_shutdown_shape)
  ultimately show "\<exists>s'. el_run ((te, Polled [e]) # rounds) s = Some (Some 0, s')"
    using s1(1) by (cases "el_stop (el s)") (simp_all add: MAX_EVENTS_def)
  show "rounds_ok [(te, Polled [e])] s"
    using s1(1) assms(2,4,5) d h fd by (simp add: MAX_EVENTS_def reported_def accept_ok_def)
qed

section \<open>A tick and the log\<close>

text \<open>Before the first deadline the work before a sleep leaves every key alone and the log in step
  with the keyspace.\<close>

lemma before_sleep_durable:
  assumes inv: "durable_inv T s" "srv_inv s" "tick_ok te s" and early: "tk_realtime te \<le> T"
  shows "\<exists>s'. before_sleep te s = Some s' \<and> durable_inv T s' \<and> srv_inv s' \<and> db_abs (sdb s') = db_abs (sdb s)"
proof -
  let ?s = "s\<lparr>snow_ms := tk_now te, now_realtime_ms := tk_realtime te, cronloops := cronloops s + 1\<rparr>"
  have side: "log_side s ?s" by (simp add: log_side_def disk_def rewrite_view_def)
  have db: "db_inv (sdb s)" by (rule durable_invD(2)[OF inv(1)])
  have d: "durable_inv T ?s" by (rule log_side_durable[OF inv(1) side]) (simp_all add: db)
  have n: "net_inv ?s" "db_wf (sdb ?s)" "config_ok (config ?s)"
    using inv(2) net_same_inv[of s ?s] by (simp_all add: srv_inv_def net_same_def sock_fd_def)
  have "tick_ok te ?s" using inv(3) by (simp add: tick_ok_def)
  from active_expire_cron_ok[OF this n(3,2)] obtain s1 where s1: "active_expire_cron te ?s = Some s1" "swept (tk_stale te) ?s s1" by blast
  have eq: "s1 = ?s\<lparr>sdb := sdb s1\<rparr>" using s1(2) unfolding swept_def by blast
  have "\<forall>k. \<not> db_expired (sdb ?s) (now_realtime_ms ?s) k" using durable_inv_unexpired[OF inv(1) early] by simp
  then have "sdb s1 = sdb ?s" using s1(2) unfolding swept_def by blast
  then have abs: "db_abs (sdb s1) = db_abs (sdb s)" and db1: "db_inv (sdb s1)" using db by simp_all
  have "log_side ?s s1" using arg_cong[OF eq, of disk] arg_cong[OF eq, of rewrite_view] arg_cong[OF eq, of os_child]
    by (simp add: log_side_def disk_def rewrite_view_def)
  then have d1: "durable_inv T s1" by (rule log_side_durable[OF d _ db1]) (simp add: abs)
  have "net_view s1 = net_view ?s" using arg_cong[OF eq, of net_view] by (simp add: net_view_def)
  from net_view_inv[OF this] n(1) have n1: "net_inv s1" by simp
  note c = client_timeouts_cron_ok[OF n1]
  let ?s2 = "client_timeouts_cron s1"
  let ?s3 = "aof_rewrite_cron (tk_pid te) (aof_cron ?s2)"
  have "durable_inv T ?s2" by (rule log_side_durable[OF d1 c(3)]) (simp_all add: c(2) db1)
  then have "durable_inv T ?s3"
    using dur.step_inv[OF _ durable_step.flush] dur.step_inv[OF _ durable_step.cron] by blast
  moreover have "sdb ?s3 = sdb s1"
    using net_same_trans[OF cron_same[of ?s2] rewrite_cron_same[of "aof_cron ?s2" "tk_pid te"]] c(2) by (simp add: net_same_def)
  moreover have "before_sleep te s = Some ?s3" using s1(1) by (simp add: before_sleep_def)
  moreover have "srv_inv ?s3" using before_sleep_inv[OF inv(2,3)] \<open>before_sleep te s = Some ?s3\<close> by auto
  ultimately show ?thesis using abs by simp
qed

section \<open>An aborted rewrite\<close>

lemma abort_signals:
  assumes "os_child s = Running db" "aof_rewrite_buf s = Some diff"
    and "aof_rewrite_cap s < length diff + length rec" "nat (cfg_aof_rewrite_buf_max_size (config s)) < length diff + length rec"
  shows "aof_emit_diff rec s =
    s\<lparr>os_pipe := os_pipe s @ [SIGTERM], aof_rewrite_buf := None, aof_rewrite_state := AOF_RW_ABORTING\<rparr>"
  using assms
  by (simp add: aof_emit_diff_def aof_abort_rewrite_def sys_kill_child_def sig_shutdown_handler_def SIGINT_def SIGTERM_def Let_def)

section \<open>Properties\<close>

text \<open>A tick at time 8 that draws each of four buckets forty times, and a server with its shutdown pipe on
  descriptor 4 and one client.\<close>

definition tick0 :: tick_env where
  "tick0 = \<lparr>tk_now = 0, tk_realtime = 8, tk_clk = (\<lambda>_. 0), tk_draws = concat (replicate 40 [0, 1, 2, 3]),
            tk_stale = (\<lambda>k. k), tk_pid = 7\<rparr>"

definition serving :: sv where
  "serving = (one_client [])\<lparr>os_kq_read := {4, 5},
     el := \<lparr>el_read_handlers = [4 \<mapsto> OnShutdown, 5 \<mapsto> OnRead], el_write_handlers = Map.empty, el_poll_timeout_ms = 100,
           el_stop = False\<rparr>\<rparr>"

lemma count_rounds: "i < 4 \<Longrightarrow> count_list (concat (replicate n [0, 1, 2, 3])) i = n" for i :: nat
  by (induction n) (auto simp: less_Suc_eq numeral_eq_Suc)

lemma tick0_ok:
  assumes "ht_size (db_expires (sdb s)) = 4" "config s = init_server_config" "ht_used (db_expires (sdb s)) \<le> 1"
  shows "tick_ok tick0 s"
proof -
  have "\<forall>d \<in> set (concat (replicate 40 [0, 1, 2, 3 :: nat])). d < 4" by auto
  moreover have "(ht_used (db_expires (sdb s)) + 1) * 20 \<le> count_list (concat (replicate 40 [0, 1, 2, 3])) i" if "i < 4" for i :: nat
    unfolding count_rounds[OF that] using assms(3) by simp
  ultimately show ?thesis
    using assms(1,2) by (simp add: tick_ok_def tick0_def draws_hit_def init_server_config_def del: concat_replicate_trivial)
qed

lemma config_ok_default: "config_ok init_server_config"
  by (simp add: config_ok_def config_table_def config_entry_def init_server_config_def)

lemma serving_facts:
  "srv_inv serving" "tick_ok tick0 serving" "el_read_handlers (el serving) 4 = Some OnShutdown" "config serving = init_server_config"
proof -
  have s: "sdb serving = db_create 0" "config serving = init_server_config"
    by (simp_all add: serving_def one_client_def server_zero_def)
  have act: "active_fds serving = {5}"
    by (auto simp: active_fds_def serving_def one_client_def client_zero_def)
  have "net_inv serving"
    unfolding net_inv_def act
    by (auto simp: serving_def one_client_def el_inv_def client_ok_def client_zero_def server_zero_def net_sizes sock_fd_def
        split: if_splits)
  with s show "srv_inv serving" by (simp add: srv_inv_def db_inv_wf[OF db_create_inv] config_ok_default)
  show "tick_ok tick0 serving"
    by (rule tick0_ok) (simp_all add: s db_create_def ht_create_def HT_INITIAL_SIZE_def)
  show "config serving = init_server_config" by (rule s(2))
  show "el_read_handlers (el serving) 4 = Some OnShutdown" by (simp add: serving_def)
qed

text \<open>C5: The active expiry returns in every tick, whatever the clock shows and however freed keys
  read, once every bucket in use has been drawn often enough (a round that goes on has removed
  a deadline, so there is at most one round more than deadlines); it changes nothing but the
  keyspace and keeps its two tables well formed, and when nothing has expired it changes nothing.
  Provided the key of a freed entry still reads as it did, it also keeps the keyspace's invariant
  and changes nothing a reader at that time or later can see; otherwise C26 says what it leaves.\<close>

theorem active_expire_ends:
  assumes "tick_ok te s" "config_ok (config s)" "db_wf (sdb s)"
  shows "\<exists>s'. active_expire_cron te s = Some s' \<and> s' = s\<lparr>sdb := sdb s'\<rparr> \<and> db_wf (sdb s') \<and>
    ((\<forall>k. \<not> db_expired (sdb s) (now_realtime_ms s) k) \<longrightarrow> sdb s' = sdb s) \<and>
    (tk_stale te = (\<lambda>k. k) \<and> db_inv (sdb s) \<longrightarrow> db_inv (sdb s') \<and>
       (\<forall>now \<ge> now_realtime_ms s. kv_live now (db_abs (sdb s')) = kv_live now (db_abs (sdb s))))"
proof -
  obtain s' where s': "active_expire_cron te s = Some s'" "swept (tk_stale te) s s'" using active_expire_cron_ok[OF assms] by blast
  show ?thesis by (rule exI[of _ s']) (use s' in \<open>unfold swept_def, blast\<close>)
qed

theorem active_expire_ends_witness:
  "\<exists>s'. active_expire_cron tick0 ((server_zero Apple)\<lparr>now_realtime_ms := 8,
       sdb := fst (db_run (KSetex (lit ''k'') (lit ''v'') 7) (db_create 0))\<rparr>) = Some s' \<and>
     kv_live 8 (db_abs (sdb s')) = Map.empty"
proof -
  let ?db = "fst (db_run (KSetex (lit ''k'') (lit ''v'') 7) (db_create 0))"
  let ?s = "(server_zero Apple)\<lparr>now_realtime_ms := 8, sdb := ?db\<rparr>"
  have size: "ht_size (db_expires ?db) = 4" "ht_used (db_expires ?db) = 1"
    by (simp_all add: db_setex_def db_create_def ht_op_defs ht_set_def ht_upsert_def ht_create_def
        HT_INITIAL_SIZE_def lit_def ht_index_def ht_hash_def Let_def over_load_factor_def)
  have c: "config ?s = init_server_config" by (simp add: server_zero_def)
  have t: "tick_ok tick0 ?s" by (rule tick0_ok) (use size c in \<open>simp_all del: db_run.simps\<close>)
  have live: "kv_live 8 (db_abs (sdb ?s)) = Map.empty" by (auto simp: db_k7_abs kv_live_def fun_eq_iff simp del: db_run.simps)
  obtain s' where s': "active_expire_cron tick0 ?s = Some s'"
      "\<forall>now \<ge> now_realtime_ms ?s. kv_live now (db_abs (sdb s')) = kv_live now (db_abs (sdb ?s))"
    using active_expire_ends[OF t] c config_ok_default db_k7_inv db_inv_wf[OF db_k7_inv] by (auto simp: tick0_def)
  then have "kv_live 8 (db_abs (sdb s')) = kv_live 8 (db_abs (sdb ?s))" by simp
  with s'(1) live show ?thesis by (intro exI[of _ s']) (simp only: simp_thms)
qed

text \<open>C4: The event loop on any sequence of ticks, however freed keys read, and of events \<open>kevent\<close>
  reports for filters that are registered when it is called: although handlers remove and
  reuse descriptors while reported events are pending, it never indexes outside the handler
  tables and no handler leaves a buffer; the invariants of the clients, of the registrations
  and of the keyspace's tables hold throughout, and it returns 0 only when it was told to stop
  and -1 only when the kernel refused to wait. (Every tick has enough random draws, and
  \<open>accept\<close> returns descriptors that are not in use.)\<close>

theorem el_run_safe:
  assumes "srv_inv s" "rounds_ok rounds s"
  shows "\<exists>rc s'. el_run rounds s = Some (rc, s') \<and> srv_inv s' \<and>
    (rc = None \<or> rc = Some 0 \<and> el_stop (el s') \<or> rc = Some (-1) \<and> PollErr \<in> snd ` set rounds)"
  by (rule el_run_inv[OF assms])

theorem el_run_safe_witness:
  "\<exists>s'. el_run [(tick0\<lparr>tk_stale := (\<lambda>_. [])\<rparr>, Polled [\<lparr>ev_ident = 4, ev_filter = EVFILT_READ, ev_incoming = NotReady,
       ev_accepted = -1, ev_xe = \<lparr>xe_stack = [], xe_pid = 7\<rparr>\<rparr>])] serving = Some (Some 0, s') \<and> srv_inv s'"
proof -
  let ?e = "\<lparr>ev_ident = 4, ev_filter = EVFILT_READ, ev_incoming = NotReady, ev_accepted = -1, ev_xe = \<lparr>xe_stack = [], xe_pid = 7\<rparr>\<rparr>"
  let ?te = "tick0\<lparr>tk_stale := (\<lambda>_. [])\<rparr>"
  have "tick_ok ?te serving" using serving_facts(2) by (simp add: tick_ok_def)
  note stop = shutdown_round_stops[OF serving_facts(1) this serving_facts(3), of ?e]
  from el_run_safe[OF serving_facts(1) stop(2)] stop(1)[of "[]"] show ?thesis by auto
qed

text \<open>C13: In every state the server can reach by ticks, polls, the handling of reported events,
  signals and ends of rewrite children in any order, the invariants hold, the next tick is
  carried out, every event still pending lies inside the handler tables, and the next one is
  handled (\<open>accept\<close> returning a descriptor that is not in use), whatever happened since it
  was reported.\<close>

theorem server_reachable_safe:
  assumes "srv_inv s" "server_step\<^sup>*\<^sup>* (s, []) (s', es)"
  shows "srv_inv s' \<and> (\<forall>e \<in> set es. ev_ident e < MAX_FDS) \<and>
    (\<forall>te. tick_ok te s' \<longrightarrow> before_sleep te s' \<noteq> None) \<and>
    (\<forall>e. (reported s' e \<or> e \<in> set es) \<and> accept_ok e s' \<longrightarrow> dispatch e s' \<noteq> None)"
proof -
  have "serve_inv (s', es)" by (rule srv.reachable_inv[OF assms(2)]) (simp add: serve_inv_def assms(1))
  then have inv: "srv_inv s'" "\<forall>e \<in> set es. ev_ident e < MAX_FDS" by (simp_all add: serve_inv_def)
  with before_sleep_inv[OF inv(1)] dispatch_inv[OF inv(1)] reported_range[OF inv(1)] show ?thesis by fastforce
qed

theorem server_reachable_safe_witness:
  "\<exists>s'. sig_shutdown_handler SIGTERM serving = Some s' \<and> before_sleep tick0 s' \<noteq> None \<and>
     dispatch \<lparr>ev_ident = 5, ev_filter = EVFILT_READ, ev_incoming = Incoming (frame (lit ''GET k'')),
       ev_accepted = -1, ev_xe = \<lparr>xe_stack = [], xe_pid = 7\<rparr>\<rparr> s' \<noteq> None"
proof -
  let ?e = "\<lparr>ev_ident = 5, ev_filter = EVFILT_READ, ev_incoming = Incoming (frame (lit ''GET k'')),
       ev_accepted = -1, ev_xe = \<lparr>xe_stack = [], xe_pid = 7\<rparr>\<rparr>"
  let ?s = "serving\<lparr>shutdown_signaled := True, os_pipe := os_pipe serving @ [SIGTERM]\<rparr>"
  have s: "sig_shutdown_handler SIGTERM serving = Some ?s"
    by (simp add: sig_shutdown_handler_def SIGTERM_def SIGINT_def)
  have "\<forall>e \<in> set [?e]. reported serving e" by (simp add: reported_def serving_def)
  then have "server_step (serving, []) (serving, [?e])" by (rule server_step.poll)
  moreover have "server_step (serving, [?e]) (?s, [?e])" by (rule server_step.signal[OF s])
  ultimately have "server_step\<^sup>*\<^sup>* (serving, []) (?s, [?e])"
    by (blast intro: converse_rtranclp_into_rtranclp)
  from server_reachable_safe[OF serving_facts(1) this] serving_facts(2) s show ?thesis
    by (simp add: tick_ok_def accept_ok_def fresh_fd_def)
qed

text \<open>C16: When the diff buffer of a running rewrite would outgrow its limit, the rewrite is aborted
  with a signal that the child, which has kept the server's handler, answers by writing to the
  shutdown pipe it shares: the loop of the server itself stops at the next event.\<close>

theorem rewrite_abort_stops_server:
  assumes "srv_inv s" "tick_ok te s" "os_child s = Running db" "aof_rewrite_buf s = Some diff"
    and "aof_rewrite_cap s < length diff + length rec"
    and "nat (cfg_aof_rewrite_buf_max_size (config s)) < length diff + length rec"
    and "el_read_handlers (el s) fd = Some OnShutdown" "ev_ident e = fd" "ev_filter e = EVFILT_READ"
  shows "os_pipe (aof_emit_diff rec s) = os_pipe s @ [SIGTERM] \<and>
    (\<exists>s'. el_run ((te, Polled [e]) # rounds) (aof_emit_diff rec s) = Some (Some 0, s'))"
proof -
  let ?s = "aof_emit_diff rec s"
  note eq = abort_signals[OF assms(3-6)]
  have same: "net_same s ?s" "stop_side s ?s" "tick_ok te ?s"
    using assms(2) by (simp_all add: eq net_same_def sock_fd_def stop_side_def tick_ok_def)
  have "el_read_handlers (el ?s) fd = Some OnShutdown" using same(2) assms(7) by (simp add: stop_side_def)
  from shutdown_round_stops(1)[OF srv_inv_same[OF assms(1) same(1)] same(3) this assms(8,9)]
  show ?thesis by (simp add: eq)
qed

theorem rewrite_abort_stops_server_witness:
  "let n = 128 * 1024 * 1024;
       s = serving\<lparr>os_child := Running (db_create 0), aof_rewrite_buf := Some (replicate n 0), aof_rewrite_cap := n\<rparr>;
       e = \<lparr>ev_ident = 4, ev_filter = EVFILT_READ, ev_incoming = NotReady, ev_accepted = -1, ev_xe = \<lparr>xe_stack = [], xe_pid = 7\<rparr>\<rparr> in
   \<exists>s'. el_run [(tick0, Polled [e])] (aof_emit_diff [1] s) = Some (Some 0, s')"
proof -
  let ?n = "128 * 1024 * 1024 :: nat"
  let ?s = "serving\<lparr>os_child := Running (db_create 0), aof_rewrite_buf := Some (replicate ?n 0), aof_rewrite_cap := ?n\<rparr>"
  have "net_same serving ?s" by (simp add: net_same_def sock_fd_def)
  with serving_facts(1) have inv: "srv_inv ?s" by (rule srv_inv_same)
  have t: "tick_ok tick0 ?s" "el_read_handlers (el ?s) 4 = Some OnShutdown" "config ?s = init_server_config"
    using serving_facts(2-4) by (simp_all add: tick_ok_def)
  show ?thesis
    using rewrite_abort_stops_server[OF inv t(1), of "db_create 0" "replicate ?n 0" "[1]" 4
        "\<lparr>ev_ident = 4, ev_filter = EVFILT_READ, ev_incoming = NotReady, ev_accepted = -1, ev_xe = \<lparr>xe_stack = [], xe_pid = 7\<rparr>\<rparr>" "[]"]
      t(2,3)
    by (simp add: init_server_config_def)
qed

end
