(* ===== verification/Lifecycle.thy ===== *)
theory Lifecycle
  imports Server_Loop
begin

text \<open>
  The start and the end of the server (\<open>server.c\<close>: \<open>shutdown_pipe_setup\<close>, \<open>init_server\<close>,
  \<open>shutdown_server\<close>, \<open>server_main\<close>; \<open>main.c\<close>), and what a restart finds of the one before.

  The configuration's file name is a string of its own, never \<open>NULL\<close>. \<open>sigaction\<close>, messages
  and the release of memory leave no trace in the state.
\<close>

section \<open>Starting\<close>

text \<open>What a start finds: clocks, the process number and what happens during the load.\<close>

record init_env =
  ie_now :: int
  ie_realtime :: int
  ie_pid :: int
  ie_load :: load_env
  ie_quarantine_ms :: int
  ie_created :: int

text \<open>\<open>snprintf\<close> into 512 bytes.\<close>

definition temp_name :: "cstr \<Rightarrow> int \<Rightarrow> cstr" where
  "temp_name file pid = take 511 (file @ lit ''.tmp.'' @ dec_int pid)"

definition quarantine_name :: "cstr \<Rightarrow> int \<Rightarrow> cstr" where
  "quarantine_name file ms = take 511 (file @ lit ''.corrupt-'' @ dec_int ms)"

text \<open>\<open>aof_load\<close> in the state: the keyspace, the file it may have cut off and the quarantine file.\<close>

definition put_file :: "cstr \<Rightarrow> byte list \<Rightarrow> sv \<Rightarrow> sv" where
  "put_file path bytes s =
     (let (ino, s) = (case os_path s path of Some ino \<Rightarrow> (ino, s) | None \<Rightarrow> sys_new_file path s) in
      s\<lparr>os_inode := (os_inode s)(ino := bytes), os_synced := (os_synced s)(ino := min (os_synced s ino) (length bytes))\<rparr>)"

definition load_log :: "init_env \<Rightarrow> cstr \<Rightarrow> sv \<Rightarrow> (int \<times> sv) option" where
  "load_log ie path s =
     (case aof_load (ie_load ie) (file_at s path) (sdb s) of
        None \<Rightarrow> None
      | Some r \<Rightarrow>
          (let s = s\<lparr>sdb := lr_db r\<rparr>;
               s = (case lr_quarantine r of
                      None \<Rightarrow> s | Some bytes \<Rightarrow> put_file (quarantine_name path (ie_quarantine_ms ie)) bytes s);
               s = (case lr_file r of None \<Rightarrow> s | Some bytes \<Rightarrow> put_file path bytes s) in
           Some (lr_rc r, s)))"

text \<open>\<open>pipe\<close> gives two descriptors.\<close>

definition shutdown_pipe_setup :: "int \<Rightarrow> sv \<Rightarrow> int \<times> sv" where
  "shutdown_pipe_setup sfd s =
     (let (ok, s) = sys_ok s in
      if \<not> ok then (EXIT_FAILURE, sys_close sfd s)
      else
        (let s = s\<lparr>srv_pipe := (os_next_fd s, os_next_fd s + 1), os_next_fd := os_next_fd s + 2\<rparr>;
             (ok, s) = sys_ok s;
             (ok, s) = (if ok then sys_ok s else (False, s)) in
         if \<not> ok
         then (EXIT_FAILURE, sys_close (snd (srv_pipe s)) (sys_close (fst (srv_pipe s)) (sys_close sfd s)))
         else (EXIT_SUCCESS, s)))"

text \<open>The part of \<open>init_server\<close> behind the listening socket: the log.\<close>

definition init_log :: "init_env \<Rightarrow> int \<Rightarrow> sv \<Rightarrow> int \<times> sv" where
  "init_log ie sfd s =
     (if \<not> cfg_aof_enabled (config s) then (EXIT_SUCCESS, s)
      else
        (let path = cfg_aof_filename (config s);
             (fd, s) = open_aof path s;
             s = s\<lparr>aof_fd := fd\<rparr> in
         if fd = -1 then (EXIT_FAILURE, sys_close sfd s)
         else
           (case file_at s path of
              None \<Rightarrow> (EXIT_SUCCESS, s)
            | Some bytes \<Rightarrow>
                (let (ok, s) = (if bytes = [] then aof_write_file_header fd (ie_created ie) s else (True, s)) in
                 if \<not> ok then (EXIT_FAILURE, sys_close sfd (sys_close fd s))
                 else
                   (case file_at s path of
                      None \<Rightarrow> (EXIT_SUCCESS, s)
                    | Some bytes \<Rightarrow> (EXIT_SUCCESS, s\<lparr>aof_rewrite_last_size := int (length bytes)\<rparr>))))))"

text \<open>The part behind the log: the event loop, the pipe and the two handlers.\<close>

definition init_loop :: "int \<Rightarrow> sv \<Rightarrow> int \<times> sv" where
  "init_loop sfd s =
     (let fail = (\<lambda>s. (EXIT_FAILURE, el_cleanup (sys_close sfd s)));
          (rc, s) = el_init s in
      if rc = -1 then (EXIT_FAILURE, sys_close sfd s)
      else
        (let (rc, s) = shutdown_pipe_setup sfd s in
         if rc = EXIT_FAILURE then (EXIT_FAILURE, s)
         else
           (let s = s\<lparr>server_fd := sfd\<rparr>;
                (rc, s) = el_add (fst (srv_pipe s)) OnShutdown s in
            if rc = -1 then fail s
            else
              (let (rc, s) = el_add sfd OnAccept s in
               if rc = -1 then fail s else (EXIT_SUCCESS, s)))))"

definition init_server :: "init_env \<Rightarrow> sv \<Rightarrow> (int \<times> sv) option" where
  "init_server ie s =
     (let s = s\<lparr>snow_ms := ie_now ie, now_realtime_ms := ie_realtime ie, sdb := db_create (ie_now ie),
                aof_buf_dirty := False, aof_rewrite_state := AOF_RW_IDLE, aof_rewrite_pid := -1,
                aof_rewrite_cap := AOF_RECORD_MAX * 64\<rparr>;
          path = cfg_aof_filename (config s);
          (ok, s) = sys_alloc s in
      if \<not> ok then Some (EXIT_FAILURE, s)
      else
        (let s = s\<lparr>aof_temp_filename := temp_name path (ie_pid ie)\<rparr> in
         case (if cfg_aof_enabled (config s) then load_log ie path s else Some (0, s)) of
           None \<Rightarrow> None
         | Some (rc, s) \<Rightarrow>
             if rc = -1 then Some (EXIT_FAILURE, s)
             else
               (let (sfd, s) = create_listener s in
                if sfd = -1 then Some (EXIT_FAILURE, s)
                else
                  (let (rc, s) = init_log ie sfd s in
                   if rc = EXIT_FAILURE then Some (EXIT_FAILURE, s) else Some (init_loop sfd s)))))"

section \<open>Stopping\<close>

definition shutdown_server :: "sv \<Rightarrow> sv" where
  "shutdown_server s =
     (let s = fold (\<lambda>fd s. if c_active (clients s fd) then sys_close (int fd) s else s) [0..<MAX_FDS] s;
          s = sys_close (server_fd s) s;
          s = sys_close (fst (srv_pipe s)) s;
          s = sys_close (snd (srv_pipe s)) s in
      el_cleanup s)"

section \<open>The whole program\<close>

text \<open>\<open>server_main\<close>: the exit status, \<open>None\<close> while the loop is still running.\<close>

definition server_main ::
    "init_env \<Rightarrow> (tick_env \<times> polled) list \<Rightarrow> cstr option \<Rightarrow> sv \<Rightarrow> (int option \<times> sv) option" where
  "server_main ie rounds configfile s =
     (let s = s\<lparr>config := init_server_config\<rparr>;
          (rc, s) = (case configfile of
                       None \<Rightarrow> (0, s)
                     | Some path \<Rightarrow>
                         (let (ok, s) = sys_ok s in load_config (if ok then file_at s path else None) s)) in
      if rc = -1 then Some (Some EXIT_FAILURE, s)
      else
        (case init_server ie s of
           None \<Rightarrow> None
         | Some (rc, s) \<Rightarrow>
             if rc = EXIT_FAILURE then Some (Some EXIT_FAILURE, s)
             else
               (case el_run rounds s of
                  None \<Rightarrow> None
                | Some (None, s) \<Rightarrow> Some (None, s)
                | Some (Some _, s) \<Rightarrow> Some (Some EXIT_SUCCESS, shutdown_server s))))"

definition main :: "init_env \<Rightarrow> (tick_env \<times> polled) list \<Rightarrow> cstr list \<Rightarrow> sv \<Rightarrow> (int option \<times> sv) option" where
  "main ie rounds argv s = server_main ie rounds (if 2 \<le> length argv then Some (argv ! 1) else None) s"

section \<open>A restart\<close>

text \<open>A new process with the configuration and the files of another one.\<close>

definition reboot :: "sv \<Rightarrow> sv" where
  "reboot s = (server_zero (os_platform s))\<lparr>config := config s, os_inode := os_inode s, os_synced := os_synced s,
     os_path := os_path s, os_next_ino := os_next_ino s\<rparr>"

text \<open>The state a start leaves when every call succeeds, over the files \<open>f\<close> of a state: the listening
  socket is 3, the log 4 and the pipe 5 and 6.\<close>

definition started :: "init_env \<Rightarrow> db \<Rightarrow> nat \<Rightarrow> nat \<Rightarrow> sv \<Rightarrow> sv" where
  "started ie db li n f =
     (reboot f)\<lparr>snow_ms := ie_now ie, now_realtime_ms := ie_realtime ie, sdb := db, aof_rewrite_pid := -1,
       aof_rewrite_cap := AOF_RECORD_MAX * 64, aof_temp_filename := temp_name (cfg_aof_filename (config f)) (ie_pid ie),
       aof_fd := 4, aof_rewrite_last_size := int n, server_fd := 3, srv_pipe := (5, 6),
       el := \<lparr>el_read_handlers = [5 \<mapsto> OnShutdown, 3 \<mapsto> OnAccept], el_write_handlers = Map.empty,
             el_poll_timeout_ms = 1000 sdiv cfg_hz (config f), el_stop = False\<rparr>,
       os_kq_read := {3, 5}, os_fd := [4 \<mapsto> li], os_next_fd := 7, os_listens := [3]\<rparr>"

lemma reboot_fields [simp]:
  "config (reboot s) = config s" "os_inode (reboot s) = os_inode s" "os_path (reboot s) = os_path s"
  "os_synced (reboot s) = os_synced s" "os_next_ino (reboot s) = os_next_ino s" "file_at (reboot s) = file_at s"
  by (simp_all add: reboot_def file_at_def[abs_def])

lemma started_inv: "config_ok (config f) \<Longrightarrow> db_inv db \<Longrightarrow> srv_inv (started ie db li n f)"
  by (auto simp: srv_inv_def db_inv_wf net_inv_def el_inv_def active_fds_def started_def reboot_def server_zero_def client_zero_def
      net_sizes split: if_splits)

lemma started_durable:
  assumes "cfg_aof_enabled (config f)" "db_inv db" "kv_wf T (db_abs db)" "replays_to T (os_inode f li) (db_abs db)"
    and "os_path f (cfg_aof_filename (config f)) = Some li" "\<forall>p i. os_path f p = Some i \<longrightarrow> i < os_next_ino f"
    and "os_path f (temp_name (cfg_aof_filename (config f)) (ie_pid ie)) \<noteq> Some li"
  shows "durable_inv T (started ie db li n f)"
proof -
  have "temp_name (cfg_aof_filename (config f)) (ie_pid ie) \<noteq> cfg_aof_filename (config f)" using assms(5,7) by auto
  with assms show ?thesis
    by (simp add: durable_inv_def files_inv_def rewrite_inv_def diff_inv_def fd_bytes_def started_def reboot_def server_zero_def)
qed

text \<open>A start on a log that is there and loads without a loss.\<close>

lemma init_server_loads:
  assumes "cfg_aof_enabled (config s)" "os_path s (cfg_aof_filename (config s)) = Some li" "os_inode s li = bytes" "bytes \<noteq> []"
    and "aof_load (ie_load ie) (Some bytes) (db_create (ie_now ie)) = Some r" "lr_rc r = 0" "lr_file r = Some bytes"
      "lr_quarantine r = None"
  shows "init_server ie (reboot s) =
    Some (EXIT_SUCCESS, started ie (lr_db r) li (length bytes)
      (s\<lparr>os_synced := (os_synced s)(li := min (os_synced s li) (length bytes))\<rparr>))"
  using assms
  by (simp add: init_server_def load_log_def put_file_def init_log_def init_loop_def create_listener_def sys_listen_def sys_socket_def
      open_aof_def sys_open_create_def sys_bind_fd_def el_init_def shutdown_pipe_setup_def el_add_def sys_ok_def sys_alloc_def
      file_at_def started_def reboot_def server_zero_def fd_in_range_def MAX_FDS_def fun_upd_idem)

text \<open>A start without a log: it is created with its header.\<close>

lemma init_server_creates:
  assumes "cfg_aof_enabled (config s)" "os_path s (cfg_aof_filename (config s)) = None"
  shows "init_server ie (reboot s) =
    Some (EXIT_SUCCESS, started ie (db_create (ie_now ie)) (os_next_ino s) (length (aof_file_header (ie_created ie)))
      (s\<lparr>os_inode := (os_inode s)(os_next_ino s := aof_file_header (ie_created ie)),
         os_synced := (os_synced s)(os_next_ino s := 0),
         os_path := (os_path s)(cfg_aof_filename (config s) \<mapsto> os_next_ino s), os_next_ino := os_next_ino s + 1\<rparr>))"
proof -
  have "write_all [] bs = (True, bs, [])" for bs :: "byte list" by (simp add: write_all_def)
  with assms show ?thesis
    by (simp add: init_server_def load_log_def aof_load_def init_log_def init_loop_def create_listener_def sys_listen_def sys_socket_def
        open_aof_def sys_open_create_def sys_new_file_def sys_bind_fd_def aof_write_file_header_def sys_write_all_def
        el_init_def shutdown_pipe_setup_def el_add_def sys_ok_def sys_alloc_def file_at_def started_def reboot_def
        server_zero_def fd_in_range_def MAX_FDS_def Let_def)
qed

section \<open>Reading frames in step with the log\<close>



section \<open>A restart finds the keyspace\<close>

lemma header_nonempty: "replays_to T bytes m \<Longrightarrow> bytes \<noteq> []"
  by (auto simp: replays_to_def aof_file_header_def AOF_FILE_MAGIC_def lit_def Let_def)

lemma restart_durable:
  assumes inv: "durable_inv T s" "config_ok (config s)" and load: "load_works (ie_load ie)" "\<forall>n. le_clk (ie_load ie) n \<le> T"
    and temp: "os_path s (temp_name (cfg_aof_filename (config s)) (ie_pid ie)) \<noteq> os_path s (cfg_aof_filename (config s))"
  shows "\<exists>s'. init_server ie (reboot s) = Some (EXIT_SUCCESS, s') \<and> db_abs (sdb s') = db_abs (sdb s) \<and>
    durable_inv T s' \<and> srv_inv s' \<and> el_read_handlers (el s') (nat (server_fd s')) = Some OnAccept \<and>
    file_at s' (cfg_aof_filename (config s)) = file_at s (cfg_aof_filename (config s))"
proof -
  note i = durable_invD[OF inv(1)]
  obtain li where li: "os_path s (cfg_aof_filename (config s)) = Some li" "\<forall>p i. os_path s p = Some i \<longrightarrow> i < os_next_ino s"
    using i(4) by (auto simp: files_inv_def)
  obtain bytes where b: "os_inode s li = bytes" "replays_to T bytes (db_abs (sdb s))"
    using durable_inv_file[OF inv(1)] li(1) by (auto simp: file_at_def)
  obtain r where r: "aof_load (ie_load ie) (Some bytes) (db_create (ie_now ie)) = Some r" "lr_rc r = 0" "db_inv (lr_db r)"
      "db_abs (lr_db r) = db_abs (sdb s)" "lr_file r = Some bytes" "lr_quarantine r = None"
    using replays_to_load[OF b(2) load] by blast
  let ?f = "s\<lparr>os_synced := (os_synced s)(li := min (os_synced s li) (length bytes))\<rparr>"
  let ?s = "started ie (lr_db r) li (length bytes) ?f"
  have "init_server ie (reboot s) = Some (EXIT_SUCCESS, ?s)"
    by (rule init_server_loads[OF i(1) li(1) b(1) header_nonempty[OF b(2)] r(1,2,5,6)])
  moreover have "durable_inv T ?s"
    by (rule started_durable) (use i r li b temp in simp_all)
  moreover have "srv_inv ?s" by (rule started_inv) (use inv(2) r(3) in simp_all)
  moreover have "sdb ?s = lr_db r" "el_read_handlers (el ?s) (nat (server_fd ?s)) = Some OnAccept" "file_at ?s = file_at s"
    by (simp_all add: started_def reboot_def file_at_def[abs_def])
  ultimately show ?thesis using r(4) by simp
qed


lemma temp_name_differs: "length file \<le> 510 \<Longrightarrow> temp_name file pid \<noteq> file"
proof
  assume "length file \<le> 510" "temp_name file pid = file"
  moreover have "length (temp_name file pid) = min 511 (length file + 5 + length (dec_int pid))"
    by (simp add: temp_name_def lit_def)
  ultimately show False by simp
qed

lemma reboot_zero: "reboot (server_zero pf) = server_zero pf"
  by (simp add: reboot_def server_zero_def)






text \<open>The exit status does not tell that the loop failed, and a shutdown flushes nothing.\<close>

lemma server_main_ignores_loop_error:
  assumes "init_server ie (s\<lparr>config := init_server_config\<rparr>) = Some (EXIT_SUCCESS, s1)" "el_run rounds s1 = Some (Some (-1), s2)"
  shows "server_main ie rounds None s = Some (Some EXIT_SUCCESS, shutdown_server s2)"
  using assms by (simp add: server_main_def)

lemma shutdown_server_unsynced: "os_synced (shutdown_server s) = os_synced s" "aof_buf_dirty (shutdown_server s) = aof_buf_dirty s"
proof -
  have "os_synced (fold (\<lambda>fd s. if c_active (clients s fd) then sys_close (int fd) s else s) fds s) = os_synced s \<and>
      aof_buf_dirty (fold (\<lambda>fd s. if c_active (clients s fd) then sys_close (int fd) s else s) fds s) = aof_buf_dirty s" for fds
    by (induction fds arbitrary: s) (simp_all add: sys_close_def)
  then show "os_synced (shutdown_server s) = os_synced s" "aof_buf_dirty (shutdown_server s) = aof_buf_dirty s"
    by (simp_all add: shutdown_server_def Let_def sys_close_def el_cleanup_def)
qed

section \<open>Properties\<close>

text \<open>C3: A server that is started where another one stopped, before the first deadline and with no failing
  call, comes up with exactly its keys, values and deadlines, listens, leaves the log as it was, and
  is again in a state from which the log restores the keyspace.\<close>

theorem restart_restores_keyspace:
  assumes "durable_inv T s" "config_ok (config s)" "load_works (ie_load ie)" "\<forall>n. le_clk (ie_load ie) n \<le> T"
    and "os_path s (temp_name (cfg_aof_filename (config s)) (ie_pid ie)) \<noteq> os_path s (cfg_aof_filename (config s))"
  shows "\<exists>s'. init_server ie (reboot s) = Some (EXIT_SUCCESS, s') \<and> db_abs (sdb s') = db_abs (sdb s) \<and>
    durable_inv T s' \<and> srv_inv s' \<and> el_read_handlers (el s') (nat (server_fd s')) = Some OnAccept \<and>
    file_at s' (cfg_aof_filename (config s)) = file_at s (cfg_aof_filename (config s))"
  by (rule restart_durable[OF assms])

text \<open>An environment in which nothing fails, at time 0, and a server with its log open and a client on
  descriptor 5.\<close>

definition calm_start :: init_env where
  "calm_start = \<lparr>ie_now = 0, ie_realtime = 0, ie_pid = 42, ie_load = quiet_load 0, ie_quarantine_ms = 0, ie_created = 5\<rparr>"

definition log_client :: sv where
  "log_client = fresh_log\<lparr>clients := (\<lambda>_. client_zero)(5 := client_zero\<lparr>c_active := True\<rparr>), clients_count := 1,
     os_kq_read := {5}, os_next_fd := 6,
     el := \<lparr>el_read_handlers = [5 \<mapsto> OnRead], el_write_handlers = Map.empty, el_poll_timeout_ms = 100, el_stop = False\<rparr>\<rparr>"

lemma calm_start_works: "load_works (ie_load calm_start)" "\<forall>n. le_clk (ie_load calm_start) n \<le> 0"
  using quiet_load_works[of 0] by (simp_all add: calm_start_def quiet_load_def)

lemma log_client_facts:
  "durable_inv T log_client" "net_inv log_client" "all_well log_client" "config log_client = init_server_config"
  "now_realtime_ms log_client = 0" "active_fds log_client = {5}" "clients log_client 5 = client_zero\<lparr>c_active := True\<rparr>"
  "tick_ok tick0 log_client"
proof -
  show c: "config log_client = init_server_config"
    by (simp add: log_client_def fresh_log_def open_log_def server_zero_def)
  have f: "durable_inv T fresh_log" by (rule fresh_log_inv)
  have "files_inv log_client" using durable_invD(4)[OF f]
    by (auto simp: files_inv_def log_client_def fresh_log_def open_log_def)
  with durable_invD[OF f] show "durable_inv T log_client"
    by (simp add: durable_inv_def rewrite_inv_def diff_inv_def fd_bytes_def file_at_def log_client_def
        split: option.splits child.splits)
  show act: "active_fds log_client = {5}" by (auto simp: active_fds_def log_client_def client_zero_def)
  show "net_inv log_client"
    unfolding net_inv_def act
    by (auto simp: log_client_def fresh_log_def open_log_def el_inv_def client_ok_def client_zero_def server_zero_def
        net_sizes sock_fd_def split: if_splits)
  show "tick_ok tick0 log_client"
    by (rule tick0_ok) (simp_all add: log_client_def fresh_log_def open_log_def server_zero_def
        db_create_def ht_create_def HT_INITIAL_SIZE_def)
qed (simp_all add: log_client_def fresh_log_def open_log_def server_zero_def all_well_def)

text \<open>The same server with a key that has a deadline, in memory and in the log.\<close>

definition log_client7 :: sv where
  "log_client7 = log_client\<lparr>sdb := fst (db_run (KSetex (lit ''k'') (lit ''v'') 7) (db_create 0)),
     os_inode := (\<lambda>_. aof_file_header 5 @ op_record (KSetex (lit ''k'') (lit ''v'') 7))\<rparr>"

lemma log_client7_inv: "durable_inv 7 log_client7"
proof -
  let ?p = "KSetex (lit ''k'') (lit ''v'') 7"
  note i = durable_invD[OF log_client_facts(1)[of 7]]
  have "replays_to 7 (aof_file_header 5 @ op_record ?p) [lit ''k'' \<mapsto> (lit ''v'', Some 7)]"
    unfolding replays_to_def
    by (intro exI[of _ 5] exI[of _ "[?p]"]) (use op_k_fits(1) in \<open>simp add: op_skipped_def\<close>)
  moreover have "kv_wf 7 [lit ''k'' \<mapsto> (lit ''v'', Some 7)]"
    using op_k_fits(1) by (simp add: kv_wf_def op_fits_def)
  moreover have "sdb log_client7 = fst (db_run ?p (db_create 0))" by (simp add: log_client7_def)
  then have "db_inv (sdb log_client7)" "db_abs (sdb log_client7) = [lit ''k'' \<mapsto> (lit ''v'', Some 7)]"
    using db_k7_inv db_k7_abs by simp_all
  moreover have "files_inv log_client7" using i(4) by (simp add: files_inv_def log_client7_def)
  moreover have "os_fd log_client7 (aof_fd log_client7) = Some 0" "cfg_aof_enabled (config log_client7)"
      "aof_rewrite_buf log_client7 = None" "aof_rewrite_state log_client7 = AOF_RW_IDLE" "os_child log_client7 = NoChild"
      "os_inode log_client7 0 = aof_file_header 5 @ op_record ?p"
    by (simp_all add: log_client7_def log_client_def fresh_log_def open_log_def server_zero_def init_server_config_def)
  ultimately show ?thesis
    by (simp add: durable_inv_def rewrite_inv_def diff_inv_def fd_bytes_def)
qed

theorem restart_restores_keyspace_witness:
  "\<exists>s'. init_server calm_start (reboot log_client7) = Some (EXIT_SUCCESS, s') \<and>
     db_abs (sdb s') = [lit ''k'' \<mapsto> (lit ''v'', Some 7)] \<and> srv_inv s'"
proof -
  have c: "config log_client7 = init_server_config"
    by (simp add: log_client7_def log_client_facts(4))
  have t: "os_path log_client7 (temp_name (cfg_aof_filename (config log_client7)) (ie_pid calm_start)) \<noteq>
      os_path log_client7 (cfg_aof_filename (config log_client7))"
    using temp_name_differs[of "lit ''bytekv.aof''" "ie_pid calm_start"]
    by (simp add: log_client7_def log_client_def fresh_log_def open_log_def server_zero_def init_server_config_def lit_def)
  have "db_abs (sdb log_client7) = [lit ''k'' \<mapsto> (lit ''v'', Some 7)]"
    using db_k7_abs by (simp add: log_client7_def)
  moreover have "\<forall>n. le_clk (ie_load calm_start) n \<le> 7" by (simp add: calm_start_def quiet_load_def)
  ultimately show ?thesis
    using restart_restores_keyspace[OF log_client7_inv _ calm_start_works(1) _ t] c config_ok_default by auto
qed



text \<open>C14: The first start on an empty machine, when no call fails, creates a log that holds just its
  header and comes up with an empty keyspace in the invariants of the server and of the log. The
  program then runs its loop safely on whatever the kernel reports: while it runs, and where it
  ends, the invariant of the server holds; it ends when it was told to stop or when the kernel
  refuses to wait, and then it is shut down and the exit status is 0, in the second case too.\<close>

theorem main_first_start:
  "\<exists>s1. init_server ie (server_zero pf) = Some (EXIT_SUCCESS, s1) \<and> db_abs (sdb s1) = Map.empty \<and>
     file_at s1 (lit ''bytekv.aof'') = Some (aof_file_header (ie_created ie)) \<and> durable_inv T s1 \<and> srv_inv s1 \<and>
     (rounds_ok rounds s1 \<longrightarrow>
        (\<exists>rc s2. el_run rounds s1 = Some (rc, s2) \<and> srv_inv s2 \<and>
           (rc = None \<or> rc = Some 0 \<and> el_stop (el s2) \<or> rc = Some (-1) \<and> PollErr \<in> snd ` set rounds) \<and>
           main ie rounds [prog] (server_zero pf) =
             Some (if rc = None then (None, s2) else (Some EXIT_SUCCESS, shutdown_server s2))))"
proof -
  let ?z = "server_zero pf" and ?h = "aof_file_header (ie_created ie)" and ?log = "lit ''bytekv.aof''"
  let ?f = "?z\<lparr>os_inode := (os_inode ?z)(0 := ?h), os_synced := (os_synced ?z)(0 := 0), os_path := (os_path ?z)(?log \<mapsto> 0),
      os_next_ino := 1\<rparr>"
  let ?s = "started ie (db_create (ie_now ie)) 0 (length ?h) ?f"
  have c: "cfg_aof_enabled (config ?z)" "cfg_aof_filename (config ?z) = ?log" "os_path ?z ?log = None" "os_next_ino ?z = 0"
      "config ?z = init_server_config"
    by (simp_all add: server_zero_def init_server_config_def)
  have i: "init_server ie ?z = Some (EXIT_SUCCESS, ?s)"
    using init_server_creates[of ?z ie] c unfolding reboot_zero by simp
  have "temp_name ?log (ie_pid ie) \<noteq> ?log" by (rule temp_name_differs) (simp add: lit_def)
  moreover have "replays_to T ?h (db_abs (db_create (ie_now ie)))"
    unfolding replays_to_def by (intro exI[of _ "ie_created ie"] exI[of _ "[]"]) (simp add: db_create_abs)
  moreover have "kv_wf T (db_abs (db_create (ie_now ie)))" by (simp add: db_create_abs kv_wf_def)
  moreover have "os_path ?z = Map.empty" by (simp add: server_zero_def)
  ultimately have d: "durable_inv T ?s" using c by (intro started_durable) (auto simp: db_create_inv split: if_splits)
  have inv: "srv_inv ?s" by (rule started_inv) (simp_all add: c(5) config_ok_default db_create_inv)
  have "file_at ?s ?log = Some ?h" "sdb ?s = db_create (ie_now ie)"
    by (simp_all add: file_at_def started_def reboot_def)
  moreover have "\<exists>rc s2. el_run rounds ?s = Some (rc, s2) \<and> srv_inv s2 \<and>
      (rc = None \<or> rc = Some 0 \<and> el_stop (el s2) \<or> rc = Some (-1) \<and> PollErr \<in> snd ` set rounds) \<and>
      main ie rounds [prog] ?z = Some (if rc = None then (None, s2) else (Some EXIT_SUCCESS, shutdown_server s2))"
    if run: "rounds_ok rounds ?s"
  proof -
    have z: "?z\<lparr>config := init_server_config\<rparr> = ?z" by (simp add: server_zero_def)
    obtain rc s2 where r: "el_run rounds ?s = Some (rc, s2)" "srv_inv s2"
        "rc = None \<or> rc = Some 0 \<and> el_stop (el s2) \<or> rc = Some (-1) \<and> PollErr \<in> snd ` set rounds"
      using el_run_inv[OF inv run] by blast
    have "main ie rounds [prog] ?z = Some (if rc = None then (None, s2) else (Some EXIT_SUCCESS, shutdown_server s2))"
      using i z r(1) by (cases rc) (simp_all add: main_def server_main_def)
    with r show ?thesis by blast
  qed
  ultimately show ?thesis using i d inv by (intro exI[of _ ?s]) (simp add: db_create_abs)
qed

theorem main_first_start_witness:
  "\<exists>s'. main calm_start [(tick0, Polled [\<lparr>ev_ident = 5, ev_filter = EVFILT_READ, ev_incoming = NotReady, ev_accepted = -1,
       ev_xe = \<lparr>xe_stack = [], xe_pid = 7\<rparr>\<rparr>])] [lit ''bytekv''] (server_zero Apple) = Some (Some EXIT_SUCCESS, s')"
proof -
  let ?e = "\<lparr>ev_ident = 5, ev_filter = EVFILT_READ, ev_incoming = NotReady, ev_accepted = -1, ev_xe = \<lparr>xe_stack = [], xe_pid = 7\<rparr>\<rparr>"
  let ?rounds = "[(tick0, Polled [?e])]"
  obtain s1 where s1: "init_server calm_start (server_zero Apple) = Some (EXIT_SUCCESS, s1)" "srv_inv s1"
      "rounds_ok ?rounds s1 \<longrightarrow> (\<exists>rc s2. el_run ?rounds s1 = Some (rc, s2) \<and>
         main calm_start ?rounds [lit ''bytekv''] (server_zero Apple) =
           Some (if rc = None then (None, s2) else (Some EXIT_SUCCESS, shutdown_server s2)))"
    using main_first_start[of calm_start Apple 0 ?rounds "lit ''bytekv''"] by blast
  have "cfg_aof_enabled (config (server_zero Apple))"
      "os_path (server_zero Apple) (cfg_aof_filename (config (server_zero Apple))) = None"
    by (simp_all add: server_zero_def init_server_config_def)
  from init_server_creates[OF this, of calm_start] s1(1)
  have f: "sdb s1 = db_create 0" "config s1 = init_server_config" "el_read_handlers (el s1) 5 = Some OnShutdown"
    unfolding reboot_zero by (auto simp: started_def reboot_def server_zero_def calm_start_def)
  have "tick_ok tick0 s1" by (rule tick0_ok) (simp_all add: f db_create_def ht_create_def HT_INITIAL_SIZE_def)
  note stop = shutdown_round_stops[OF s1(2) this f(3), of ?e]
  obtain s' where "el_run ?rounds s1 = Some (Some 0, s')" using stop(1)[of "[]"] by auto
  with s1(3) stop(2) show ?thesis by auto
qed



end
