(* ===== verification/Spec2Isabelle.thy ===== *)
theory Spec2Isabelle
  imports Lifecycle
begin

text \<open>
  A verification development of bytekv, a single-threaded in-memory key-value server with
  expiry and an append-only log, written in C (\<open>src/src\<close>).

  \<^bold>\<open>The program.\<close> \<open>main\<close> reads a configuration, replays the log into the keyspace, opens a
  listening socket and runs an event loop. Before each wait the loop does its periodic work:
  it expires keys, drops idle clients, flushes the log and looks after its rewrite. Events
  accept clients, read length-prefixed frames, execute the commands in them and send the
  answers. A command that changes the keyspace is appended to the log; when the log has grown,
  a forked child writes a snapshot while the parent keeps what happens meanwhile in a diff
  buffer, and the parent switches to snapshot plus diff with a rename. A signal writes a byte
  to a pipe whose handler stops the loop.

  \<^bold>\<open>Theories and sources.\<close>
  \<^item> \<open>Prelude\<close>: bytes, C strings, big-endian fields, 64-bit wrap-around, shared lemmas and
    collections. \<open>Clib\<close>: what is used of the C library (\<open>strtol\<close>, \<open>fgets\<close>, \<open>sscanf\<close>,
    \<open>strcasecmp\<close>, decimal printing).
  \<^item> \<open>Store_Interfaces\<close>: the contracts of a table and of a key-value store with deadlines as
    locales; the abstract store \<open>kv\<close> with \<open>kv_apply\<close> and \<open>kv_live\<close>. \<open>Framing\<close>: the contract
    of a self-delimiting encoding. \<open>Machine\<close>: step relations and their invariants.
  \<^item> \<open>Ht\<close> (\<open>ht.c\<close>): the chained hash table, its growth and its iterator. \<open>Db\<close> (\<open>db.c\<close>): the
    keyspace of two tables, lazy expiry and the active sweep.
  \<^item> \<open>Crc64\<close> (\<open>crc64.c\<close>), \<open>Util\<close> (\<open>util.c\<close>).
  \<^item> \<open>Aof_Format\<close>, \<open>Aof_Load\<close>, \<open>Aof_Write\<close>, \<open>Aof_Rewrite\<close> (\<open>aof.c\<close>, \<open>aof.h\<close>): records and
    headers, recovery, the write path, the rewrite.
  \<^item> \<open>Server_State\<close> (\<open>server.h\<close>, \<open>config.h\<close>, \<open>networking.h\<close>, \<open>event_loop.h\<close>): the global
    \<open>server\<close> as a record, extended by what the system keeps for it: files as inodes behind
    paths and descriptors, registered filters, the child, the pipe, and the outcomes of calls.
  \<^item> \<open>Durability\<close>: the log and the keyspace together, as a step relation.
  \<^item> \<open>Config\<close> (\<open>config.c\<close>), \<open>Command\<close> (\<open>command.c\<close>), \<open>Event_Loop\<close> (\<open>event_loop.c\<close>, the
    registrations), \<open>Networking\<close> (\<open>networking.c\<close>).
  \<^item> \<open>Server_Loop\<close> (\<open>server.c\<close>: periodic work and shutdown handler; \<open>el_run\<close> of
    \<open>event_loop.c\<close>) and \<open>Lifecycle\<close> (\<open>server.c\<close>: start and stop; \<open>main.c\<close>).

  \<^bold>\<open>State and effects.\<close> One record is passed through every function. A system call takes its
  outcome from a list in the state (a list that has ended stands for success), so a theorem
  without an assumption on these lists covers every failure of these calls. What comes from
  outside (clock readings, random draws, the events \<open>kevent\<close> reports, bytes on a socket, the
  descriptor \<open>accept\<close> returns, what an uninitialised local buffer holds) is an argument. Status
  codes are the code's own; a function that would leave an array has no value.

  \<^bold>\<open>What is taken for granted.\<close> \<open>kevent\<close> reports only filters that are registered when it is
  called, and \<open>accept\<close> returns a descriptor that is not in use (\<open>reported\<close>, \<open>accept_ok\<close>). The
  allocations the code does not check (\<open>strdup\<close>, \<open>calloc\<close> in \<open>ht.c\<close>) succeed. The active sweep
  reads the key of an entry it has freed; what it finds there is a parameter (\<open>tk_stale\<close>), and
  only what is stated under the condition that it still reads as the key depends on it. Counters
  are unbounded integers. The three ways to flush a file have one effect, \<open>os_synced\<close>.

  \<^bold>\<open>What is shown.\<close>
  \<^item> The tables refine finite maps and the keyspace refines the abstract store, whatever
    allocations of entries fail; reads are exact at their time; the sweep removes exactly the
    expired deadlines it samples, and their values as long as a freed key still reads as it did.
  \<^item> The checksum is the bit-serial CRC and detects every burst of up to eight bytes; records
    round-trip; a load replays whole records up to the first that is damaged or refused, and
    what it cuts off is in the quarantine file if the copy, which it does not check, succeeded.
  \<^item> An append that reports success is complete and, under the policy that says so, on the
    device; the switch at the end of a rewrite happens completely or not at all; as long as the
    record of every accepted mutation reaches the log whole and nothing expires, in every
    interleaving of mutations, flushes and rewrite steps the log replays to the keyspace.
  \<^item> The tokenizer yields the words of a line; the command table is the documented one; each
    command does to the abstract store what it names and answers accordingly; any payload is
    answered within the buffers.
  \<^item> Frames are executed once and in order when no call fails and nothing is queued, answers are
    queued whole and in order, and the tables of clients, handlers and filters stay consistent.
  \<^item> The active expiry ends in every tick; the event loop is safe on every sequence of reported
    events, signals and failures; a start restores the keyspace of the server before it; from
    the bytes a client sends to a restarted server the keyspace is the same, when no call fails.

  \<^bold>\<open>Loops and bounds.\<close> Loops over data are structural or have a measure. The expiry loop is a
  partial function of its random draws, shown to return once every bucket in use has been
  drawn as often as there can be rounds, one more than deadlines, times the sample size. The
  event loop runs over a list of rounds; a list that ends leaves a server that is still
  running. Durability is stated relative to a time before every deadline: a load after it skips
  records that have expired, which is the subject of theorems and findings of its own.

  \<^bold>\<open>Not modelled.\<close> The release of memory (\<open>ht_free\<close>, \<open>db_free\<close>); messages to the terminal;
  socket options, addresses and the descriptor flags of \<open>set_non_blocking\<close> beyond success and
  failure; \<open>sigaction\<close>; the time \<open>kevent\<close> waits; the headers' prototypes; the client script
  and the build file.
\<close>

end
